(* ===== verification/Rounding.thy ===== *)
theory Rounding
  imports Prelude "HOL-Library.Log_Nat"
begin

text \<open>
  Rounding to the nearest IEEE 754 binary64 value, on rationals: the arithmetic every
  JavaScript number operation is built from. The rounding is executable; what it promises
  (the nearest representable value, monotone, the identity on representable values) is the
  contract \<open>rounding\<close>, proved once and interpreted for the definition.
\<close>

subsection \<open>Round half to even\<close>

definition rne :: "rat \<Rightarrow> int" where
  "rne q = (let f = \<lfloor>q\<rfloor>; d = q - of_int f in
     if d < 1/2 then f else if d > 1/2 then f + 1 else if even f then f else f + 1)"

lemma floor_bounds: "of_int \<lfloor>q\<rfloor> \<le> q" "q < of_int \<lfloor>q\<rfloor> + 1" for q :: rat
  using floor_correct [of q] by simp_all

lemma rne_error: "\<bar>of_int (rne q) - q\<bar> \<le> 1/2"
proof -
  show ?thesis
    using floor_bounds [of q] by (auto simp: rne_def Let_def abs_le_iff)
qed

lemma rne_of_int [simp]: "rne (of_int n) = n"
  by (simp add: rne_def Let_def)

lemma rne_nearest: "\<bar>of_int (rne q) - q\<bar> \<le> \<bar>of_int n - q\<bar>"
proof -
  note f = floor_bounds [of q]
  consider "n \<le> \<lfloor>q\<rfloor>" | "\<lfloor>q\<rfloor> + 1 \<le> n" by linarith
  then show ?thesis
  proof cases
    case 1
    then have "(of_int n :: rat) \<le> of_int \<lfloor>q\<rfloor>" by simp
    with f show ?thesis by (auto simp: rne_def Let_def)
  next
    case 2
    then have "of_int \<lfloor>q\<rfloor> + 1 \<le> (of_int n :: rat)" by linarith
    with f show ?thesis by (auto simp: rne_def Let_def)
  qed
qed

lemma rne_minus: "rne (- q) = - rne q"
proof (cases "q = of_int \<lfloor>q\<rfloor>")
  case True
  then show ?thesis by (metis of_int_minus rne_of_int)
next
  case False
  note f = floor_bounds [of q]
  with False have fl: "\<lfloor>- q\<rfloor> = - \<lfloor>q\<rfloor> - 1"
    by (intro floor_unique) (simp_all add: less_le)
  define d where "d = q - of_int \<lfloor>q\<rfloor>"
  have l: "rne q = (if d < 1/2 then \<lfloor>q\<rfloor> else if d > 1/2 then \<lfloor>q\<rfloor> + 1
      else if even \<lfloor>q\<rfloor> then \<lfloor>q\<rfloor> else \<lfloor>q\<rfloor> + 1)"
    by (simp only: rne_def Let_def d_def)
  have e: "- q - of_int (- \<lfloor>q\<rfloor> - 1) = 1 - d" by (simp add: d_def)
  have r: "rne (- q) = (if 1 - d < 1/2 then - \<lfloor>q\<rfloor> - 1 else if 1 - d > 1/2 then - \<lfloor>q\<rfloor>
      else if even (- \<lfloor>q\<rfloor> - 1) then - \<lfloor>q\<rfloor> - 1 else - \<lfloor>q\<rfloor>)"
    by (simp only: rne_def Let_def fl e) simp
  consider "d < 1/2" | "d > 1/2" | "d = 1/2" by linarith
  then show ?thesis
    by cases (simp_all add: l r)
qed

lemma rne_abs_le: "\<bar>q\<bar> \<le> of_int n \<Longrightarrow> \<bar>rne q\<bar> \<le> n"
proof -
  assume a: "\<bar>q\<bar> \<le> of_int n"
  have "\<bar>of_int (rne q) - q\<bar> \<le> 1/2" by (rule rne_error)
  with a have "\<bar>of_int (rne q)\<bar> \<le> of_int n + (1/2 :: rat)" by linarith
  then have "of_int \<bar>rne q\<bar> < (of_int (n + 1) :: rat)" by simp
  then show ?thesis by (simp only: of_int_less_iff)
qed

subsection \<open>The binary exponent\<close>

definition expo :: "rat \<Rightarrow> int" where
  "expo q = (let (a, b) = quotient_of q; k = bitlen \<bar>a\<bar> - bitlen b
     in if 2 powi k \<le> \<bar>q\<bar> then k else k - 1)"

lemma powi2_mono: "a \<le> b \<Longrightarrow> (2 :: rat) powi a \<le> 2 powi b"
  by (rule power_int_increasing) auto

lemma powi2_pos [simp]: "0 < (2 :: rat) powi a"
  by simp

lemma powi2_less_iff: "(2 :: rat) powi a < 2 powi b \<longleftrightarrow> a < b"
  by (meson less_le_not_le linorder_not_less powi2_mono power_int_strict_increasing one_less_numeral_iff semiring_norm(76))

lemma powi2_add: "(2 :: rat) powi (a + b) = 2 powi a * 2 powi b"
  by (simp add: power_int_add)

lemma powi2_Suc: "(2 :: rat) powi (a + 1) = 2 * 2 powi a"
  by (simp add: power_int_add)

lemma powi2_split: "b \<le> a \<Longrightarrow> (2 :: rat) powi a = of_int (2 ^ nat (a - b)) * 2 powi b"
proof -
  assume "b \<le> a"
  then have "(2 :: rat) powi (a - b) = 2 ^ nat (a - b)" by (simp add: power_int_def)
  then show ?thesis by (simp add: power_int_diff field_simps)
qed

lemma bitlen_rat:
  assumes "0 < n"
  shows "(2 :: rat) powi (bitlen n - 1) \<le> of_int n" and "of_int n < (2 :: rat) powi bitlen n"
proof -
  have b: "2 ^ nat (bitlen n - 1) \<le> n" "n < 2 ^ nat (bitlen n)"
    using bitlen_bounds [of n] assms by auto
  have pos: "0 < bitlen n"
    using assms bitlen_eq_zero_iff [of n] bitlen_nonneg [of n] by linarith
  have "(2 :: rat) powi (bitlen n - 1) = of_int (2 ^ nat (bitlen n - 1))"
    using pos by (simp add: power_int_def)
  also have "\<dots> \<le> of_int n" using b(1) by (simp only: of_int_le_iff)
  finally show "(2 :: rat) powi (bitlen n - 1) \<le> of_int n" .
  have "(of_int n :: rat) < of_int (2 ^ nat (bitlen n))"
    using b(2) by (simp only: of_int_less_iff)
  also have "\<dots> = 2 powi bitlen n" using pos by (simp add: power_int_def)
  finally show "of_int n < (2 :: rat) powi bitlen n" .
qed

lemma expo_bounds:
  assumes "q \<noteq> 0"
  shows "2 powi expo q \<le> \<bar>q\<bar>" and "\<bar>q\<bar> < 2 powi (expo q + 1)"
proof -
  obtain a b where ab: "quotient_of q = (a, b)" by fastforce
  then have b: "0 < b" and q: "q = of_int a / of_int b"
    by (simp_all add: quotient_of_denom_pos quotient_of_div)
  with assms have a: "0 < \<bar>a\<bar>" by auto
  let ?k = "bitlen \<bar>a\<bar> - bitlen b"
  have qa: "\<bar>q\<bar> = of_int \<bar>a\<bar> / of_int b" using q b by simp
  note A = bitlen_rat [OF a] and B = bitlen_rat [OF b]
  have b': "(0 :: rat) < of_int b" using b by simp
  have up: "\<bar>q\<bar> < 2 powi (?k + 1)"
  proof -
    have "of_int \<bar>a\<bar> < (2 :: rat) powi bitlen \<bar>a\<bar>" by (rule A(2))
    also have "\<dots> = 2 powi (?k + 1) * 2 powi (bitlen b - 1)"
      by (simp flip: powi2_add)
    also have "\<dots> \<le> 2 powi (?k + 1) * of_int b"
      using B(1) by (intro mult_left_mono) auto
    finally show ?thesis unfolding qa using b' by (simp add: divide_less_eq)
  qed
  have lo: "2 powi (?k - 1) \<le> \<bar>q\<bar>"
  proof -
    have "2 powi (?k - 1) * of_int b \<le> 2 powi (?k - 1) * (2 :: rat) powi bitlen b"
      using B(2) by (intro mult_left_mono) auto
    also have "\<dots> = 2 powi (bitlen \<bar>a\<bar> - 1)" by (simp flip: powi2_add)
    also have "\<dots> \<le> of_int \<bar>a\<bar>" by (rule A(1))
    finally show ?thesis unfolding qa using b' by (simp add: le_divide_eq)
  qed
  show "2 powi expo q \<le> \<bar>q\<bar>" using lo by (auto simp: expo_def ab Let_def)
  show "\<bar>q\<bar> < 2 powi (expo q + 1)" using up by (auto simp: expo_def ab Let_def)
qed

lemma expo_ge: "2 powi e \<le> \<bar>q\<bar> \<Longrightarrow> e \<le> expo q"
proof -
  assume e: "2 powi e \<le> \<bar>q\<bar>"
  have "0 < \<bar>q\<bar>" using e powi2_pos [of e] by linarith
  then have "q \<noteq> 0" by simp
  from e expo_bounds(2) [OF this] have "2 powi e < (2 :: rat) powi (expo q + 1)" by linarith
  then show ?thesis by (simp only: powi2_less_iff)
qed

lemma expo_less: "q \<noteq> 0 \<Longrightarrow> \<bar>q\<bar> < 2 powi e \<Longrightarrow> expo q < e"
  using expo_bounds(1) [of q] powi2_less_iff [of "expo q" e] by linarith

lemma expo_minus [simp]: "expo (- q) = expo q"
proof (cases "q = 0")
  case True
  then show ?thesis by simp
next
  case False
  then show ?thesis
    using expo_ge [of "expo (- q)" q] expo_ge [of "expo q" "- q"]
      expo_bounds(1) [of q] expo_bounds(1) [of "- q"] by force
qed

subsection \<open>Binary64 values and the rounding\<close>

text \<open>
  The finite binary64 values, ignoring the upper bound on the exponent (overflow is
  decided after rounding): 53 significant bits, and no bit below \<open>2 powi -1074\<close>.
\<close>

definition representable :: "rat \<Rightarrow> bool" where
  "representable q \<longleftrightarrow> (\<exists>m e. q = of_int m * 2 powi e \<and> \<bar>m\<bar> \<le> 2 ^ 53 \<and> - 1074 \<le> e)"

definition ulp_exp :: "rat \<Rightarrow> int" where
  "ulp_exp q = max (expo q - 52) (- 1074)"

definition ulp :: "rat \<Rightarrow> rat" where
  "ulp q = 2 powi ulp_exp q"

definition rnd :: "rat \<Rightarrow> rat" where
  "rnd q = (if q = 0 then 0 else of_int (rne (q / ulp q)) * ulp q)"

lemma ulp_pos [simp]: "0 < ulp q"
  by (simp add: ulp_def)

lemma ulp_nonzero [simp]: "ulp q \<noteq> 0"
  by (simp add: ulp_def)

lemma abs_ulp [simp]: "\<bar>ulp q\<bar> = ulp q"
  by (simp add: ulp_def)

lemma binade_grid: "- 1074 < ulp_exp q \<Longrightarrow> 2 powi expo q = of_int (2 ^ 52) * ulp q"
  using powi2_split [of "expo q - 52" "expo q"] by (auto simp: ulp_def ulp_exp_def max_def split: if_splits)

lemma representableI: "q = of_int m * 2 powi e \<Longrightarrow> \<bar>m\<bar> \<le> 2 ^ 53 \<Longrightarrow> - 1074 \<le> e \<Longrightarrow> representable q"
  unfolding representable_def by blast

lemma representable_of_int: "\<bar>n\<bar> \<le> 2 ^ 53 \<Longrightarrow> representable (of_int n)"
  by (rule representableI [of _ n 0]) simp_all

lemma representable_0 [simp]: "representable 0"
  using representable_of_int [of 0] by simp

lemma representable_minus [simp]: "representable (- q) \<longleftrightarrow> representable q"
proof -
  have "representable (- r)" if "representable r" for r
  proof -
    from that obtain m e where "r = of_int m * 2 powi e" "\<bar>m\<bar> \<le> 2 ^ 53" "- 1074 \<le> e"
      unfolding representable_def by blast
    then show ?thesis by (intro representableI [of _ "- m" e]) simp_all
  qed
  from this [of q] this [of "- q"] show ?thesis by auto
qed

lemma representable_powi: "- 1074 \<le> e \<Longrightarrow> representable (2 powi e)"
  by (rule representableI [of _ 1 e]) simp_all

lemma scaled_bound: "q \<noteq> 0 \<Longrightarrow> \<bar>q / ulp q\<bar> < of_int (2 ^ 53)"
proof -
  assume "q \<noteq> 0"
  then have "\<bar>q\<bar> < 2 powi (expo q + 1)" by (rule expo_bounds(2))
  also have "\<dots> \<le> 2 powi (53 + ulp_exp q)" by (rule powi2_mono) (simp add: ulp_exp_def)
  also have "\<dots> = of_int (2 ^ 53) * ulp q" by (simp add: powi2_add ulp_def)
  finally show ?thesis by (simp add: abs_divide divide_less_eq)
qed

lemma rnd_representable: "representable (rnd q)"
proof (cases "q = 0")
  case False
  then have "\<bar>rne (q / ulp q)\<bar> \<le> 2 ^ 53"
    by (intro rne_abs_le less_imp_le scaled_bound)
  with False show ?thesis
    by (intro representableI [of _ "rne (q / ulp q)" "ulp_exp q"])
      (simp_all add: rnd_def ulp_def ulp_exp_def)
qed (simp add: rnd_def)

lemma rnd_grid_nearest:
  assumes "q \<noteq> 0"
  shows "\<bar>rnd q - q\<bar> \<le> \<bar>of_int n * ulp q - q\<bar>"
proof -
  have s: "\<bar>of_int k * ulp q - q\<bar> = \<bar>of_int k - q / ulp q\<bar> * ulp q" for k
  proof -
    have "of_int k * ulp q - q = (of_int k - q / ulp q) * ulp q"
      using ulp_pos [of q] by (simp add: left_diff_distrib)
    then show ?thesis by (simp add: abs_mult)
  qed
  have "\<bar>of_int (rne (q / ulp q)) - q / ulp q\<bar> * ulp q \<le> \<bar>of_int n - q / ulp q\<bar> * ulp q"
    by (intro mult_right_mono rne_nearest) (simp add: less_imp_le)
  then show ?thesis using assms by (simp add: rnd_def s)
qed

lemma representable_on_grid:
  assumes "representable y" "2 powi expo q \<le> \<bar>y\<bar>"
  shows "\<exists>n. y = of_int n * ulp q"
proof -
  from assms(1) obtain m e where y: "y = of_int m * 2 powi e" and m: "\<bar>m\<bar> \<le> 2 ^ 53" and e: "- 1074 \<le> e"
    unfolding representable_def by blast
  show ?thesis
  proof (cases "ulp_exp q \<le> e")
    case True
    then have "2 powi e = of_int (2 ^ nat (e - ulp_exp q)) * ulp q"
      unfolding ulp_def by (rule powi2_split)
    with y have "y = of_int (m * 2 ^ nat (e - ulp_exp q)) * ulp q" by simp
    then show ?thesis by blast
  next
    case False
    with e have u: "ulp_exp q = expo q - 52" and le: "e \<le> expo q - 53"
      by (auto simp: ulp_exp_def max_def split: if_splits)
    have "\<bar>y\<bar> = of_int \<bar>m\<bar> * 2 powi e" by (simp add: y abs_mult)
    also have "\<dots> \<le> of_int (2 ^ 53) * 2 powi e"
      using m by (intro mult_right_mono) (simp_all only: of_int_le_iff, simp)
    also have "\<dots> = 2 powi (53 + e)" by (simp add: powi2_add)
    also have "\<dots> \<le> 2 powi expo q" using le by (intro powi2_mono) simp
    finally have "\<bar>y\<bar> = 2 powi expo q" using assms(2) by simp
    also have "\<dots> = of_int (2 ^ 52) * ulp q" using False e by (intro binade_grid) simp
    finally have "y = of_int (2 ^ 52) * ulp q \<or> y = of_int (- (2 ^ 52)) * ulp q"
      by (auto simp: abs_if split: if_splits)
    then show ?thesis by blast
  qed
qed

lemma rnd_nearest:
  assumes "representable y"
  shows "\<bar>rnd q - q\<bar> \<le> \<bar>y - q\<bar>"
proof (cases "q = 0")
  case False
  show ?thesis
  proof (cases "2 powi expo q \<le> \<bar>y\<bar>")
    case True
    with assms obtain n where "y = of_int n * ulp q" using representable_on_grid by blast
    then show ?thesis using rnd_grid_nearest [OF False] by simp
  next
    case small: False
    show ?thesis
    proof (cases "ulp_exp q = - 1074")
      case True
      from assms obtain m e where y: "y = of_int m * 2 powi e" and e: "- 1074 \<le> e"
        unfolding representable_def by blast
      from e have "2 powi e = of_int (2 ^ nat (e + 1074)) * ulp q"
        using powi2_split [of "- 1074" e] by (simp only: ulp_def True) (simp only: diff_minus_eq_add)
      with y have "y = of_int (m * 2 ^ nat (e + 1074)) * ulp q" by simp
      then show ?thesis using rnd_grid_nearest [OF False, of "m * 2 ^ nat (e + 1074)"] by simp
    next
      case u: False
      define z where "z = (if 0 < q then 2 powi expo q else - (2 powi expo q) :: rat)"
      have lo: "2 powi expo q \<le> \<bar>q\<bar>" by (rule expo_bounds(1) [OF False])
      have "2 powi expo q = of_int (2 ^ 52) * ulp q"
        using u by (intro binade_grid) (simp add: ulp_exp_def)
      then have "\<exists>n. z = of_int n * ulp q"
        unfolding z_def by (metis mult_minus_left of_int_minus)
      then have "\<bar>rnd q - q\<bar> \<le> \<bar>z - q\<bar>" using rnd_grid_nearest [OF False] by metis
      also have "\<dots> \<le> \<bar>y - q\<bar>"
        using small lo False by (auto simp: z_def abs_if split: if_splits)
      finally show ?thesis .
    qed
  qed
qed (simp add: rnd_def)

lemma rnd_error: "\<bar>rnd q - q\<bar> \<le> \<bar>q\<bar> / 2 ^ 53 + 2 powi (- 1075)"
proof (cases "q = 0")
  case False
  have "rnd q - q = (of_int (rne (q / ulp q)) - q / ulp q) * ulp q"
    using False ulp_pos [of q] by (simp add: rnd_def left_diff_distrib)
  then have "\<bar>rnd q - q\<bar> = \<bar>of_int (rne (q / ulp q)) - q / ulp q\<bar> * ulp q"
    by (simp add: abs_mult)
  also have "\<dots> \<le> 1/2 * ulp q"
    by (intro mult_right_mono rne_error) (simp add: less_imp_le)
  also have "\<dots> \<le> 1/2 * (2 powi (expo q - 52) + 2 powi (- 1074))"
    by (simp add: ulp_def ulp_exp_def max_def add_increasing add_increasing2)
  also have "\<dots> = 2 powi expo q / 2 ^ 53 + 2 powi (- 1075)"
    by (simp add: power_int_diff power_int_minus field_simps)
  also have "\<dots> \<le> \<bar>q\<bar> / 2 ^ 53 + 2 powi (- 1075)"
    using expo_bounds(1) [OF False] by (intro add_right_mono divide_right_mono) simp_all
  finally show ?thesis .
qed (simp add: rnd_def)

lemma rnd_minus [simp]: "rnd (- q) = - rnd q"
  by (simp add: rnd_def ulp_def ulp_exp_def rne_minus)

lemma rnd_0 [simp]: "rnd 0 = 0"
  by (simp add: rnd_def)

subsection \<open>The contract of a rounding\<close>

text \<open>
  A rounding to the nearest element of a set of representable values. Everything the
  number formatting needs about rounding, but for its error, follows from these two laws.
\<close>

locale nearest_rounding =
  fixes rd :: "rat \<Rightarrow> rat" and rep :: "rat \<Rightarrow> bool"
  assumes rep_rd: "rep (rd q)"
    and nearest: "rep y \<Longrightarrow> \<bar>rd q - q\<bar> \<le> \<bar>y - q\<bar>"
begin

lemma rd_id: "rep q \<Longrightarrow> rd q = q"
  using nearest [of q q] by simp

lemma rd_mono: "q \<le> r \<Longrightarrow> rd q \<le> rd r"
proof (cases "q = r")
  case False
  assume "q \<le> r"
  with False have "q < r" by simp
  show ?thesis
  proof (rule ccontr)
    assume "\<not> rd q \<le> rd r"
    then have "rd r < rd q" by simp
    with \<open>q < r\<close> nearest [OF rep_rd, of q r] nearest [OF rep_rd, of r q] show False
      by (auto simp: abs_if split: if_splits)
  qed
qed simp

lemma rd_le: "q \<le> y \<Longrightarrow> rep y \<Longrightarrow> rd q \<le> y"
  using rd_mono [of q y] by (simp add: rd_id)

lemma rd_ge: "y \<le> q \<Longrightarrow> rep y \<Longrightarrow> y \<le> rd q"
  using rd_mono [of y q] by (simp add: rd_id)

lemma rd_between: "a \<le> q \<Longrightarrow> q \<le> b \<Longrightarrow> rep a \<Longrightarrow> rep b \<Longrightarrow> a \<le> rd q \<and> rd q \<le> b"
  by (simp add: rd_le rd_ge)

end

text \<open>A rounding with a relative error \<open>eps\<close> and an absolute error \<open>eta\<close> near zero.\<close>

locale accurate_rounding = nearest_rounding +
  fixes eps eta :: rat
  assumes error: "\<bar>rd q - q\<bar> \<le> \<bar>q\<bar> * eps + eta"
    and eps_pos: "0 < eps"
begin

lemma error_le: "\<bar>q\<bar> \<le> b \<Longrightarrow> \<bar>rd q - q\<bar> \<le> b * eps + eta"
  using error [of q] eps_pos mult_right_mono [of "\<bar>q\<bar>" b eps] by linarith

lemma error_chain: "\<bar>q - r\<bar> \<le> d \<Longrightarrow> \<bar>q\<bar> \<le> b \<Longrightarrow> \<bar>rd q - r\<bar> \<le> d + (b * eps + eta)"
  using error_le [of q b] by linarith

end

interpretation b64: accurate_rounding rnd representable "1 / 2 ^ 53" "2 powi (- 1075)"
  by unfold_locales (use rnd_representable rnd_nearest rnd_error in simp_all)

subsection \<open>Values that subtraction and floor keep representable\<close>

lemma floor_abs_le: "\<bar>q\<bar> \<le> of_int n \<Longrightarrow> \<bar>\<lfloor>q\<rfloor>\<bar> \<le> n" for q :: rat
proof -
  assume "\<bar>q\<bar> \<le> of_int n"
  then have "q \<le> of_int n" "of_int (- n) \<le> q" by (simp_all add: abs_le_iff)
  then have "\<lfloor>q\<rfloor> \<le> \<lfloor>of_int n :: rat\<rfloor>" "\<lfloor>of_int (- n) :: rat\<rfloor> \<le> \<lfloor>q\<rfloor>"
    by (blast intro: floor_mono)+
  then show ?thesis unfolding floor_of_int by linarith
qed

lemma representable_int_or_small:
  assumes "representable q"
  shows "q = of_int \<lfloor>q\<rfloor> \<or> \<bar>q\<bar> \<le> of_int (2 ^ 53)"
proof -
  from assms obtain m e where q: "q = of_int m * 2 powi e" and m: "\<bar>m\<bar> \<le> 2 ^ 53" and e: "- 1074 \<le> e"
    unfolding representable_def by blast
  show ?thesis
  proof (cases "0 \<le> e")
    case True
    then have "q = of_int (m * 2 ^ nat e)" by (simp add: q power_int_def)
    then show ?thesis by (metis floor_of_int)
  next
    case False
    then have le: "2 powi e \<le> (1 :: rat)" using powi2_mono [of e 0] by simp
    have "\<bar>q\<bar> = of_int \<bar>m\<bar> * 2 powi e" by (simp add: q abs_mult)
    also have "\<dots> \<le> of_int \<bar>m\<bar>" using mult_left_mono [OF le, of "of_int \<bar>m\<bar>"] by simp
    also have "\<dots> \<le> of_int (2 ^ 53)" using m by (simp only: of_int_le_iff)
    finally show ?thesis by simp
  qed
qed

lemma representable_floor:
  assumes "representable q"
  shows "representable (of_int \<lfloor>q\<rfloor>)"
  using representable_int_or_small [OF assms] assms representable_of_int floor_abs_le by metis

lemma representable_frac:
  assumes "representable q" "0 \<le> q"
  shows "representable (q - of_int \<lfloor>q\<rfloor>)"
proof -
  from assms obtain m e where q: "q = of_int m * 2 powi e" and m: "\<bar>m\<bar> \<le> 2 ^ 53" and e: "- 1074 \<le> e"
    unfolding representable_def by blast
  show ?thesis
  proof (cases "0 \<le> e")
    case True
    then have "q = of_int (m * 2 ^ nat e)" by (simp add: q power_int_def)
    then show ?thesis by simp
  next
    case False
    define d where "d = (2 :: int) ^ nat (- e)"
    have d: "0 < d" by (simp add: d_def)
    have pw: "(2 :: rat) powi e = 1 / of_int d"
      using False power_int_minus_divide [of "2 :: rat" "- e"] by (simp add: d_def power_int_nonneg_exp)
    have "0 \<le> (of_int m :: rat)"
      using assms(2) powi2_pos [of e] unfolding q by (metis mult_neg_pos not_le)
    then have m0: "0 \<le> m" by simp
    have qd: "q = of_int m / of_int d" by (simp add: q pw)
    then have "\<lfloor>q\<rfloor> = m div d" by (simp add: floor_divide_of_int_eq)
    moreover have "(of_int m :: rat) - of_int (m div d) * of_int d = of_int (m mod d)"
      by (simp only: minus_div_mult_eq_mod flip: of_int_mult of_int_diff)
    moreover have "q - of_int (m div d) = (of_int m - of_int (m div d) * of_int d) / of_int d"
      using d by (simp add: qd diff_divide_distrib)
    ultimately have "q - of_int \<lfloor>q\<rfloor> = of_int (m mod d) * 2 powi e"
      by (simp add: pw)
    moreover have "\<bar>m mod d\<bar> \<le> 2 ^ 53"
      using m m0 d zmod_le_nonneg_dividend [of m d] by simp
    ultimately show ?thesis using e by (intro representableI)
  qed
qed

subsection \<open>The gap around a representable value\<close>

lemma grid_gap: "of_int n * ulp q \<noteq> of_int k * ulp q \<Longrightarrow> ulp q \<le> \<bar>of_int n * ulp q - of_int k * ulp q\<bar>"
proof -
  assume "of_int n * ulp q \<noteq> of_int k * ulp q"
  then have "1 \<le> \<bar>n - k\<bar>" by auto
  then have "(of_int 1 :: rat) \<le> of_int \<bar>n - k\<bar>" by (simp only: of_int_le_iff)
  then have "ulp q \<le> of_int \<bar>n - k\<bar> * ulp q"
    using mult_right_mono [of 1 "of_int \<bar>n - k\<bar>" "ulp q"] by (simp add: less_imp_le)
  then show ?thesis by (simp add: abs_mult left_diff_distrib [symmetric])
qed

lemma ulp_ge: "2 powi (expo q - 52) \<le> ulp q"
  unfolding ulp_def by (rule powi2_mono) (simp add: ulp_exp_def)

lemma grid_neighbours:
  assumes "representable x" "representable y" "x \<noteq> y" "2 powi expo z \<le> \<bar>x\<bar>" "2 powi expo z \<le> \<bar>y\<bar>"
  shows "2 powi (expo z - 52) \<le> \<bar>y - x\<bar>"
proof -
  from assms obtain n k where "x = of_int n * ulp z" "y = of_int k * ulp z"
    using representable_on_grid by blast
  then show ?thesis using grid_gap [of k z n] ulp_ge [of z] assms(3) by fastforce
qed

lemma representable_abs [simp]: "representable \<bar>q\<bar> \<longleftrightarrow> representable q"
  by (simp add: abs_if)

lemma representable_expo:
  assumes "representable q" "q \<noteq> 0"
  shows "- 1074 \<le> expo q"
proof -
  from assms obtain m e where q: "q = of_int m * 2 powi e" and e: "- 1074 \<le> e"
    unfolding representable_def by blast
  with assms(2) have "1 \<le> \<bar>m\<bar>" by auto
  then have "(of_int 1 :: rat) \<le> of_int \<bar>m\<bar>" by (simp only: of_int_le_iff)
  then have "2 powi e \<le> \<bar>q\<bar>"
    using mult_right_mono [of 1 "of_int \<bar>m\<bar>" "2 powi e :: rat"] by (simp add: q abs_mult)
  then show ?thesis using expo_ge [of e q] e by linarith
qed

lemma representable_gap:
  assumes "representable x" "representable y" "x \<noteq> y"
  shows "\<bar>x\<bar> / 2 ^ 53 \<le> \<bar>y - x\<bar>"
proof (cases "x = 0 \<or> y = 0")
  case True
  then show ?thesis by (auto simp: divide_le_eq)
next
  case False
  then have x: "x \<noteq> 0" and y: "y \<noteq> 0" by auto
  note X = expo_bounds [OF x] and Y = expo_bounds [OF y]
  have half: "\<bar>x\<bar> / 2 ^ 53 \<le> 2 powi (expo x - 52)"
  proof -
    have "\<bar>x\<bar> / 2 ^ 53 \<le> 2 powi (expo x + 1) / 2 ^ 53" using X(2) by (intro divide_right_mono) simp_all
    then show ?thesis by (simp add: power_int_add power_int_diff)
  qed
  consider "2 powi expo x \<le> \<bar>y\<bar>" | "expo y \<le> expo x - 2" | "\<not> 2 powi expo x \<le> \<bar>y\<bar>" "expo y = expo x - 1"
  proof -
    have "expo y < expo x \<or> 2 powi expo x \<le> \<bar>y\<bar>"
      using Y(1) powi2_mono [of "expo x" "expo y"] by linarith
    then show ?thesis using that by linarith
  qed
  then show ?thesis
  proof cases
    case 1
    then show ?thesis using grid_neighbours [OF assms X(1)] half by linarith
  next
    case 2
    have "\<bar>y\<bar> \<le> 2 powi (expo x - 1)" using Y(2) powi2_mono [of "expo y + 1" "expo x - 1"] 2 by simp
    also have "\<dots> \<le> \<bar>x\<bar> / 2" using X(1) by (simp add: power_int_diff)
    finally have "\<bar>x\<bar> / 2 \<le> \<bar>y - x\<bar>" by linarith
    moreover have "\<bar>x\<bar> / 2 ^ 53 \<le> \<bar>x\<bar> / 2" by (intro divide_left_mono) simp_all
    ultimately show ?thesis by linarith
  next
    case 3
    then have less: "\<bar>y\<bar> < \<bar>x\<bar>" using X(1) by linarith
    have "2 powi expo y \<le> \<bar>x\<bar>" using Y(1) less by linarith
    then have "2 powi (expo x - 53) \<le> \<bar>y - x\<bar>"
      using grid_neighbours [OF assms _ Y(1)] 3 by simp
    moreover have "\<bar>x\<bar> / 2 ^ 53 \<le> 2 powi (expo x - 53) \<or> 2 powi (expo x - 52) \<le> \<bar>y - x\<bar>"
    proof (cases "\<bar>x\<bar> = 2 powi expo x")
      case True
      then show ?thesis by (simp add: power_int_diff)
    next
      case False
      have p: "representable (2 powi expo x)"
        using representable_expo [OF assms(1) x] by (rule representable_powi)
      have "2 powi (expo x - 52) \<le> \<bar>\<bar>x\<bar> - 2 powi expo x\<bar>"
        using grid_neighbours [OF p, of "\<bar>x\<bar>" x] assms(1) False X(1) by simp
      then show ?thesis using X(1) 3 by linarith
    qed
    ultimately show ?thesis using half by linarith
  qed
qed

lemma rnd_recover:
  assumes "representable x" "\<bar>q - x\<bar> < \<bar>x\<bar> / 2 ^ 54"
  shows "rnd q = x"
proof (rule ccontr)
  assume "rnd q \<noteq> x"
  then have "\<bar>x\<bar> / 2 ^ 53 \<le> \<bar>rnd q - x\<bar>"
    using representable_gap [OF assms(1) rnd_representable] by metis
  moreover have "\<bar>rnd q - q\<bar> \<le> \<bar>x - q\<bar>" by (rule rnd_nearest [OF assms(1)])
  moreover have "\<bar>x\<bar> / 2 ^ 53 = 2 * (\<bar>x\<bar> / 2 ^ 54)" by simp
  ultimately show False using assms(2) by linarith
qed

end
