(* ===== verification/JsNumber.thy ===== *)
theory JsNumber
  imports Rounding
begin

text \<open>
  The Number type of JavaScript: IEEE 754 binary64 with one NaN, two infinities and a
  negative zero. A finite nonzero value and positive zero are \<open>Fin q\<close> with the exact
  rational \<open>q\<close>; each operation computes exactly and rounds once.
\<close>

datatype jsnum = NaN | PInf | NInf | NZero | Fin rat

fun is_inf :: "jsnum \<Rightarrow> bool" where
  "is_inf PInf = True"
| "is_inf NInf = True"
| "is_inf _ = False"

fun is_finite :: "jsnum \<Rightarrow> bool" where
  "is_finite (Fin q) = True"
| "is_finite NZero = True"
| "is_finite _ = False"

fun is_zero :: "jsnum \<Rightarrow> bool" where
  "is_zero (Fin q) = (q = 0)"
| "is_zero NZero = True"
| "is_zero _ = False"

fun is_neg :: "jsnum \<Rightarrow> bool" where
  "is_neg (Fin q) = (q < 0)"
| "is_neg NZero = True"
| "is_neg NInf = True"
| "is_neg _ = False"

fun valQ :: "jsnum \<Rightarrow> rat" where
  "valQ (Fin q) = q"
| "valQ _ = 0"

text \<open>The magnitude at which a rounded result becomes infinite.\<close>

definition overflow :: rat where
  "overflow = 2 ^ 1024"

lemma overflow_code [code]:
  "overflow = 179769313486231590772930519078902473361797697894230657273430081157732675805500963132708477322407536021120113879871393357658789768814416622492847430639474124377767893424865485276302219601246094119453082952085005768838150682342462881473913110540827237163350510684586298239947245938479716304835356329624224137216"
  by (simp add: overflow_def)

text \<open>A value of the type: a finite value is one that rounding leaves unchanged.\<close>

fun wf_num :: "jsnum \<Rightarrow> bool" where
  "wf_num (Fin q) = (rnd q = q \<and> \<bar>q\<bar> < overflow)"
| "wf_num _ = True"

definition inf_of :: "bool \<Rightarrow> jsnum" where
  "inf_of neg = (if neg then NInf else PInf)"

definition zero_of :: "bool \<Rightarrow> jsnum" where
  "zero_of neg = (if neg then NZero else Fin 0)"

definition fround :: "bool \<Rightarrow> rat \<Rightarrow> jsnum" where
  "fround neg q = (let r = rnd q in
     if overflow \<le> r then PInf else if r \<le> - overflow then NInf
     else if r = 0 then zero_of neg else Fin r)"

subsection \<open>Operators\<close>

definition num_add :: "jsnum \<Rightarrow> jsnum \<Rightarrow> jsnum" where
  "num_add x y =
     (if x = NaN \<or> y = NaN then NaN
      else if is_inf x then (if is_inf y \<and> x \<noteq> y then NaN else x)
      else if is_inf y then y
      else if x = NZero \<and> y = NZero then NZero
      else fround (valQ x + valQ y < 0) (valQ x + valQ y))"

fun num_uminus :: "jsnum \<Rightarrow> jsnum" where
  "num_uminus NaN = NaN"
| "num_uminus PInf = NInf"
| "num_uminus NInf = PInf"
| "num_uminus NZero = Fin 0"
| "num_uminus (Fin q) = (if q = 0 then NZero else Fin (- q))"

definition num_sub :: "jsnum \<Rightarrow> jsnum \<Rightarrow> jsnum" where
  "num_sub x y = num_add x (num_uminus y)"

definition num_mul :: "jsnum \<Rightarrow> jsnum \<Rightarrow> jsnum" where
  "num_mul x y = (let s = (is_neg x \<noteq> is_neg y) in
     if x = NaN \<or> y = NaN then NaN
     else if is_inf x \<or> is_inf y then (if is_zero x \<or> is_zero y then NaN else inf_of s)
     else fround s (valQ x * valQ y))"

definition num_div :: "jsnum \<Rightarrow> jsnum \<Rightarrow> jsnum" where
  "num_div x y = (let s = (is_neg x \<noteq> is_neg y) in
     if x = NaN \<or> y = NaN then NaN
     else if is_inf x then (if is_inf y then NaN else inf_of s)
     else if is_inf y then zero_of s
     else if is_zero y then (if is_zero x then NaN else inf_of s)
     else fround s (valQ x / valQ y))"

text \<open>\<open>x < y\<close>; the other comparisons of the code are this one with its arguments swapped.\<close>

fun num_lt :: "jsnum \<Rightarrow> jsnum \<Rightarrow> bool" where
  "num_lt NaN _ = False"
| "num_lt _ NaN = False"
| "num_lt _ NInf = False"
| "num_lt NInf _ = True"
| "num_lt PInf _ = False"
| "num_lt _ PInf = True"
| "num_lt x y = (valQ x < valQ y)"

definition num_eq :: "jsnum \<Rightarrow> jsnum \<Rightarrow> bool" where
  "num_eq x y \<longleftrightarrow> x \<noteq> NaN \<and> y \<noteq> NaN \<and> (x = y \<or> is_zero x \<and> is_zero y)"

text \<open>The values that are true in a condition.\<close>

definition num_truthy :: "jsnum \<Rightarrow> bool" where
  "num_truthy x \<longleftrightarrow> x \<noteq> NaN \<and> \<not> is_zero x"

text \<open>A number or \<open>undefined\<close> in a condition.\<close>

definition truthy :: "jsnum option \<Rightarrow> bool" where
  "truthy v = (case v of None \<Rightarrow> False | Some x \<Rightarrow> num_truthy x)"

fun math_floor :: "jsnum \<Rightarrow> jsnum" where
  "math_floor (Fin q) = Fin (of_int \<lfloor>q\<rfloor>)"
| "math_floor x = x"

fun math_round :: "jsnum \<Rightarrow> jsnum" where
  "math_round (Fin q) = (let n = \<lfloor>q + 1/2\<rfloor> in if n = 0 \<and> q < 0 then NZero else Fin (of_int n))"
| "math_round x = x"

definition math_max :: "jsnum \<Rightarrow> jsnum \<Rightarrow> jsnum" where
  "math_max x y =
     (if x = NaN \<or> y = NaN then NaN
      else if is_zero x \<and> is_zero y then (if x = NZero then y else x)
      else if num_lt x y then y else x)"

definition math_min :: "jsnum \<Rightarrow> jsnum \<Rightarrow> jsnum" where
  "math_min x y =
     (if x = NaN \<or> y = NaN then NaN
      else if is_zero x \<and> is_zero y then (if x = NZero then x else y)
      else if num_lt x y then x else y)"

subsection \<open>Facts\<close>

lemma overflow_pos [simp]: "0 < overflow"
  by (simp add: overflow_def)

lemma pow_less_overflow: "n < 1024 \<Longrightarrow> 2 ^ n < overflow"
  unfolding overflow_def by (rule power_strict_increasing) simp_all

lemma rnd_fixed_iff: "rnd q = q \<longleftrightarrow> representable q"
  using rnd_representable [of q] b64.rd_id [of q] by metis

lemma wf_Fin: "wf_num (Fin q) \<longleftrightarrow> representable q \<and> \<bar>q\<bar> < overflow"
  by (simp add: rnd_fixed_iff)

lemma wf_fround [simp]: "wf_num (fround s q)"
proof -
  have "rnd (rnd q) = rnd q" by (simp only: rnd_fixed_iff rnd_representable)
  then show ?thesis
    by (auto simp: fround_def zero_of_def Let_def abs_less_iff)
qed

lemma wf_num_ops [simp]:
  "wf_num (inf_of s)" "wf_num (zero_of s)"
  "wf_num x \<Longrightarrow> wf_num y \<Longrightarrow> wf_num (num_add x y)"
  "wf_num x \<Longrightarrow> wf_num y \<Longrightarrow> wf_num (num_mul x y)"
  "wf_num x \<Longrightarrow> wf_num y \<Longrightarrow> wf_num (num_div x y)"
  by (auto simp: inf_of_def zero_of_def num_add_def num_mul_def num_div_def Let_def)

lemma wf_num_uminus [simp]: "wf_num x \<Longrightarrow> wf_num (num_uminus x)"
  by (cases x) simp_all

lemma wf_num_sub [simp]: "wf_num x \<Longrightarrow> wf_num y \<Longrightarrow> wf_num (num_sub x y)"
  by (simp add: num_sub_def)

lemma wf_math_max [simp]: "wf_num x \<Longrightarrow> wf_num y \<Longrightarrow> wf_num (math_max x y)"
  and wf_math_min [simp]: "wf_num x \<Longrightarrow> wf_num y \<Longrightarrow> wf_num (math_min x y)"
  by (simp_all add: math_max_def math_min_def)

lemma representable_pow: "representable (2 ^ n)"
  using representable_powi [of "int n"] by simp

lemma rnd_le_pow: "\<bar>q\<bar> \<le> 2 ^ n \<Longrightarrow> \<bar>rnd q\<bar> \<le> 2 ^ n"
  using b64.rd_between [of "- (2 ^ n)" q "2 ^ n"] by (simp add: abs_le_iff representable_pow)

lemma fround_small:
  assumes "\<bar>q\<bar> \<le> 2 ^ 1023"
  shows "is_finite (fround s q)" "valQ (fround s q) = rnd q"
proof -
  have "\<bar>rnd q\<bar> \<le> 2 ^ 1023" by (rule rnd_le_pow [OF assms])
  moreover have "2 ^ 1023 < overflow" by (rule pow_less_overflow) simp
  ultimately have b: "\<bar>rnd q\<bar> < overflow" by (rule le_less_trans)
  have "\<not> overflow \<le> rnd q" "\<not> rnd q \<le> - overflow"
    using b unfolding abs_less_iff by linarith+
  then show "is_finite (fround s q)" "valQ (fround s q) = rnd q"
    by (simp_all only: fround_def zero_of_def Let_def if_False) auto
qed

lemma finite_cases: "is_finite x \<Longrightarrow> x = NZero \<or> (\<exists>q. x = Fin q)"
  by (cases x) auto

lemma finite_not_special: "is_finite x \<Longrightarrow> x \<noteq> NaN \<and> \<not> is_inf x"
  by (cases x) auto

text \<open>Comparison, and the arithmetic of finite values, through their rational values.\<close>

lemma num_lt_finite: "is_finite x \<Longrightarrow> is_finite y \<Longrightarrow> num_lt x y \<longleftrightarrow> valQ x < valQ y"
  by (cases x; cases y) auto

lemma num_add_finite:
  assumes "is_finite x" "is_finite y" "\<bar>valQ x + valQ y\<bar> \<le> 2 ^ 1023"
  shows "is_finite (num_add x y)" "valQ (num_add x y) = rnd (valQ x + valQ y)"
  using assms finite_not_special [of x] finite_not_special [of y]
  by (auto simp: num_add_def fround_small)

lemma num_uminus_finite [simp]: "is_finite (num_uminus x) \<longleftrightarrow> is_finite x" "valQ (num_uminus x) = - valQ x"
  by (cases x; simp)+

lemma num_sub_finite:
  assumes "is_finite x" "is_finite y" "\<bar>valQ x - valQ y\<bar> \<le> 2 ^ 1023"
  shows "is_finite (num_sub x y)" "valQ (num_sub x y) = rnd (valQ x - valQ y)"
  using assms num_add_finite [of x "num_uminus y"] by (simp_all add: num_sub_def)

lemma num_mul_finite:
  assumes "is_finite x" "is_finite y" "\<bar>valQ x * valQ y\<bar> \<le> 2 ^ 1023"
  shows "is_finite (num_mul x y)" "valQ (num_mul x y) = rnd (valQ x * valQ y)"
  using assms finite_not_special [of x] finite_not_special [of y]
  by (auto simp: num_mul_def fround_small Let_def)

lemma num_div_finite:
  assumes "is_finite x" "is_finite y" "valQ y \<noteq> 0" "\<bar>valQ x / valQ y\<bar> \<le> 2 ^ 1023"
  shows "is_finite (num_div x y)" "valQ (num_div x y) = rnd (valQ x / valQ y)"
proof -
  have "\<not> is_zero y" using assms(2,3) by (cases y) auto
  then show "is_finite (num_div x y)" "valQ (num_div x y) = rnd (valQ x / valQ y)"
    using assms finite_not_special [of x] finite_not_special [of y]
    by (auto simp: num_div_def fround_small Let_def)
qed

lemma math_floor_finite [simp]: "is_finite (math_floor x) \<longleftrightarrow> is_finite x"
  "is_finite x \<Longrightarrow> valQ (math_floor x) = of_int \<lfloor>valQ x\<rfloor>"
  by (cases x; simp)+

lemma wf_math_floor [simp]: "wf_num x \<Longrightarrow> wf_num (math_floor x)"
proof (cases x)
  case (Fin q)
  assume "wf_num x"
  then have r: "representable q" and b: "\<bar>q\<bar> < overflow" unfolding Fin wf_Fin by simp_all
  have "\<bar>of_int \<lfloor>q\<rfloor> :: rat\<bar> < overflow"
  proof (cases "q = of_int \<lfloor>q\<rfloor>")
    case True
    with b show ?thesis by simp
  next
    case False
    with r have "\<bar>q\<bar> \<le> of_int (2 ^ 53)" using representable_int_or_small by blast
    then have "\<bar>\<lfloor>q\<rfloor>\<bar> \<le> 2 ^ 53" by (rule floor_abs_le)
    then have "of_int \<bar>\<lfloor>q\<rfloor>\<bar> \<le> (of_int (2 ^ 53) :: rat)" by (simp only: of_int_le_iff)
    then have "\<bar>of_int \<lfloor>q\<rfloor> :: rat\<bar> \<le> 2 ^ 53" by simp
    also have "\<dots> < overflow" by (rule pow_less_overflow) simp
    finally show ?thesis .
  qed
  with r show ?thesis unfolding Fin math_floor.simps wf_Fin by (simp add: representable_floor)
qed simp_all

lemmas num_defs = num_add_def num_sub_def num_mul_def num_div_def num_eq_def num_truthy_def
  math_max_def math_min_def inf_of_def zero_of_def

end
