(* ===== verification/JsText.thy ===== *)
theory JsText
  imports JsNumber
begin

text \<open>
  What the program uses of the String type of JavaScript, and the conversions between
  numbers and text: \<open>trim\<close>, \<open>split\<close>, \<open>join\<close>, \<open>indexOf\<close>, \<open>substring\<close>, \<open>toUpperCase\<close>,
  \<open>toFixed\<close>, \<open>toString\<close>, \<open>parseInt\<close>, \<open>parseFloat\<close> and the numeric value of a string.
\<close>

subsection \<open>Strings\<close>

definition is_ws :: "char \<Rightarrow> bool" where
  "is_ws c \<longleftrightarrow> c \<in> {CHR 0x09, CHR 0x0A, CHR 0x0B, CHR 0x0C, CHR 0x0D, CHR 0x20, CHR 0xA0}"

definition trim_start :: "string \<Rightarrow> string" where
  "trim_start s = dropWhile is_ws s"

definition trim :: "string \<Rightarrow> string" where
  "trim s = rev (dropWhile is_ws (rev (trim_start s)))"

definition index_of :: "char \<Rightarrow> string \<Rightarrow> int" where
  "index_of c s = (if c \<in> set s then int (length (takeWhile (\<lambda>x. x \<noteq> c) s)) else - 1)"

fun split_on :: "char \<Rightarrow> string \<Rightarrow> string list" where
  "split_on c [] = [[]]"
| "split_on c (x # xs) =
     (if x = c then [] # split_on c xs
      else (case split_on c xs of [] \<Rightarrow> [[x]] | p # ps \<Rightarrow> (x # p) # ps))"

fun join :: "string \<Rightarrow> string list \<Rightarrow> string" where
  "join sep [] = []"
| "join sep [s] = s"
| "join sep (s # t # ss) = s @ sep @ join sep (t # ss)"

text \<open>
  Upper case on code units below 256; the two letters whose upper case lies above 255
  are left alone.
\<close>

definition upper_char :: "char \<Rightarrow> string" where
  "upper_char c = (let n = (of_char c :: nat) in
     if n = 223 then ''SS''
     else if (97 \<le> n \<and> n \<le> 122) \<or> (224 \<le> n \<and> n \<le> 254 \<and> n \<noteq> 247) then [char_of (n - 32)]
     else [c])"

definition to_upper :: "string \<Rightarrow> string" where
  "to_upper s = concat (map upper_char s)"

subsection \<open>Numbers to text\<close>

fun zpad :: "nat \<Rightarrow> nat \<Rightarrow> string" where
  "zpad 0 n = []"
| "zpad (Suc k) n = zpad k (n div 10) @ [digit_char (n mod 10)]"

text \<open>The digits of \<open>n / 10 ^ f\<close> as \<open>toFixed\<close> lays them out.\<close>

definition fixed_digits :: "nat \<Rightarrow> nat \<Rightarrow> string" where
  "fixed_digits f n =
     (if f = 0 then dec n
      else let m = dec n;
               z = (if length m \<le> f then replicate (f + 1 - length m) (CHR ''0'') @ m else m);
               k = length z
           in take (k - f) z @ ''.'' @ drop (k - f) z)"

text \<open>The \<open>n\<close> with \<open>10 powi (n - 1) \<le> q < 10 powi n\<close>.\<close>

definition exp10 :: "rat \<Rightarrow> int" where
  "exp10 q = (let (a, b) = quotient_of q;
                  k = int (length (dec (nat a))) - int (length (dec (nat b)))
              in if 10 powi k \<le> q then k + 1 else k)"

text \<open>
  The shortest decimal that rounds to \<open>q\<close>: for \<open>k\<close> digits, the two candidates around
  \<open>q\<close>, the nearer one first; seventeen digits are always enough.
\<close>

definition digits_at :: "nat \<Rightarrow> rat \<Rightarrow> int \<Rightarrow> nat option" where
  "digits_at k q n =
     (let u = 10 powi (n - int k); t = q / u; lo = \<lfloor>t\<rfloor>; hi = lo + 1;
          ok = (\<lambda>s. rnd (of_int s * u) = q);
          near = (if t - of_int lo \<le> of_int hi - t then lo else hi);
          far = (if t - of_int lo \<le> of_int hi - t then hi else lo)
      in if ok near then Some (nat near) else if ok far then Some (nat far) else None)"

fun shortest :: "nat \<Rightarrow> nat \<Rightarrow> rat \<Rightarrow> int \<Rightarrow> (nat \<times> nat \<times> int) option" where
  "shortest 0 k q n = None"
| "shortest (Suc fuel) k q n =
     (case digits_at k q n of
        Some s \<Rightarrow> Some (if s = 10 ^ k then (k, 10 ^ (k - 1), n + 1) else (k, s, n))
      | None \<Rightarrow> shortest fuel (Suc k) q n)"

definition layout_number :: "nat \<Rightarrow> nat \<Rightarrow> int \<Rightarrow> string" where
  "layout_number k s n =
     (let ds = dec s; e = n - 1;
          ex = ''e'' @ (if e < 0 then ''-'' else ''+'') @ dec (nat \<bar>e\<bar>)
      in if int k \<le> n \<and> n \<le> 21 then ds @ replicate (nat n - k) (CHR ''0'')
         else if 0 < n \<and> n \<le> 21 then take (nat n) ds @ ''.'' @ drop (nat n) ds
         else if - 6 < n \<and> n \<le> 0 then ''0.'' @ replicate (nat (- n)) (CHR ''0'') @ ds
         else if k = 1 then ds @ ex
         else take 1 ds @ ''.'' @ drop 1 ds @ ex)"

definition pos_to_string :: "rat \<Rightarrow> string" where
  "pos_to_string q =
     (case shortest 17 1 q (exp10 q) of
        Some (k, s, n) \<Rightarrow> layout_number k s n
      | None \<Rightarrow> [])"

fun num_to_string :: "jsnum \<Rightarrow> string" where
  "num_to_string NaN = ''NaN''"
| "num_to_string PInf = ''Infinity''"
| "num_to_string NInf = ''-Infinity''"
| "num_to_string NZero = ''0''"
| "num_to_string (Fin q) =
     (if q = 0 then ''0''
      else if q < 0 then ''-'' @ pos_to_string (- q)
      else pos_to_string q)"

text \<open>\<open>x.toFixed(f)\<close>: the nearest multiple of \<open>10 ^ -f\<close>, the larger one on a tie.\<close>

definition fixed_abs :: "nat \<Rightarrow> rat \<Rightarrow> string" where
  "fixed_abs f a =
     (if 10 ^ 21 \<le> a then num_to_string (Fin a)
      else fixed_digits f (nat \<lfloor>a * 10 ^ f + 1/2\<rfloor>))"

fun to_fixed :: "nat \<Rightarrow> jsnum \<Rightarrow> string" where
  "to_fixed f (Fin q) = (if q < 0 then ''-'' @ fixed_abs f (- q) else fixed_abs f q)"
| "to_fixed f NZero = fixed_abs f 0"
| "to_fixed f x = num_to_string x"

subsection \<open>Text to numbers\<close>

definition scan_sign :: "string \<Rightarrow> bool \<times> string" where
  "scan_sign s = (case s of [] \<Rightarrow> (False, [])
     | c # r \<Rightarrow> if c = CHR ''-'' then (True, r) else if c = CHR ''+'' then (False, r) else (False, s))"

definition scan_exponent :: "string \<Rightarrow> int \<times> string" where
  "scan_exponent s = (case s of [] \<Rightarrow> (0, [])
     | c # r \<Rightarrow>
         if c = CHR ''e'' \<or> c = CHR ''E'' then
           (let (neg, t) = scan_sign r; ds = takeWhile is_digit t
            in if ds = [] then (0, s)
               else ((if neg then - int (undec ds) else int (undec ds)), dropWhile is_digit t))
         else (0, s))"

definition scan_fraction :: "string \<Rightarrow> string \<Rightarrow> string \<times> string" where
  "scan_fraction ip s = (case s of [] \<Rightarrow> ([], [])
     | c # r \<Rightarrow>
         if c = CHR ''.'' \<and> (ip \<noteq> [] \<or> takeWhile is_digit r \<noteq> [])
         then (takeWhile is_digit r, dropWhile is_digit r) else ([], s))"

definition scan_unsigned :: "string \<Rightarrow> (rat \<times> string) option" where
  "scan_unsigned s =
     (let ip = takeWhile is_digit s;
          (fp, r) = scan_fraction ip (dropWhile is_digit s)
      in if ip = [] \<and> fp = [] then None
         else let (e, t) = scan_exponent r
              in Some (of_nat (undec (ip @ fp)) * 10 powi (e - int (length fp)), t))"

definition scan_number :: "string \<Rightarrow> (jsnum \<times> string) option" where
  "scan_number s =
     (let (neg, r) = scan_sign s
      in if take 8 r = ''Infinity'' then Some (inf_of neg, drop 8 r)
         else (case scan_unsigned r of None \<Rightarrow> None
               | Some (q, t) \<Rightarrow> Some (fround neg (if neg then - q else q), t)))"

definition parse_float :: "string \<Rightarrow> jsnum" where
  "parse_float s = (case scan_number (trim_start s) of None \<Rightarrow> NaN | Some (v, _) \<Rightarrow> v)"

definition parse_int10 :: "string \<Rightarrow> jsnum" where
  "parse_int10 s =
     (let (neg, r) = scan_sign (trim_start s); ds = takeWhile is_digit r
      in if ds = [] then NaN
         else fround neg (if neg then - of_nat (undec ds) else of_nat (undec ds)))"

definition radix_digit :: "char \<Rightarrow> nat" where
  "radix_digit c = (let n = (of_char c :: nat) in
     if is_digit c then n - 48
     else if 65 \<le> n \<and> n \<le> 90 then n - 55
     else if 97 \<le> n \<and> n \<le> 122 then n - 87
     else 36)"

definition radix_value :: "nat \<Rightarrow> string \<Rightarrow> jsnum" where
  "radix_value b ds =
     (if ds = [] \<or> (\<exists>c\<in>set ds. b \<le> radix_digit c) then NaN
      else fround False (of_nat (foldl (\<lambda>a c. b * a + radix_digit c) 0 ds)))"

text \<open>The value of a string where a number is expected, as in \<open>number == string\<close>.\<close>

definition to_number :: "string \<Rightarrow> jsnum" where
  "to_number s =
     (let t = trim s; p = take 2 t
      in if t = [] then Fin 0
         else if p = ''0x'' \<or> p = ''0X'' then radix_value 16 (drop 2 t)
         else if p = ''0o'' \<or> p = ''0O'' then radix_value 8 (drop 2 t)
         else if p = ''0b'' \<or> p = ''0B'' then radix_value 2 (drop 2 t)
         else (case scan_number t of Some (v, []) \<Rightarrow> v | _ \<Rightarrow> NaN))"

subsection \<open>Facts on strings\<close>

lemma digit_not_ws [simp]: "is_digit c \<Longrightarrow> \<not> is_ws c"
  by (auto simp: is_digit_def is_ws_def)

lemma digit_not_special: "is_digit c \<Longrightarrow> c \<noteq> CHR '' '' \<and> c \<noteq> CHR ''.'' \<and> c \<noteq> CHR ''-'' \<and> c \<noteq> CHR ''+'' \<and> c \<noteq> CHR ''I''"
  by (auto simp: is_digit_def)

lemma index_of_append: "c \<notin> set xs \<Longrightarrow> index_of c (xs @ c # ys) = int (length xs)"
proof -
  assume "c \<notin> set xs"
  then have "takeWhile (\<lambda>x. x \<noteq> c) (xs @ c # ys) = xs" by (intro takeWhile_append_stop) auto
  then show ?thesis by (simp add: index_of_def)
qed

lemma index_of_neg_iff: "index_of c s < 0 \<longleftrightarrow> c \<notin> set s"
  by (simp add: index_of_def)

lemma split_on_not_Nil [simp]: "split_on c s \<noteq> []"
  by (induction s) (auto split: list.splits)

lemma split_on_no_sep: "c \<notin> set s \<Longrightarrow> split_on c s = [s]"
  by (induction s) auto

lemma split_on_append: "c \<notin> set s \<Longrightarrow> split_on c (s @ c # t) = s # split_on c t"
  by (induction s) (auto split: list.splits)

lemma split_on_set: "s \<in> set (split_on c t) \<Longrightarrow> set s \<subseteq> set t"
  by (induction t arbitrary: s) (force split: if_splits list.splits)+

lemma split_on_append2: "split_on c (s @ c # t) = split_on c s @ split_on c t"
  by (induction s) (auto split: list.splits)

lemma split_parts: "t \<in> set (split_on c s) \<Longrightarrow> c \<notin> set t"
proof (induction s arbitrary: t)
  case (Cons x s)
  then show ?case by (cases "split_on c s") (auto split: if_splits)
qed simp

lemma set_join: "set (join sep ss) \<subseteq> set sep \<union> \<Union> (set ` set ss)"
  by (induction sep ss rule: join.induct) auto

lemma join_Cons: "ts \<noteq> [] \<Longrightarrow> join sep (t # ts) = t @ sep @ join sep ts"
  by (cases ts) simp_all

lemma join_head: "join sep ((x # p) # ps) = x # join sep (p # ps)"
  by (cases ps) simp_all

lemma split_join: "join [c] (split_on c s) = s"
proof (induction s)
  case (Cons x s)
  then show ?case by (cases "split_on c s") (simp_all add: join_Cons join_head)
qed simp

lemma trim_start_id: "s \<noteq> [] \<Longrightarrow> \<not> is_ws (hd s) \<Longrightarrow> trim_start s = s"
  by (simp add: trim_start_def dropWhile_id)

lemma trim_id: "s \<noteq> [] \<Longrightarrow> \<not> is_ws (hd s) \<Longrightarrow> \<not> is_ws (last s) \<Longrightarrow> trim s = s"
  by (simp add: trim_def trim_start_id dropWhile_id hd_rev)

subsection \<open>Facts on fixed-point text\<close>

lemma length_zpad [simp]: "length (zpad k n) = k"
  by (induction k arbitrary: n) auto

lemma digit_char_0 [simp]: "digit_char 0 = CHR ''0''"
  by code_simp

lemma zpad_0: "zpad k 0 = replicate k (CHR ''0'')"
  by (induction k) (simp_all add: replicate_append_same)

lemma zpad_digits: "c \<in> set (zpad k n) \<Longrightarrow> is_digit c"
  by (induction k arbitrary: n) auto

lemma undec_zpad [simp]: "undec (zpad k n) = n mod 10 ^ k"
proof (induction k arbitrary: n)
  case (Suc k)
  have "n mod 10 ^ Suc k = 10 * (n div 10 mod 10 ^ k) + n mod 10"
    by (simp add: mod_mult2_eq)
  with Suc show ?case by simp
qed simp

lemma zpad_mod [simp]: "zpad k (n mod 10 ^ k) = zpad k n"
proof (induction k arbitrary: n)
  case (Suc k)
  have "n mod 10 ^ Suc k div 10 = n div 10 mod 10 ^ k" "n mod 10 ^ Suc k mod 10 = n mod 10"
    by (simp_all add: mod_mult2_eq)
  with Suc show ?case by simp
qed simp

lemma dec_split: "0 < n div 10 ^ f \<Longrightarrow> dec n = dec (n div 10 ^ f) @ zpad f n"
proof (induction f arbitrary: n)
  case (Suc f)
  have d: "n div 10 ^ Suc f = n div 10 div 10 ^ f" by (simp add: div_mult2_eq)
  with Suc.prems have "10 \<le> n" by (metis div_eq_0_iff div_0 not_less nat_less_le zero_less_numeral)
  then have "dec n = dec (n div 10) @ [digit_char (n mod 10)]" by (rule dec_big)
  also have "dec (n div 10) = dec (n div 10 div 10 ^ f) @ zpad f (n div 10)"
    using Suc.prems d by (intro Suc.IH) simp
  finally show ?case by (simp add: div_mult2_eq)
qed simp

lemma length_dec_le: "n < 10 ^ f \<Longrightarrow> 0 < f \<Longrightarrow> length (dec n) \<le> f"
proof (induction f arbitrary: n)
  case (Suc f)
  show ?case
  proof (cases "n < 10")
    case False
    with Suc.prems have "n div 10 < 10 ^ f" "0 < f"
      by (auto simp: div_less_iff_less_mult mult.commute intro: gr0I)
    then have "length (dec (n div 10)) \<le> f" by (rule Suc.IH)
    with False show ?thesis by (simp add: dec_big)
  qed (simp add: dec_small)
qed simp

lemma zpad_dec: "n < 10 ^ f \<Longrightarrow> 0 < f \<Longrightarrow> replicate (f - length (dec n)) (CHR ''0'') @ dec n = zpad f n"
proof (induction f arbitrary: n)
  case (Suc f)
  show ?case
  proof (cases "n < 10")
    case True
    then show ?thesis by (simp add: dec_small zpad_0)
  next
    case False
    with Suc.prems have "n div 10 < 10 ^ f" "0 < f"
      by (auto simp: div_less_iff_less_mult mult.commute intro: gr0I)
    then have "replicate (f - length (dec (n div 10))) (CHR ''0'') @ dec (n div 10) = zpad f (n div 10)"
      by (rule Suc.IH)
    with False show ?thesis by (simp add: dec_big)
  qed
qed simp

lemma fixed_digits_eq:
  assumes "0 < f"
  shows "fixed_digits f n = dec (n div 10 ^ f) @ ''.'' @ zpad f n"
proof (cases "0 < n div 10 ^ f")
  case True
  then have d: "dec n = dec (n div 10 ^ f) @ zpad f n" by (rule dec_split)
  moreover have "dec (n div 10 ^ f) \<noteq> []" by simp
  ultimately have "\<not> length (dec n) \<le> f" by simp
  with assms d show ?thesis by (simp add: fixed_digits_def Let_def)
next
  case False
  then have n: "n < 10 ^ f" by (simp add: div_eq_0_iff)
  note l = length_dec_le [OF n assms]
  then have "f + 1 - length (dec n) = Suc (f - length (dec n))" by simp
  then have "replicate (f + 1 - length (dec n)) (CHR ''0'') @ dec n = CHR ''0'' # zpad f n"
    using zpad_dec [OF n assms] by simp
  moreover have "dec (n div 10 ^ f) = ''0''" using n by (simp add: dec_small)
  ultimately show ?thesis using assms l by (simp add: fixed_digits_def Let_def)
qed

lemma to_fixed_finite:
  assumes "is_finite x" "0 \<le> valQ x" "valQ x < 10 ^ 21" "0 < f"
  shows "to_fixed f x = dec (nat \<lfloor>valQ x * 10 ^ f + 1/2\<rfloor> div 10 ^ f) @ ''.'' @ zpad f (nat \<lfloor>valQ x * 10 ^ f + 1/2\<rfloor>)"
  using assms by (cases x) (simp_all add: fixed_abs_def fixed_digits_eq)

subsection \<open>Facts on reading numbers\<close>

lemma fround_False: "\<bar>q\<bar> \<le> 2 ^ 1023 \<Longrightarrow> fround False q = Fin (rnd q)"
  using fround_small [of q False] by (auto simp: fround_def zero_of_def Let_def split: if_splits)

lemma scan_sign_digits: "s \<noteq> [] \<Longrightarrow> is_digit (hd s) \<Longrightarrow> scan_sign s = (False, s)"
  by (cases s) (auto simp: scan_sign_def is_digit_def)

lemma parse_int10_digits:
  assumes "s \<noteq> []" "\<forall>c\<in>set s. is_digit c" "undec s \<le> 2 ^ 53"
  shows "parse_int10 s = Fin (of_nat (undec s))"
proof -
  from assms have h: "is_digit (hd s)" by simp
  have t: "trim_start s = s" using assms(1) h by (intro trim_start_id) auto
  have w: "takeWhile is_digit s = s" using assms(2) by (simp add: takeWhile_eq_all_conv)
  have "(of_nat (undec s) :: rat) \<le> of_nat (2 ^ 53)" using assms(3) by (simp only: of_nat_le_iff)
  then have b: "\<bar>of_nat (undec s) :: rat\<bar> \<le> 2 ^ 1023"
    using power_increasing [of 53 1023 "2 :: rat"] by (simp only: abs_of_nat of_nat_power of_nat_numeral) linarith
  have "representable (of_int (int (undec s)))"
    using assms(3) by (intro representable_of_int) (simp flip: of_nat_le_iff [of _ "2 ^ 53", where 'a = int])
  then have "rnd (of_nat (undec s)) = of_nat (undec s)" by (simp add: rnd_fixed_iff)
  with assms(1) fround_False [OF b] show ?thesis
    unfolding parse_int10_def t scan_sign_digits [OF assms(1) h] Let_def prod.case w by simp
qed

lemma parse_float_fixed:
  assumes "s \<noteq> []" "\<forall>c\<in>set s. is_digit c" "\<forall>c\<in>set t. is_digit c"
    and "(of_nat (undec (s @ t)) :: rat) / 10 ^ length t \<le> 2 ^ 1023"
  shows "parse_float (s @ ''.'' @ t) = Fin (rnd (of_nat (undec (s @ t)) / 10 ^ length t))"
proof -
  let ?q = "of_nat (undec (s @ t)) / 10 ^ length t :: rat"
  from assms obtain d s' where s: "s = d # s'" and d: "is_digit d" by (cases s) auto
  have start: "trim_start (s @ ''.'' @ t) = s @ ''.'' @ t" using s d by (intro trim_start_id) auto
  have sign: "scan_sign (s @ ''.'' @ t) = (False, s @ ''.'' @ t)" using s d by (intro scan_sign_digits) auto
  have inf: "take 8 (s @ ''.'' @ t) \<noteq> ''Infinity''" using s d digit_not_special [OF d] by auto
  have ip: "takeWhile is_digit (s @ ''.'' @ t) = s" "dropWhile is_digit (s @ ''.'' @ t) = ''.'' @ t"
    using assms(2) takeWhile_append_stop [of s is_digit "CHR ''.''" t] dropWhile_append_stop [of s is_digit "CHR ''.''" t]
    by (simp_all add: is_digit_def)
  have fp: "scan_fraction s (''.'' @ t) = (t, [])"
    using assms(1,3) by (simp add: scan_fraction_def takeWhile_eq_all_conv dropWhile_eq_Nil_conv)
  have "scan_unsigned (s @ ''.'' @ t) = Some (?q, [])"
    unfolding scan_unsigned_def Let_def ip fp using assms(1)
    by (simp add: scan_exponent_def power_int_minus divide_inverse)
  with start sign inf fround_False [of ?q] assms(4) show ?thesis
    by (simp add: parse_float_def scan_number_def)
qed

end
