(* ===== verification/JsUri.thy ===== *)
theory JsUri
  imports JsText
begin

text \<open>
  \<open>encodeURIComponent\<close>, and what a receiver does with a query string: split it at the
  ampersands, each part at its first equals sign, and decode the percent escapes of the value.
\<close>

subsection \<open>Encoding\<close>

definition unreserved :: "char \<Rightarrow> bool" where
  "unreserved c \<longleftrightarrow> is_digit c \<or> (let n = (of_char c :: nat) in 65 \<le> n \<and> n \<le> 90 \<or> 97 \<le> n \<and> n \<le> 122)
     \<or> c \<in> set ''-_.!~*'' \<or> c = CHR 0x27 \<or> c = CHR ''('' \<or> c = CHR '')''"

definition hex_upper :: "nat \<Rightarrow> char" where
  "hex_upper d = (if d < 10 then digit_char d else char_of (55 + d))"

definition hex_digit_val :: "char \<Rightarrow> nat option" where
  "hex_digit_val c = (if radix_digit c < 16 then Some (radix_digit c) else None)"

definition percent :: "nat \<Rightarrow> string" where
  "percent b = [CHR ''%'', hex_upper (b div 16), hex_upper (b mod 16)]"

text \<open>The UTF-8 bytes of a code unit below 256.\<close>

definition utf8_bytes :: "nat \<Rightarrow> nat list" where
  "utf8_bytes n = (if n < 128 then [n] else [192 + n div 64, 128 + n mod 64])"

definition encode_char :: "char \<Rightarrow> string" where
  "encode_char c = (if unreserved c then [c] else concat (map percent (utf8_bytes (of_char c))))"

definition encodeURIComponent :: "string \<Rightarrow> string" where
  "encodeURIComponent s = concat (map encode_char s)"

subsection \<open>Decoding\<close>

fun percent_bytes :: "string \<Rightarrow> nat list option" where
  "percent_bytes [] = Some []"
| "percent_bytes (c # r) =
     (if c = CHR ''%'' then
        (case r of
           a # b # t \<Rightarrow>
             (case (hex_digit_val a, hex_digit_val b, percent_bytes t) of
                (Some x, Some y, Some bs) \<Rightarrow> Some ((16 * x + y) # bs)
              | _ \<Rightarrow> None)
         | _ \<Rightarrow> None)
      else map_option (Cons (of_char c)) (percent_bytes r))"

text \<open>UTF-8 with code points below 256; any other byte sequence is refused.\<close>

fun utf8_chars :: "nat list \<Rightarrow> string option" where
  "utf8_chars [] = Some []"
| "utf8_chars (b # bs) =
     (if b < 128 then map_option (Cons (char_of b)) (utf8_chars bs)
      else case bs of
        [] \<Rightarrow> None
      | d # ds \<Rightarrow>
          if (b = 194 \<or> b = 195) \<and> 128 \<le> d \<and> d < 192
          then map_option (Cons (char_of ((b - 192) * 64 + (d - 128)))) (utf8_chars ds)
          else None)"

definition decode_component :: "string \<Rightarrow> string option" where
  "decode_component s = Option.bind (percent_bytes s) utf8_chars"

definition query_pair :: "string \<Rightarrow> string \<times> string option" where
  "query_pair s = (takeWhile (\<lambda>c. c \<noteq> CHR ''='') s, decode_component (drop 1 (dropWhile (\<lambda>c. c \<noteq> CHR ''='') s)))"

definition query_params :: "string \<Rightarrow> (string \<times> string option) list" where
  "query_params s = map query_pair (split_on (CHR ''&'') s)"

subsection \<open>Decoding what was encoded\<close>

lemma of_char_hex_upper: "d < 16 \<Longrightarrow> (of_char (hex_upper d) :: nat) = (if d < 10 then 48 + d else 55 + d)"
  by (simp add: hex_upper_def)

lemma hex_digit_val_upper [simp]: "d < 16 \<Longrightarrow> hex_digit_val (hex_upper d) = Some d"
  using of_char_hex_upper [of d] by (auto simp: hex_digit_val_def radix_digit_def Let_def is_digit_def hex_upper_def split: if_splits)

lemma percent_bytes_percent: "b < 256 \<Longrightarrow> percent_bytes (percent b @ s) = map_option (Cons b) (percent_bytes s)"
  by (cases "percent_bytes s") (simp_all add: percent_def)

lemma percent_bytes_percents:
  "\<forall>b\<in>set bs. b < 256 \<Longrightarrow> percent_bytes (concat (map percent bs) @ s) = map_option ((@) bs) (percent_bytes s)"
  by (cases "percent_bytes s"; induction bs) (simp_all add: percent_bytes_percent)

lemma utf8_bytes_less: "n < 256 \<Longrightarrow> b \<in> set (utf8_bytes n) \<Longrightarrow> b < 256"
  by (auto simp: utf8_bytes_def split: if_splits)

lemma reserved [simp]:
  "\<not> unreserved (CHR ''%'')" "\<not> unreserved (CHR ''&'')" "\<not> unreserved (CHR ''='')"
  "\<not> unreserved (CHR ''+'')" "\<not> unreserved (CHR '' '')" "\<not> unreserved (CHR ''#'')"
  by code_simp+

lemma unreserved_ascii: "unreserved c \<Longrightarrow> (of_char c :: nat) < 128"
  by (auto simp: unreserved_def is_digit_def Let_def)

lemma percent_bytes_char:
  "percent_bytes (encode_char c @ s) = map_option ((@) (utf8_bytes (of_char c))) (percent_bytes s)"
proof (cases "unreserved c")
  case True
  then have "c \<noteq> CHR ''%''" by auto
  with True unreserved_ascii [OF True] show ?thesis
    by (cases "percent_bytes s") (simp_all add: encode_char_def utf8_bytes_def)
next
  case False
  then show ?thesis
    using percent_bytes_percents [of "utf8_bytes (of_char c)" s] utf8_bytes_less [OF nat_of_char_less_256]
    by (auto simp: encode_char_def)
qed

lemma percent_bytes_encode: "percent_bytes (encodeURIComponent s) = Some (concat (map (\<lambda>c. utf8_bytes (of_char c)) s))"
  by (induction s) (simp_all add: encodeURIComponent_def percent_bytes_char)

lemma utf8_chars_two:
  "q = 2 \<or> q = 3 \<Longrightarrow> r < 64 \<Longrightarrow>
    utf8_chars ((192 + q) # (128 + r) # bs) = map_option (Cons (char_of (q * 64 + r))) (utf8_chars bs)"
  by (elim disjE) (simp_all only: utf8_chars.simps list.case, simp_all)

lemma utf8_chars_bytes:
  assumes "n < 256"
  shows "utf8_chars (utf8_bytes n @ bs) = map_option (Cons (char_of n)) (utf8_chars bs)"
proof (cases "n < 128")
  case False
  define q where "q = n div 64"
  define r where "r = n mod 64"
  have n: "n = q * 64 + r" and r: "r < 64" by (simp_all add: q_def r_def)
  have "2 \<le> q" unfolding q_def using div_le_mono [of 128 n 64] False by simp
  moreover have "q < 4" unfolding q_def using assms by (intro less_mult_imp_div_less) simp
  ultimately have q: "q = 2 \<or> q = 3" by linarith
  have "utf8_bytes n = [192 + q, 128 + r]" using False by (simp add: utf8_bytes_def q_def r_def)
  then show ?thesis using utf8_chars_two [OF q r, of bs] n by simp
qed (simp add: utf8_bytes_def)

lemma utf8_chars_concat: "utf8_chars (concat (map (\<lambda>c. utf8_bytes (of_char c)) s)) = Some s"
  by (induction s) (simp_all add: utf8_chars_bytes [OF nat_of_char_less_256])

lemma decode_encode [simp]: "decode_component (encodeURIComponent s) = Some s"
  by (simp add: decode_component_def percent_bytes_encode utf8_chars_concat)

lemma hex_upper_safe: "d < 16 \<Longrightarrow> unreserved (hex_upper d)"
  using of_char_hex_upper [of d] by (auto simp: unreserved_def Let_def hex_upper_def)

lemma encode_char_safe: "d \<in> set (encode_char c) \<Longrightarrow> unreserved d \<or> d = CHR ''%''"
  using hex_upper_safe utf8_bytes_less [OF nat_of_char_less_256, of _ c]
  by (fastforce simp: encode_char_def percent_def split: if_splits)

lemma encode_safe: "d \<in> set (encodeURIComponent s) \<Longrightarrow> unreserved d \<or> d = CHR ''%''"
  using encode_char_safe by (auto simp: encodeURIComponent_def)

subsection \<open>Text that needs no encoding\<close>

definition plain :: "string \<Rightarrow> bool" where
  "plain s \<longleftrightarrow> (\<forall>c\<in>set s. (of_char c :: nat) < 128 \<and> c \<noteq> CHR ''%'' \<and> c \<noteq> CHR ''&'')"

lemma plain_append [simp]: "plain (s @ t) \<longleftrightarrow> plain s \<and> plain t"
  by (auto simp: plain_def)

lemma plain_Nil [simp]: "plain []"
  by (simp add: plain_def)

lemma plain_Cons [simp]:
  "plain (c # s) \<longleftrightarrow> (of_char c :: nat) < 128 \<and> c \<noteq> CHR ''%'' \<and> c \<noteq> CHR ''&'' \<and> plain s"
  by (auto simp: plain_def)

lemma plain_subset: "set s \<subseteq> set t \<Longrightarrow> plain t \<Longrightarrow> plain s"
  by (auto simp: plain_def)

lemma plain_take [simp]: "plain s \<Longrightarrow> plain (take n s)" and plain_drop [simp]: "plain s \<Longrightarrow> plain (drop n s)"
  by (auto simp: plain_def dest: in_set_takeD in_set_dropD)

lemma plain_replicate [simp]: "plain (replicate n c) \<longleftrightarrow> n = 0 \<or> plain [c]"
  by (auto simp: plain_def)

lemma plain_join: "plain sep \<Longrightarrow> \<forall>s\<in>set ss. plain s \<Longrightarrow> plain (join sep ss)"
  by (induction sep ss rule: join.induct) auto

lemma decode_plain: "plain s \<Longrightarrow> decode_component s = Some s"
proof -
  have "percent_bytes s = Some (map of_char s) \<and> utf8_chars (map of_char s) = Some s" if "plain s"
    using that by (induction s) auto
  then show "plain s \<Longrightarrow> decode_component s = Some s" by (simp add: decode_component_def)
qed

lemma plain_digits: "\<forall>c\<in>set s. is_digit c \<Longrightarrow> plain s"
  by (auto simp: plain_def is_digit_def)

lemma plain_dec [simp]: "plain (dec n)"
  by (rule plain_digits) (simp add: dec_digits)

lemma plain_layout [simp]: "plain (layout_number k s n)"
  by (auto simp: layout_number_def Let_def)

lemma plain_num [simp]: "plain (num_to_string x)"
proof -
  have "plain (pos_to_string q)" for q
    by (simp add: pos_to_string_def split: option.splits)
  then show ?thesis by (cases x) simp_all
qed

lemma plain_to_fixed [simp]: "plain (to_fixed f x)"
proof -
  have "plain (fixed_abs f q)" for q
    by (simp add: fixed_abs_def fixed_digits_def Let_def del: num_to_string.simps)
  then show ?thesis by (cases x) simp_all
qed

subsection \<open>Reading a query string\<close>

definition wire :: "string \<times> string \<Rightarrow> string" where
  "wire p = fst p @ ''='' @ snd p"

lemma split_on_join:
  "ss \<noteq> [] \<Longrightarrow> \<forall>s\<in>set ss. c \<notin> set s \<Longrightarrow> split_on c (join [c] ss) = ss"
  by (induction "[c]" ss rule: join.induct) (simp_all add: split_on_no_sep split_on_append)

lemma query_pair_wire:
  assumes "CHR ''='' \<notin> set (fst p)"
  shows "query_pair (wire p) = (fst p, decode_component (snd p))"
proof -
  have e: "wire p = fst p @ CHR ''='' # snd p" by (simp add: wire_def)
  have s: "\<forall>c\<in>set (fst p). c \<noteq> CHR ''=''" using assms by auto
  have t: "takeWhile (\<lambda>c. c \<noteq> CHR ''='') (fst p @ CHR ''='' # snd p) = fst p"
    by (rule takeWhile_append_stop [OF s]) simp
  have d: "dropWhile (\<lambda>c. c \<noteq> CHR ''='') (fst p @ CHR ''='' # snd p) = CHR ''='' # snd p"
    by (rule dropWhile_append_stop [OF s]) simp
  show ?thesis unfolding query_pair_def e t d by simp
qed

lemma query_pair_name:
  assumes "CHR ''='' \<notin> set s"
  shows "query_pair s = (s, Some [])"
proof -
  have "\<forall>c\<in>set s. c \<noteq> CHR ''=''" using assms by auto
  then have t: "takeWhile (\<lambda>c. c \<noteq> CHR ''='') s = s" and d: "dropWhile (\<lambda>c. c \<noteq> CHR ''='') s = []"
    by (simp_all add: takeWhile_eq_all_conv dropWhile_eq_Nil_conv)
  show ?thesis unfolding query_pair_def t d by (simp add: decode_component_def)
qed

lemma join_snoc: "ss \<noteq> [] \<Longrightarrow> join sep (ss @ [s]) = join sep ss @ sep @ s"
  by (induction sep ss rule: join.induct) simp_all

lemma join_append: "ss \<noteq> [] \<Longrightarrow> ts \<noteq> [] \<Longrightarrow> join sep (ss @ ts) = join sep ss @ sep @ join sep ts"
  by (induction sep ss rule: join.induct) (auto simp: neq_Nil_conv)

lemma join_Cons_concat: "join sep (s # ss) = s @ concat (map (\<lambda>t. sep @ t) ss)"
  by (induction ss arbitrary: s) simp_all

lemma encode_no_amp [simp]: "CHR ''&'' \<notin> set (encodeURIComponent s)"
  using encode_safe [of "CHR ''&''"] by auto

lemma plain_no_amp: "plain s \<Longrightarrow> CHR ''&'' \<notin> set s"
  by (auto simp: plain_def)

end
