(* ===== verification/NumText.thy ===== *)
theory NumText
  imports JsText
begin

text \<open>
  The text of a number reads back as the number: \<open>num_to_string\<close> prints the shortest digits
  that round to the value, and seventeen digits are always enough.
\<close>

subsection \<open>The number of digits\<close>

lemma dec_bounds: "0 < n \<Longrightarrow> 10 ^ (length (dec n) - 1) \<le> n \<and> n < 10 ^ length (dec n)"
proof (induction n rule: dec.induct)
  case (1 n)
  show ?case
  proof (cases "n < 10")
    case True
    with 1(2) show ?thesis by (simp add: dec_small)
  next
    case False
    let ?m = "n div 10"
    have m: "0 < ?m" using False by simp
    with 1(1) False have IH: "10 ^ (length (dec ?m) - 1) \<le> ?m" "?m < 10 ^ length (dec ?m)" by simp_all
    have l: "length (dec n) = Suc (length (dec ?m))" using False by (simp add: dec_big)
    have "length (dec ?m) \<noteq> 0" by simp
    then obtain j where j: "length (dec ?m) = Suc j" by (metis not0_implies_Suc)
    have "10 * 10 ^ j \<le> 10 * ?m" using IH(1) j by simp
    moreover have "10 * (?m + 1) \<le> 10 * 10 ^ Suc j" using IH(2) j by simp
    moreover have "10 * ?m \<le> n" "n < 10 * (?m + 1)" by simp_all
    ultimately show ?thesis unfolding l j by simp
  qed
qed

lemma dec_length: "10 ^ (k - 1) \<le> n \<Longrightarrow> n < 10 ^ k \<Longrightarrow> 0 < k \<Longrightarrow> length (dec n) = k"
proof -
  assume n: "10 ^ (k - 1) \<le> n" "n < 10 ^ k" "0 < k"
  have "(0 :: nat) < 10 ^ (k - 1)" by simp
  with n(1) have "0 < n" by linarith
  note b = dec_bounds [OF this]
  have "(10 :: nat) ^ (length (dec n) - 1) < 10 ^ k" by (rule le_less_trans [OF conjunct1 [OF b] n(2)])
  moreover have "(10 :: nat) ^ (k - 1) < 10 ^ length (dec n)" by (rule le_less_trans [OF n(1) conjunct2 [OF b]])
  ultimately have "length (dec n) - 1 < k" "k - 1 < length (dec n)" by simp_all
  then show ?thesis using n(3) by simp
qed

subsection \<open>Powers of ten\<close>

lemma ten_powi_pos [simp]: "0 < (10 :: rat) powi e"
  by (simp add: zero_less_power_int)

lemma ten_powi_add: "(10 :: rat) powi (a + b) = 10 powi a * 10 powi b"
  by (simp add: power_int_add)

lemma ten_powi_nat: "(10 :: rat) powi int n = 10 ^ n"
  by simp

lemma dec_bounds_powi:
  assumes "0 < n"
  shows "10 powi (int (length (dec n)) - 1) \<le> (of_nat n :: rat)" and "(of_nat n :: rat) < 10 powi int (length (dec n))"
proof -
  obtain j where j: "length (dec n) = Suc j" by (cases "dec n") simp_all
  have e: "int (Suc j) - 1 = int j" by simp
  have b: "10 ^ j \<le> n" "n < 10 ^ Suc j" using dec_bounds [OF assms] j by simp_all
  have "(of_nat (10 ^ j) :: rat) \<le> of_nat n" using b(1) by (simp only: of_nat_le_iff)
  then show "10 powi (int (length (dec n)) - 1) \<le> (of_nat n :: rat)"
    unfolding j e ten_powi_nat by (simp only: of_nat_power of_nat_numeral)
  have "(of_nat n :: rat) < of_nat (10 ^ Suc j)" using b(2) by (simp only: of_nat_less_iff)
  then show "(of_nat n :: rat) < 10 powi int (length (dec n))"
    unfolding j ten_powi_nat by (simp only: of_nat_power of_nat_numeral)
qed

lemma exp10_bounds:
  assumes "0 < q"
  shows "10 powi (exp10 q - 1) \<le> q" and "q < 10 powi (exp10 q)"
proof -
  obtain a b where ab: "quotient_of q = (a, b)" by (cases "quotient_of q")
  then have b: "0 < b" and q: "q = of_int a / of_int b"
    using quotient_of_denom_pos quotient_of_div by blast+
  have a: "0 < a" using assms b unfolding q by (simp add: zero_less_divide_iff)
  define la where "la = length (dec (nat a))"
  define lb where "lb = length (dec (nat b))"
  have qa: "10 powi (int la - 1) \<le> (of_int a :: rat)" "(of_int a :: rat) < 10 powi int la"
    using dec_bounds_powi [of "nat a"] a by (simp_all add: la_def del: power_int_of_nat)
  have qb: "10 powi (int lb - 1) \<le> (of_int b :: rat)" "(of_int b :: rat) < 10 powi int lb"
    using dec_bounds_powi [of "nat b"] b by (simp_all add: lb_def del: power_int_of_nat)
  define k where "k = int la - int lb"
  have e: "exp10 q = (if 10 powi k \<le> q then k + 1 else k)"
    by (simp add: exp10_def ab k_def la_def lb_def)
  have lo: "10 powi (k - 1) \<le> q"
  proof -
    have "10 powi (k - 1) * of_int b \<le> 10 powi (k - 1) * (10 powi int lb :: rat)"
      using qb(2) by (intro mult_left_mono) simp_all
    also have "\<dots> = 10 powi (int la - 1)" by (simp add: ten_powi_add [symmetric] k_def del: power_int_of_nat)
    also have "\<dots> \<le> of_int a" by (rule qa(1))
    finally show ?thesis using b unfolding q by (simp add: pos_le_divide_eq)
  qed
  have hi: "q < 10 powi (k + 1)"
  proof -
    have "of_int a < (10 powi int la :: rat)" by (rule qa(2))
    also have "\<dots> = 10 powi (k + 1) * 10 powi (int lb - 1)" by (simp add: ten_powi_add [symmetric] k_def del: power_int_of_nat)
    also have "\<dots> \<le> 10 powi (k + 1) * of_int b" using qb(1) by (intro mult_left_mono) simp_all
    finally show ?thesis using b unfolding q by (simp add: pos_divide_less_eq)
  qed
  show "10 powi (exp10 q - 1) \<le> q" "q < 10 powi (exp10 q)" using lo hi by (auto simp: e)
qed

subsection \<open>The shortest digits\<close>

text \<open>One digit count: the answer is a whole number of the right size that rounds to the value.\<close>

lemma digits_at_candidates:
  assumes "digits_at k q n = Some s" "0 \<le> q"
  shows "\<exists>c. (c = \<lfloor>q / 10 powi (n - int k)\<rfloor> \<or> c = \<lfloor>q / 10 powi (n - int k)\<rfloor> + 1) \<and> s = nat c \<and> 0 \<le> c \<and>
    rnd (of_int c * 10 powi (n - int k)) = q"
proof -
  have "0 \<le> \<lfloor>q / 10 powi (n - int k)\<rfloor>" using assms(2) by (simp add: divide_nonneg_pos)
  then show ?thesis using assms(1) by (auto simp: digits_at_def Let_def split: if_splits)
qed

lemma digits_at_sound:
  assumes "digits_at k q n = Some s" "10 powi (n - 1) \<le> q" "q < 10 powi n" "0 < k"
  shows "rnd (of_nat s * 10 powi (n - int k)) = q" and "10 ^ (k - 1) \<le> s" and "s \<le> 10 ^ k"
proof -
  define u where "u = (10 :: rat) powi (n - int k)"
  define l where "l = \<lfloor>q / u\<rfloor>"
  have u: "0 < u" by (simp add: u_def)
  have q0: "0 < q" using assms(2) ten_powi_pos [of "n - 1"] by linarith
  obtain c where c: "c = l \<or> c = l + 1" "s = nat c" "0 \<le> c" "rnd (of_int c * u) = q"
    using digits_at_candidates [OF assms(1)] q0 unfolding l_def u_def by auto
  show "rnd (of_nat s * 10 powi (n - int k)) = q" using c by (simp add: u_def)
  have "(10 :: rat) powi (n - 1) = 10 ^ (k - 1) * u"
    using assms(4) unfolding u_def ten_powi_nat [symmetric] ten_powi_add [symmetric] by (simp del: power_int_of_nat)
  then have "10 ^ (k - 1) \<le> q / u" using assms(2) u by (simp add: pos_le_divide_eq)
  then have "of_int (10 ^ (k - 1)) \<le> q / u" by simp
  then have "10 ^ (k - 1) \<le> l" unfolding l_def by (simp only: le_floor_iff)
  with c(1) have "10 ^ (k - 1) \<le> c" by auto
  then show "10 ^ (k - 1) \<le> s" unfolding c(2) by (simp add: le_nat_iff c(3))
  have "(10 :: rat) powi n = 10 ^ k * u"
    unfolding u_def ten_powi_nat [symmetric] ten_powi_add [symmetric] by (simp del: power_int_of_nat)
  then have "q / u < 10 ^ k" using assms(3) u by (simp add: pos_divide_less_eq)
  then have "q / u < of_int (10 ^ k)" by simp
  then have "l < 10 ^ k" unfolding l_def by (simp only: floor_less_iff)
  with c(1) have "c \<le> 10 ^ k" by auto
  then show "s \<le> 10 ^ k" unfolding c(2) by (simp add: nat_le_iff)
qed

text \<open>Seventeen digits are enough: the nearer candidate is within half a unit.\<close>

lemma digits_at_17:
  assumes "representable q" "10 powi (n - 1) \<le> q"
  shows "digits_at 17 q n \<noteq> None"
proof -
  define u where "u = (10 :: rat) powi (n - 17)"
  define l where "l = \<lfloor>q / u\<rfloor>"
  have u: "0 < u" by (simp add: u_def)
  have q0: "0 < q" using assms(2) ten_powi_pos [of "n - 1"] by linarith
  have "(10 :: rat) powi (n - 1) = 10 powi 16 * u" unfolding u_def ten_powi_add [symmetric] by simp
  then have q: "10000000000000000 * u \<le> q" using assms(2) by simp
  define near where "near = (if q / u - of_int l \<le> of_int (l + 1) - q / u then l else l + 1)"
  have "\<bar>of_int near - q / u\<bar> \<le> 1/2"
  proof -
    define t where "t = q / u"
    have "\<bar>of_int (if t - of_int \<lfloor>t\<rfloor> \<le> of_int (\<lfloor>t\<rfloor> + 1) - t then \<lfloor>t\<rfloor> else \<lfloor>t\<rfloor> + 1) - t\<bar> \<le> 1/2"
      using floor_bounds [of t] by (auto simp: abs_if) linarith+
    then show ?thesis by (simp only: near_def l_def t_def)
  qed
  then have "\<bar>of_int near - q / u\<bar> * u \<le> 1/2 * u" using u by (intro mult_right_mono) simp_all
  then have "\<bar>of_int near * u - q\<bar> \<le> u / 2"
    using u by (simp add: abs_mult [of _ u, symmetric, of "of_int near - q / u", simplified abs_of_pos [OF u]] left_diff_distrib)
  also have "\<dots> < \<bar>q\<bar> / 2 ^ 54" using q q0 u by simp
  finally have "rnd (of_int near * u) = q" by (rule rnd_recover [OF assms(1)])
  then show ?thesis by (auto simp: digits_at_def Let_def near_def l_def u_def)
qed

text \<open>The search for the shortest digits: what it finds, and that it finds something.\<close>

definition decimal_of :: "rat \<Rightarrow> nat \<times> nat \<times> int \<Rightarrow> bool" where
  "decimal_of q d = (case d of (k, s, n) \<Rightarrow> 0 < k \<and> 10 ^ (k - 1) \<le> s \<and> s < 10 ^ k \<and> rnd (of_nat s * 10 powi (n - int k)) = q)"

lemma shortest_sound:
  "shortest fuel k q n = Some d \<Longrightarrow> 10 powi (n - 1) \<le> q \<Longrightarrow> q < 10 powi n \<Longrightarrow> 0 < k \<Longrightarrow> decimal_of q d"
proof (induction fuel k q n rule: shortest.induct)
  case (2 fuel k q n)
  show ?case
  proof (cases "digits_at k q n")
    case None
    then show ?thesis using 2 by simp
  next
    case (Some s)
    note s = digits_at_sound [OF Some 2(3-5)]
    show ?thesis
    proof (cases "s = 10 ^ k")
      case True
      have "(of_nat s :: rat) * 10 powi (n - int k) = 10 powi n"
        unfolding True of_nat_power of_nat_numeral ten_powi_nat [symmetric] ten_powi_add [symmetric] by (simp del: power_int_of_nat)
      moreover have "(of_nat (10 ^ (k - 1)) :: rat) * 10 powi (n + 1 - int k) = 10 powi n"
        unfolding of_nat_power of_nat_numeral ten_powi_nat [symmetric] ten_powi_add [symmetric] using 2(5) by (simp add: of_nat_diff del: power_int_of_nat)
      ultimately have "rnd (of_nat (10 ^ (k - 1)) * 10 powi (n + 1 - int k)) = q" using s(1) by simp
      then have "decimal_of q (k, 10 ^ (k - 1), n + 1)" using 2(5) by (simp add: decimal_of_def)
      then show ?thesis using 2(2) Some True by simp
    next
      case False
      then have "decimal_of q (k, s, n)" using s 2(5) by (simp add: decimal_of_def)
      then show ?thesis using 2(2) Some False by simp
    qed
  qed
qed simp

lemma shortest_found:
  "representable q \<Longrightarrow> 10 powi (n - 1) \<le> q \<Longrightarrow> k \<le> 17 \<Longrightarrow> 17 < fuel + k \<Longrightarrow> shortest fuel k q n \<noteq> None"
proof (induction fuel k q n rule: shortest.induct)
  case (2 fuel k q n)
  then show ?case
    using digits_at_17 [OF 2(2,3)] by (cases "digits_at k q n"; cases "k = 17") auto
qed simp

lemma shortest_decimal:
  assumes "representable q" "0 < q"
  shows "\<exists>d. shortest 17 1 q (exp10 q) = Some d \<and> decimal_of q d"
  using shortest_found [OF assms(1) exp10_bounds(1) [OF assms(2)], of 1 17]
    shortest_sound [OF _ exp10_bounds [OF assms(2)], of 17 1] by auto

subsection \<open>Reading a decimal\<close>

definition number_end :: "string \<Rightarrow> bool" where
  "number_end r \<longleftrightarrow> (case r of [] \<Rightarrow> True | c # _ \<Rightarrow> \<not> is_digit c \<and> c \<noteq> CHR ''.'' \<and> c \<noteq> CHR ''e'' \<and> c \<noteq> CHR ''E'')"

definition digits :: "string \<Rightarrow> bool" where
  "digits s \<longleftrightarrow> (\<forall>c\<in>set s. is_digit c)"

lemma digits_simps [simp]: "digits []" "digits (c # s) \<longleftrightarrow> is_digit c \<and> digits s" "digits (s @ t) \<longleftrightarrow> digits s \<and> digits t"
  "digits (dec n)" "digits (replicate k c) \<longleftrightarrow> k = 0 \<or> is_digit c"
  by (auto simp: digits_def dec_digits)

lemma digits_sub: "digits s \<Longrightarrow> digits (take n s)" "digits s \<Longrightarrow> digits (drop n s)"
  by (auto simp: digits_def dest: in_set_takeD in_set_dropD)

lemma take_digits:
  assumes "digits s" "t = [] \<or> \<not> is_digit (hd t)"
  shows "takeWhile is_digit (s @ t) = s" and "dropWhile is_digit (s @ t) = t"
  using assms by (auto simp: digits_def takeWhile_append takeWhile_eq_Nil_iff dropWhile_append dropWhile_eq_Nil_conv intro: dropWhile_id)

definition exponent_text :: "int \<Rightarrow> string" where
  "exponent_text e = ''e'' @ (if e < 0 then ''-'' else ''+'') @ dec (nat \<bar>e\<bar>)"

lemma scan_exponent_text:
  assumes "number_end r"
  shows "scan_exponent (exponent_text e @ r) = (e, r)" and "scan_exponent r = (0, r)"
proof -
  have r: "r = [] \<or> \<not> is_digit (hd r)" using assms by (cases r) (simp_all add: number_end_def)
  have t: "takeWhile is_digit (dec d @ r) = dec d" "dropWhile is_digit (dec d @ r) = r" for d
    using r by (intro take_digits; simp)+
  have g: "scan_exponent (CHR ''e'' # sg # dec d @ r) = (if sg = CHR ''-'' then - int d else int d, r)"
    if "sg = CHR ''-'' \<or> sg = CHR ''+''" for sg d
    using that t [of d] by (auto simp: scan_exponent_def scan_sign_def)
  show "scan_exponent (exponent_text e @ r) = (e, r)"
    using g [of "CHR ''-''" "nat (- e)"] g [of "CHR ''+''" "nat e"] by (simp add: exponent_text_def)
  show "scan_exponent r = (0, r)" using assms by (cases r) (simp_all add: scan_exponent_def number_end_def)
qed

text \<open>Whole part, optional fraction, optional exponent.\<close>

lemma scan_unsigned_parts:
  assumes "digits i" "i \<noteq> []" "digits f" "number_end r"
    and "x = (if f = [] then [] else CHR ''.'' # f)"
    and "y = [] \<and> e = 0 \<or> y = exponent_text e"
  shows "scan_unsigned (i @ x @ y @ r) = Some (of_nat (undec (i @ f)) * 10 powi (e - int (length f)), r)"
proof -
  have yr: "y @ r = [] \<or> \<not> is_digit (hd (y @ r)) \<and> hd (y @ r) \<noteq> CHR ''.''"
    using assms(4,6) by (cases r) (auto simp: number_end_def exponent_text_def is_digit_def)
  have ye: "scan_exponent (y @ r) = (e, r)" using assms(6) scan_exponent_text [OF assms(4)] by auto
  have i: "takeWhile is_digit (i @ x @ y @ r) = i" "dropWhile is_digit (i @ x @ y @ r) = x @ y @ r"
    using yr assms(5) by (intro take_digits assms(1); auto simp: is_digit_def)+
  have "scan_fraction i (x @ y @ r) = (f, y @ r)"
  proof (cases "f = []")
    case True
    then show ?thesis using yr assms(5) by (cases "y @ r") (auto simp: scan_fraction_def)
  next
    case False
    have "takeWhile is_digit (f @ y @ r) = f" "dropWhile is_digit (f @ y @ r) = y @ r"
      using yr by (intro take_digits assms(3); auto)+
    then show ?thesis using False assms(2,5) by (simp add: scan_fraction_def)
  qed
  then show ?thesis unfolding scan_unsigned_def Let_def i using assms(2) ye by simp
qed

lemma undec_zeros_right: "undec (s @ replicate k (CHR ''0'')) = undec s * 10 ^ k"
  using undec_append [of s "replicate k (CHR ''0'')"] undec_zeros [of k, unfolded digit_char_0] by simp

lemma undec_zeros_left: "undec (replicate k (CHR ''0'') @ s) = undec s"
  using undec_append [of "replicate k (CHR ''0'')" s] undec_zeros [of k, unfolded digit_char_0] by simp

lemma dec_hd: "0 < n \<Longrightarrow> hd (dec n) \<noteq> CHR ''0''"
proof (induction n rule: dec.induct)
  case (1 n)
  show ?case
  proof (cases "n < 10")
    case True
    then have "digit_char n \<noteq> digit_char 0" using 1(2) of_char_digit_char [of n] of_char_digit_char [of 0] by (metis add_cancel_left_right less_not_refl zero_less_numeral)
    then show ?thesis using True by (simp add: dec_small)
  next
    case False
    with 1(1) show ?thesis by (simp add: dec_big)
  qed
qed

text \<open>
  A written number: the whole part without superfluous zeros, the fraction when there is one,
  the exponent when there is one. Each of the five layouts has this form.
\<close>

definition fraction_text :: "string \<Rightarrow> string" where
  "fraction_text f = (if f = [] then [] else CHR ''.'' # f)"

definition written :: "string \<Rightarrow> string \<Rightarrow> string \<Rightarrow> int \<Rightarrow> bool" where
  "written i f y e \<longleftrightarrow> digits i \<and> i \<noteq> [] \<and> (i = ''0'' \<or> hd i \<noteq> CHR ''0'') \<and> digits f \<and>
     (y = [] \<and> e = 0 \<or> y = exponent_text e)"

lemma layout_written:
  assumes "decimal_of q (k, s, n)" "q \<noteq> 0"
  shows "\<exists>i f y e. layout_number k s n = i @ fraction_text f @ y \<and> written i f y e \<and>
    (of_nat (undec (i @ f)) :: rat) * 10 powi (e - int (length f)) = of_nat s * 10 powi (n - int k)"
proof -
  have s0: "0 < s" using assms by (intro gr0I) (auto simp: decimal_of_def)
  define ds where "ds = dec s"
  have k: "0 < k" "length ds = k"
    using assms(1) dec_length [of k s] by (simp_all add: decimal_of_def ds_def)
  have ds: "digits ds" "undec ds = s" "ds \<noteq> []" "hd ds \<noteq> CHR ''0''" by (simp_all add: ds_def dec_hd s0)
  have d0: "is_digit (CHR ''0'')" by code_simp
  let ?L = "layout_number k s n"
  have L: "?L = (if int k \<le> n \<and> n \<le> 21 then ds @ replicate (nat n - k) (CHR ''0'')
      else if 0 < n \<and> n \<le> 21 then take (nat n) ds @ ''.'' @ drop (nat n) ds
      else if - 6 < n \<and> n \<le> 0 then ''0.'' @ replicate (nat (- n)) (CHR ''0'') @ ds
      else if k = 1 then ds @ exponent_text (n - 1)
      else take 1 ds @ ''.'' @ drop 1 ds @ exponent_text (n - 1))"
    by (simp add: layout_number_def ds_def exponent_text_def Let_def)
  consider (int) "int k \<le> n" "n \<le> 21"
    | (point) "0 < n" "n < int k" "n \<le> 21"
    | (zero) "- 6 < n" "n \<le> 0"
    | (exp1) "\<not> (int k \<le> n \<and> n \<le> 21)" "\<not> (0 < n \<and> n \<le> 21)" "\<not> (- 6 < n \<and> n \<le> 0)" "k = 1"
    | (exp2) "\<not> (int k \<le> n \<and> n \<le> 21)" "\<not> (0 < n \<and> n \<le> 21)" "\<not> (- 6 < n \<and> n \<le> 0)" "1 < k"
    using k(1) by linarith
  then show ?thesis
  proof cases
    case int
    define z where "z = replicate (nat n - k) (CHR ''0'')"
    have l: "?L = (ds @ z) @ fraction_text [] @ []" using int by (simp add: L z_def fraction_text_def)
    have "n = int k + int (nat n - k)" using int by simp
    then have "(10 :: rat) powi (n - int k) = 10 ^ (nat n - k)" by (metis add_diff_cancel_left' ten_powi_nat)
    then have "(of_nat (undec ((ds @ z) @ [])) :: rat) * 10 powi (0 - int (length [])) = of_nat s * 10 powi (n - int k)"
      unfolding z_def append_Nil2 undec_zeros_right ds(2) by simp
    moreover have "written (ds @ z) [] [] 0" using ds by (simp add: written_def z_def d0)
    ultimately show ?thesis using l by blast
  next
    case point
    define m where "m = nat n"
    define i where "i = take m ds"
    define f where "f = drop m ds"
    have m: "0 < m" "m < k" using point by (simp_all add: m_def)
    have f: "digits i" "digits f" "f \<noteq> []" "i \<noteq> []" "int (length f) = int k - n" "undec (i @ f) = s"
      using m k ds point digits_sub [OF ds(1)] by (simp_all add: m_def i_def f_def)
    have "hd i = hd ds" using m ds(3) by (simp add: i_def)
    then have "written i f [] 0" using f ds(4) by (simp add: written_def)
    moreover have "?L = i @ fraction_text f @ []"
      using point f(3) by (simp add: L i_def f_def m_def fraction_text_def)
    moreover have "(of_nat (undec (i @ f)) :: rat) * 10 powi (0 - int (length f)) = of_nat s * 10 powi (n - int k)"
      unfolding f(5,6) by simp
    ultimately show ?thesis by blast
  next
    case zero
    define f where "f = replicate (nat (- n)) (CHR ''0'') @ ds"
    have f: "digits f" "f \<noteq> []" "int (length f) = int k - n" "undec (''0'' @ f) = s"
    proof -
      show "digits f" "f \<noteq> []" "int (length f) = int k - n" using zero ds k by (simp_all add: f_def d0)
      have "''0'' @ f = replicate (Suc (nat (- n))) (CHR ''0'') @ ds" by (simp add: f_def)
      then show "undec (''0'' @ f) = s" using undec_zeros_left [of "Suc (nat (- n))" ds] ds(2) by simp
    qed
    have "?L = ''0'' @ fraction_text f @ []" using zero k(1) f(2) by (simp add: L f_def fraction_text_def)
    moreover have "written ''0'' f [] 0" using f d0 by (simp add: written_def)
    moreover have "(of_nat (undec (''0'' @ f)) :: rat) * 10 powi (0 - int (length f)) = of_nat s * 10 powi (n - int k)"
      unfolding f(3,4) by simp
    ultimately show ?thesis by blast
  next
    case exp1
    have l: "?L = ds @ exponent_text (n - 1)"
      unfolding L if_not_P [OF exp1(1)] if_not_P [OF exp1(2)] if_not_P [OF exp1(3)] if_P [OF exp1(4)] ..
    have "?L = ds @ fraction_text [] @ exponent_text (n - 1)" by (simp add: l fraction_text_def)
    moreover have "written ds [] (exponent_text (n - 1)) (n - 1)" using ds by (simp add: written_def)
    moreover have "(of_nat (undec (ds @ [])) :: rat) * 10 powi (n - 1 - int (length [])) = of_nat s * 10 powi (n - int k)"
      by (simp add: ds(2) exp1(4))
    ultimately show ?thesis by blast
  next
    case exp2
    define i where "i = take 1 ds"
    define f where "f = drop 1 ds"
    have f: "digits i" "digits f" "f \<noteq> []" "i \<noteq> []" "int (length f) = int k - 1" "undec (i @ f) = s"
      using k ds exp2 digits_sub [OF ds(1)] append_take_drop_id [of 1 ds] by (simp_all add: i_def f_def del: append_take_drop_id One_nat_def)
    have "hd i = hd ds" using ds(3) by (simp add: i_def)
    then have "written i f (exponent_text (n - 1)) (n - 1)" using f ds(4) by (simp add: written_def)
    moreover have "?L = i @ fraction_text f @ exponent_text (n - 1)"
      unfolding L if_not_P [OF exp2(1)] if_not_P [OF exp2(2)] if_not_P [OF exp2(3)] using exp2(4) f(3)
      by (simp add: i_def f_def fraction_text_def)
    moreover have "(of_nat (undec (i @ f)) :: rat) * 10 powi (n - 1 - int (length f)) = of_nat s * 10 powi (n - int k)"
      unfolding f(5,6) by simp
    ultimately show ?thesis by blast
  qed
qed

lemma scan_written:
  assumes "written i f y e" "number_end r"
  shows "scan_unsigned ((i @ fraction_text f @ y) @ r) = Some (of_nat (undec (i @ f)) * 10 powi (e - int (length f)), r)"
  using assms scan_unsigned_parts [of i f r "fraction_text f" y e] by (simp add: written_def fraction_text_def)

text \<open>The value that the text of a number is read as: a negative zero loses its sign.\<close>

definition unsigned_zero :: "jsnum \<Rightarrow> jsnum" where
  "unsigned_zero x = (if x = NZero then Fin 0 else x)"

lemma pos_to_string_written:
  assumes "representable q" "0 < q"
  shows "\<exists>i f y e. pos_to_string q = i @ fraction_text f @ y \<and> written i f y e \<and>
    rnd (of_nat (undec (i @ f)) * 10 powi (e - int (length f))) = q"
proof -
  obtain k s n where d: "shortest 17 1 q (exp10 q) = Some (k, s, n)" "decimal_of q (k, s, n)"
    using shortest_decimal [OF assms(1,2)] by (metis prod_cases3)
  then have p: "pos_to_string q = layout_number k s n" by (simp add: pos_to_string_def)
  have "rnd (of_nat s * 10 powi (n - int k)) = q" using d(2) by (simp add: decimal_of_def)
  moreover obtain i f y e where "layout_number k s n = i @ fraction_text f @ y" "written i f y e"
      "(of_nat (undec (i @ f)) :: rat) * 10 powi (e - int (length f)) = of_nat s * 10 powi (n - int k)"
    using layout_written [OF d(2)] assms(2) by auto
  ultimately show ?thesis unfolding p by (intro exI [of _ i] exI [of _ f] exI [of _ y] exI [of _ e]) simp
qed

lemma pos_to_string_scan:
  assumes "representable q" "0 < q" "number_end r"
  shows "\<exists>v. scan_unsigned (pos_to_string q @ r) = Some (v, r) \<and> rnd v = q"
    and "pos_to_string q \<noteq> []" and "is_digit (hd (pos_to_string q))"
proof -
  obtain i f y e where w: "pos_to_string q = i @ fraction_text f @ y" "written i f y e"
      "rnd (of_nat (undec (i @ f)) * 10 powi (e - int (length f))) = q"
    using pos_to_string_written [OF assms(1,2)] by blast
  show "\<exists>v. scan_unsigned (pos_to_string q @ r) = Some (v, r) \<and> rnd v = q"
    using scan_written [OF w(2) assms(3)] w(3) unfolding w(1) by blast
  show "pos_to_string q \<noteq> []" "is_digit (hd (pos_to_string q))"
    using w(2) unfolding w(1) by (cases i; simp add: written_def)+
qed

lemma not_infinity: "is_digit (hd s) \<Longrightarrow> s \<noteq> [] \<Longrightarrow> take 8 (s @ r) \<noteq> ''Infinity''"
  by (cases s) (auto simp: is_digit_def)

lemma scan_number_to_string:
  assumes "wf_num x" "x \<noteq> NaN" "number_end r"
  shows "scan_number (num_to_string x @ r) = Some (unsigned_zero x, r)"
proof (cases x)
  case (Fin q)
  from assms(1) have q: "representable q" "\<bar>q\<bar> < overflow" unfolding Fin wf_Fin by simp_all
  consider "q = 0" | "0 < q" | "q < 0" by linarith
  then show ?thesis
  proof cases
    case 1
    have "scan_unsigned (''0'' @ r) = Some (0, r)"
      using scan_unsigned_parts [of "''0''" "[]" r "[]" "[]" 0] assms(3) undec_zeros [of 1] by (simp add: is_digit_def)
    then show ?thesis using not_infinity [of "''0''" r]
      by (simp add: Fin 1 scan_number_def scan_sign_def unsigned_zero_def fround_def zero_of_def is_digit_def not_le)
  next
    case 2
    obtain v where v: "scan_unsigned (pos_to_string q @ r) = Some (v, r)" "rnd v = q"
      using pos_to_string_scan(1) [OF q(1) 2 assms(3)] by blast
    note p = pos_to_string_scan(2,3) [OF q(1) 2 assms(3)]
    then have "scan_sign (pos_to_string q @ r) = (False, pos_to_string q @ r)" by (intro scan_sign_digits) simp_all
    moreover have "fround False v = Fin q" using 2 q(2) v(2) by (simp add: fround_def Let_def)
    ultimately show ?thesis using v not_infinity [OF p(2,1)] 2
      by (simp add: Fin scan_number_def unsigned_zero_def)
  next
    case 3
    then have m: "0 < - q" "representable (- q)" using q(1) by simp_all
    obtain v where v: "scan_unsigned (pos_to_string (- q) @ r) = Some (v, r)" "rnd v = - q"
      using pos_to_string_scan(1) [OF m(2,1) assms(3)] by blast
    note p = pos_to_string_scan(2,3) [OF m(2,1) assms(3)]
    have "rnd (- v) = q" using v(2) by simp
    then have "fround True (- v) = Fin q" using 3 q(2) overflow_pos by (simp add: fround_def Let_def abs_less_iff)
    then show ?thesis using v not_infinity [OF p(2,1)] 3
      by (simp add: Fin scan_number_def scan_sign_def unsigned_zero_def)
  qed
next
  case NZero
  have "scan_unsigned (''0'' @ r) = Some (0, r)"
    using scan_unsigned_parts [of "''0''" "[]" r "[]" "[]" 0] assms(3) undec_zeros [of 1] by (simp add: is_digit_def)
  then show ?thesis using not_infinity [of "''0''" r]
    by (simp add: NZero scan_number_def scan_sign_def unsigned_zero_def fround_def zero_of_def is_digit_def not_le)
qed (use assms in \<open>simp_all add: scan_number_def scan_sign_def inf_of_def unsigned_zero_def\<close>)

end
