(* ===== verification/JsJson.thy ===== *)
theory JsJson
  imports NumText
begin

text \<open>
  \<open>JSON.stringify\<close> and \<open>JSON.parse\<close> on the values that the program stores, and the fact that
  a stored value is read back. \<open>None\<close> is a syntax error. Code units are below 256: an escape
  of a larger one is refused.
\<close>

datatype json =
    JNull
  | JBool bool
  | JNum jsnum
  | JStr string
  | JArr "json list"
  | JObj "(string \<times> json) list"

subsection \<open>Writing\<close>

definition hex2 :: "nat \<Rightarrow> string" where
  "hex2 n = (let h = (\<lambda>d. if d < 10 then digit_char d else char_of (87 + d)) in [h (n div 16), h (n mod 16)])"

definition escape_char :: "char \<Rightarrow> string" where
  "escape_char c =
     (let n = (of_char c :: nat)
      in if n = 34 then [CHR 0x5C, CHR 0x22]
         else if n = 92 then [CHR 0x5C, CHR 0x5C]
         else if n = 8 then [CHR 0x5C, CHR ''b''] else if n = 12 then [CHR 0x5C, CHR ''f'']
         else if n = 10 then [CHR 0x5C, CHR ''n''] else if n = 13 then [CHR 0x5C, CHR ''r'']
         else if n = 9 then [CHR 0x5C, CHR ''t'']
         else if n < 32 then CHR 0x5C # ''u00'' @ hex2 n
         else [c])"

definition quote :: "string \<Rightarrow> string" where
  "quote s = CHR 0x22 # concat (map escape_char s) @ [CHR 0x22]"

fun stringify :: "json \<Rightarrow> string" where
  "stringify JNull = ''null''"
| "stringify (JBool b) = (if b then ''true'' else ''false'')"
| "stringify (JNum x) = (if is_finite x then num_to_string x else ''null'')"
| "stringify (JStr s) = quote s"
| "stringify (JArr js) = ''['' @ join '','' (map stringify js) @ '']''"
| "stringify (JObj ms) = ''{'' @ join '','' (map (\<lambda>(k, j). quote k @ '':'' @ stringify j) ms) @ ''}''"

subsection \<open>Reading\<close>

definition skip :: "string \<Rightarrow> string" where
  "skip s = dropWhile (\<lambda>c. c = CHR '' '' \<or> c = CHR 0x09 \<or> c = CHR 0x0A \<or> c = CHR 0x0D) s"

definition unescape :: "char \<Rightarrow> char option" where
  "unescape c = map_of [(CHR 0x22, CHR 0x22), (CHR 0x5C, CHR 0x5C), (CHR ''/'', CHR ''/''),
     (CHR ''b'', CHR 0x08), (CHR ''f'', CHR 0x0C), (CHR ''n'', CHR 0x0A), (CHR ''r'', CHR 0x0D),
     (CHR ''t'', CHR 0x09)] c"

definition unicode_escape :: "char \<Rightarrow> char \<Rightarrow> char \<Rightarrow> char \<Rightarrow> char option" where
  "unicode_escape a b c d =
     (let n = 4096 * radix_digit a + 256 * radix_digit b + 16 * radix_digit c + radix_digit d
      in if (\<forall>x\<in>set [a, b, c, d]. radix_digit x < 16) \<and> n < 256 then Some (char_of n) else None)"

text \<open>The rest of a string, after the opening quote.\<close>

fun read_string :: "string \<Rightarrow> (string \<times> string) option" where
  "read_string [] = None"
| "read_string (c # r) =
     (if c = CHR 0x22 then Some ([], r)
      else if c = CHR 0x5C then
        (case r of
           [] \<Rightarrow> None
         | e # t \<Rightarrow>
             if e = CHR ''u'' then
               (case t of
                  a # b # x # y # t' \<Rightarrow>
                    (case (unicode_escape a b x y, read_string t') of
                       (Some d, Some (s, u)) \<Rightarrow> Some (d # s, u) | _ \<Rightarrow> None)
                | _ \<Rightarrow> None)
             else
               (case (unescape e, read_string t) of
                  (Some d, Some (s, u)) \<Rightarrow> Some (d # s, u) | _ \<Rightarrow> None))
      else if (of_char c :: nat) < 32 then None
      else map_option (apfst (Cons c)) (read_string r))"

text \<open>The grammar of numbers is stricter than that of \<open>parseFloat\<close>.\<close>

definition number_ok :: "string \<Rightarrow> bool" where
  "number_ok s =
     (let i = takeWhile is_digit s; r = dropWhile is_digit s;
          (fok, r) = (case r of c # t \<Rightarrow> if c = CHR ''.'' then (takeWhile is_digit t \<noteq> [], dropWhile is_digit t) else (True, r)
                      | [] \<Rightarrow> (True, r));
          eok = (case r of c # t \<Rightarrow> if c = CHR ''e'' \<or> c = CHR ''E'' then takeWhile is_digit (snd (scan_sign t)) \<noteq> [] else True
                 | [] \<Rightarrow> True)
      in i \<noteq> [] \<and> (i = ''0'' \<or> hd i \<noteq> CHR ''0'') \<and> fok \<and> eok)"

definition read_number :: "string \<Rightarrow> (json \<times> string) option" where
  "read_number s =
     (if number_ok (case s of c # t \<Rightarrow> if c = CHR ''-'' then t else s | [] \<Rightarrow> s)
      then map_option (apfst JNum) (scan_number s) else None)"

text \<open>
  Values, the elements of an array after the opening bracket, and the members of an object
  after the opening brace. The fuel bounds the nesting and the number of elements: the length
  of the text is enough.
\<close>

fun read_value :: "nat \<Rightarrow> string \<Rightarrow> (json \<times> string) option"
  and read_elements :: "nat \<Rightarrow> string \<Rightarrow> (json list \<times> string) option"
  and read_members :: "nat \<Rightarrow> string \<Rightarrow> ((string \<times> json) list \<times> string) option" where
  "read_value 0 s = None"
| "read_value (Suc n) s =
     (case skip s of
        [] \<Rightarrow> None
      | c # r \<Rightarrow>
          if c = CHR ''['' then
            (case skip r of
               d # t \<Rightarrow> if d = CHR '']'' then Some (JArr [], t) else map_option (apfst JArr) (read_elements n r)
             | [] \<Rightarrow> None)
          else if c = CHR ''{'' then
            (case skip r of
               d # t \<Rightarrow> if d = CHR ''}'' then Some (JObj [], t) else map_option (apfst JObj) (read_members n r)
             | [] \<Rightarrow> None)
          else if c = CHR 0x22 then map_option (apfst JStr) (read_string r)
          else if take 4 (c # r) = ''null'' then Some (JNull, drop 4 (c # r))
          else if take 4 (c # r) = ''true'' then Some (JBool True, drop 4 (c # r))
          else if take 5 (c # r) = ''false'' then Some (JBool False, drop 5 (c # r))
          else read_number (c # r))"
| "read_elements 0 s = None"
| "read_elements (Suc n) s =
     (case read_value n s of
        None \<Rightarrow> None
      | Some (j, r) \<Rightarrow>
          (case skip r of
             c # t \<Rightarrow>
               if c = CHR '']'' then Some ([j], t)
               else if c = CHR '','' then map_option (apfst (Cons j)) (read_elements n t)
               else None
           | [] \<Rightarrow> None))"
| "read_members 0 s = None"
| "read_members (Suc n) s =
     (case skip s of
        [] \<Rightarrow> None
      | q # r \<Rightarrow>
          if q \<noteq> CHR 0x22 then None
          else
            (case read_string r of
               None \<Rightarrow> None
             | Some (k, t) \<Rightarrow>
                 (case skip t of
                    [] \<Rightarrow> None
                  | d # u \<Rightarrow>
                      if d \<noteq> CHR '':'' then None
                      else
                        (case read_value n u of
                           None \<Rightarrow> None
                         | Some (j, v) \<Rightarrow>
                             (case skip v of
                                c # w \<Rightarrow>
                                  if c = CHR ''}'' then Some ([(k, j)], w)
                                  else if c = CHR '','' then map_option (apfst (Cons (k, j))) (read_members n w)
                                  else None
                              | [] \<Rightarrow> None)))))"

definition json_parse :: "string \<Rightarrow> json option" where
  "json_parse s =
     (case read_value (Suc (length s)) s of
        Some (j, r) \<Rightarrow> if skip r = [] then Some j else None
      | None \<Rightarrow> None)"

subsection \<open>Strings\<close>

lemma read_control:
  assumes "n < 32"
  shows "read_string (CHR 0x5C # ''u00'' @ hex2 n @ r) = map_option (apfst (Cons (char_of n))) (read_string r)"
proof -
  have "\<forall>n\<in>set [0..<32]. unicode_escape (CHR ''0'') (CHR ''0'') (hex2 n ! 0) (hex2 n ! 1) = Some (char_of n)"
    by code_simp
  then have u: "unicode_escape (CHR ''0'') (CHR ''0'') (hex2 n ! 0) (hex2 n ! 1) = Some (char_of n)"
    using assms by simp
  have "hex2 n = [hex2 n ! 0, hex2 n ! 1]" by (simp add: hex2_def Let_def)
  then obtain a b where h: "hex2 n = [a, b]" by blast
  from u show ?thesis by (cases "read_string r") (simp_all add: h split: prod.split)
qed

lemma read_escape: "read_string (escape_char c @ r) = map_option (apfst (Cons c)) (read_string r)"
proof -
  define n where "n = (of_char c :: nat)"
  have c: "c = char_of n" by (simp add: n_def)
  have e: "escape_char c = (if n = 34 then [CHR 0x5C, CHR 0x22] else if n = 92 then [CHR 0x5C, CHR 0x5C]
      else if n = 8 then [CHR 0x5C, CHR ''b''] else if n = 12 then [CHR 0x5C, CHR ''f'']
      else if n = 10 then [CHR 0x5C, CHR ''n''] else if n = 13 then [CHR 0x5C, CHR ''r'']
      else if n = 9 then [CHR 0x5C, CHR ''t''] else if n < 32 then CHR 0x5C # ''u00'' @ hex2 n else [c])"
    by (simp add: escape_char_def n_def Let_def)
  have two: "read_string (CHR 0x5C # x # r) = map_option (apfst (Cons d)) (read_string r)"
    if "unescape x = Some d" "x \<noteq> CHR ''u''" for x d
    using that by (cases "read_string r") (simp_all split: prod.split)
  have ch: "char_of (34 :: nat) = CHR 0x22" "char_of (92 :: nat) = CHR 0x5C" "char_of (8 :: nat) = CHR 0x08"
    "char_of (12 :: nat) = CHR 0x0C" "char_of (10 :: nat) = CHR 0x0A" "char_of (13 :: nat) = CHR 0x0D"
    "char_of (9 :: nat) = CHR 0x09" by code_simp+
  consider "n \<in> {34, 92, 8, 12, 10, 13, 9}" | "n \<notin> {34, 92, 8, 12, 10, 13, 9}" "n < 32"
    | "n \<notin> {34, 92, 8, 12, 10, 13, 9}" "\<not> n < 32" by blast
  then show ?thesis
  proof cases
    case 1
    then show ?thesis unfolding e
      by (cases "read_string r") (auto simp: c ch unescape_def split: prod.split)
  next
    case 2
    then have "escape_char c = CHR 0x5C # ''u00'' @ hex2 n" by (simp add: e)
    then show ?thesis using read_control [OF 2(2), of r] c by simp
  next
    case 3
    then have e': "escape_char c = [c]" by (simp add: e)
    have "c \<noteq> CHR 0x22" "c \<noteq> CHR 0x5C" using 3(1) by (auto simp: n_def)
    then show ?thesis using 3(2) by (simp add: e' n_def)
  qed
qed

lemma read_quote: "read_string (concat (map escape_char s) @ CHR 0x22 # r) = Some (s, r)"
  by (induction s) (simp_all add: read_escape)

subsection \<open>Numbers\<close>

text \<open>What follows a value in a text that \<open>stringify\<close> wrote.\<close>

definition value_end :: "string \<Rightarrow> bool" where
  "value_end r \<longleftrightarrow> (case r of [] \<Rightarrow> True | c # _ \<Rightarrow> c = CHR '','' \<or> c = CHR '']'' \<or> c = CHR ''}'')"

lemma value_end_number: "value_end r \<Longrightarrow> number_end r"
  by (cases r) (auto simp: value_end_def number_end_def is_digit_def)

lemma number_ok_written:
  assumes "written i f y e" "number_end r"
  shows "number_ok ((i @ fraction_text f @ y) @ r)"
proof -
  have i: "digits i" "i \<noteq> []" "i = ''0'' \<or> hd i \<noteq> CHR ''0''" "digits f" and y: "y = [] \<or> y = exponent_text e"
    using assms(1) by (auto simp: written_def)
  have yr: "y @ r = [] \<or> \<not> is_digit (hd (y @ r)) \<and> hd (y @ r) \<noteq> CHR ''.''"
    using assms(2) y by (cases r) (auto simp: number_end_def exponent_text_def is_digit_def)
  have ti: "takeWhile is_digit (i @ fraction_text f @ y @ r) = i" "dropWhile is_digit (i @ fraction_text f @ y @ r) = fraction_text f @ y @ r"
    using yr by (intro take_digits i(1); auto simp: fraction_text_def is_digit_def)+
  have rd: "r = [] \<or> \<not> is_digit (hd r)" using assms(2) by (cases r) (simp_all add: number_end_def)
  have fr: "(case fraction_text f @ y @ r of c # t \<Rightarrow> if c = CHR ''.'' then (takeWhile is_digit t \<noteq> [], dropWhile is_digit t) else (True, fraction_text f @ y @ r)
      | [] \<Rightarrow> (True, fraction_text f @ y @ r)) = (True, y @ r)"
  proof (cases "f = []")
    case True
    then show ?thesis using yr by (cases "y @ r") (simp_all add: fraction_text_def)
  next
    case False
    have "takeWhile is_digit (f @ y @ r) = f" "dropWhile is_digit (f @ y @ r) = y @ r"
      using yr by (intro take_digits i(4); auto)+
    then show ?thesis using False by (simp add: fraction_text_def)
  qed
  have ex: "(case y @ r of c # t \<Rightarrow> if c = CHR ''e'' \<or> c = CHR ''E'' then takeWhile is_digit (snd (scan_sign t)) \<noteq> [] else True
      | [] \<Rightarrow> True)"
  proof (cases "y = []")
    case True
    then show ?thesis using assms(2) by (cases r) (simp_all add: number_end_def)
  next
    case False
    have "takeWhile is_digit (dec d @ r) = dec d" for d using rd by (intro take_digits; simp)
    then show ?thesis using False y by (simp add: exponent_text_def scan_sign_def)
  qed
  show ?thesis unfolding number_ok_def Let_def append_assoc ti fr prod.case using i ex by simp
qed

lemma number_ok_zero: "number_end r \<Longrightarrow> number_ok (''0'' @ r)"
  using number_ok_written [of "''0''" "[]" "[]" 0 r] by (simp add: written_def fraction_text_def is_digit_def)

lemma read_number_text:
  assumes "wf_num x" "is_finite x" "number_end r"
  shows "read_number (num_to_string x @ r) = Some (JNum (unsigned_zero x), r)"
    and "\<exists>c t. num_to_string x = c # t \<and> (is_digit c \<or> c = CHR ''-'')"
proof -
  have n: "x \<noteq> NaN" using assms(2) by auto
  have pos: "number_ok (pos_to_string q @ r) \<and> (\<exists>c t. pos_to_string q = c # t \<and> is_digit c)" if qq: "representable q" "0 < q" for q
  proof -
    obtain i f y e where w: "pos_to_string q = i @ fraction_text f @ y" "written i f y e"
      using pos_to_string_written [OF qq] by blast
    have "number_ok (pos_to_string q @ r)" using number_ok_written [OF w(2) assms(3)] by (simp only: w(1))
    moreover have "\<exists>c t. pos_to_string q = c # t \<and> is_digit c"
      using pos_to_string_scan(2,3) [OF qq assms(3)] by (cases "pos_to_string q") auto
    ultimately show ?thesis by blast
  qed
  have "number_ok (case num_to_string x @ r of c # t \<Rightarrow> if c = CHR ''-'' then t else num_to_string x @ r | [] \<Rightarrow> num_to_string x @ r) \<and>
      (\<exists>c t. num_to_string x = c # t \<and> (is_digit c \<or> c = CHR ''-''))"
  proof (cases x)
    case (Fin q)
    then have q: "representable q" using assms(1) by (simp add: rnd_fixed_iff)
    consider "q = 0" | "0 < q" | "q < 0" by linarith
    then show ?thesis
    proof cases
      case 1
      then show ?thesis using number_ok_zero [OF assms(3)] by (simp add: Fin is_digit_def)
    next
      case 2
      from pos [OF q 2] obtain c t where "number_ok (pos_to_string q @ r)" "pos_to_string q = c # t" "is_digit c" by blast
      moreover from this have "c \<noteq> CHR ''-''" by (auto simp: is_digit_def)
      ultimately show ?thesis using 2 by (simp add: Fin)
    next
      case 3
      then show ?thesis using pos [of "- q"] q by (simp add: Fin)
    qed
  next
    case NZero
    then show ?thesis using number_ok_zero [OF assms(3)] by (simp add: is_digit_def)
  qed (use assms(2) in simp_all)
  then show "read_number (num_to_string x @ r) = Some (JNum (unsigned_zero x), r)"
    "\<exists>c t. num_to_string x = c # t \<and> (is_digit c \<or> c = CHR ''-'')"
    unfolding read_number_def using scan_number_to_string [OF assms(1) n assms(3)] by simp_all
qed

subsection \<open>Values\<close>

text \<open>What comes back: numbers that are not finite become \<open>null\<close>, a negative zero loses its sign.\<close>

fun stored_value :: "json \<Rightarrow> json" where
  "stored_value (JNum x) = (if is_finite x then JNum (unsigned_zero x) else JNull)"
| "stored_value (JArr js) = JArr (map stored_value js)"
| "stored_value (JObj ms) = JObj (map (\<lambda>(k, j). (k, stored_value j)) ms)"
| "stored_value j = j"

fun wf_json :: "json \<Rightarrow> bool" where
  "wf_json (JNum x) = wf_num x"
| "wf_json (JArr js) = (\<forall>j\<in>set js. wf_json j)"
| "wf_json (JObj ms) = (\<forall>(k, j)\<in>set ms. wf_json j)"
| "wf_json _ = True"

lemma skip_id: "s = [] \<or> hd s \<notin> {CHR '' '', CHR 0x09, CHR 0x0A, CHR 0x0D} \<Longrightarrow> skip s = s"
  unfolding skip_def by (rule dropWhile_id) auto

lemma skip_value_end: "value_end r \<Longrightarrow> skip r = r"
  by (rule skip_id) (cases r; auto simp: value_end_def)

text \<open>Values are read back one by one; the fuel is more than the length of the text.\<close>

definition reads_back :: "json \<Rightarrow> bool" where
  "reads_back j \<longleftrightarrow> (\<forall>n r. length (stringify j) < n \<longrightarrow> value_end r \<longrightarrow>
     read_value n (stringify j @ r) = Some (stored_value j, r))"

lemma read_elements_back:
  "js \<noteq> [] \<Longrightarrow> \<forall>j\<in>set js. reads_back j \<Longrightarrow> length (join '','' (map stringify js)) + 1 < n \<Longrightarrow>
    read_elements n (join '','' (map stringify js) @ CHR '']'' # r) = Some (map stored_value js, r)"
proof (induction js arbitrary: n)
  case (Cons j js)
  obtain m where n: "n = Suc m" using Cons.prems(3) by (cases n) auto
  have j: "reads_back j" using Cons.prems(2) by simp
  show ?case
  proof (cases js)
    case Nil
    have "length (stringify j) < m" using Cons.prems(3) n Nil by simp
    then have "read_value m (stringify j @ CHR '']'' # r) = Some (stored_value j, CHR '']'' # r)"
      using j by (simp add: reads_back_def value_end_def)
    then show ?thesis by (simp add: n Nil skip_id)
  next
    case (Cons k ks)
    let ?t = "join '','' (map stringify js) @ CHR '']'' # r"
    have e: "join '','' (map stringify (j # js)) @ CHR '']'' # r = stringify j @ CHR '','' # ?t"
      by (simp add: Cons)
    have l: "length (stringify j) < m" "length (join '','' (map stringify js)) + 1 < m"
      using Cons.prems(3) n Cons by simp_all
    have "read_value m (stringify j @ CHR '','' # ?t) = Some (stored_value j, CHR '','' # ?t)"
      using j l(1) by (simp add: reads_back_def value_end_def)
    moreover have "read_elements m ?t = Some (map stored_value js, r)"
      using Cons.IH [of m] l(2) Cons.prems(2) Cons by simp
    ultimately show ?thesis unfolding e n by (simp add: skip_id)
  qed
qed simp

lemma skip_quote: "skip (quote k @ r) = CHR 0x22 # concat (map escape_char k) @ CHR 0x22 # r"
  by (subst skip_id) (simp_all add: quote_def)

lemma read_members_back:
  "ms \<noteq> [] \<Longrightarrow> \<forall>(k, j)\<in>set ms. reads_back j \<Longrightarrow>
    length (join '','' (map (\<lambda>(k, j). quote k @ '':'' @ stringify j) ms)) + 1 < n \<Longrightarrow>
    read_members n (join '','' (map (\<lambda>(k, j). quote k @ '':'' @ stringify j) ms) @ CHR ''}'' # r) =
      Some (map (\<lambda>(k, j). (k, stored_value j)) ms, r)"
proof (induction ms arbitrary: n)
  case (Cons m ms)
  obtain k j where m: "m = (k, j)" by (cases m)
  obtain f where n: "n = Suc f" using Cons.prems(3) by (cases n) auto
  have j: "reads_back j" using Cons.prems(2) m by simp
  show ?case
  proof (cases ms)
    case Nil
    have "length (stringify j) < f" using Cons.prems(3) n Nil by (simp add: m)
    then have "read_value f (stringify j @ CHR ''}'' # r) = Some (stored_value j, CHR ''}'' # r)"
      using j by (simp add: reads_back_def value_end_def)
    then show ?thesis by (simp add: n Nil m skip_quote read_quote skip_id)
  next
    case (Cons m' ms')
    let ?t = "join '','' (map (\<lambda>(k, j). quote k @ '':'' @ stringify j) ms) @ CHR ''}'' # r"
    have e: "join '','' (map (\<lambda>(k, j). quote k @ '':'' @ stringify j) (m # ms)) @ CHR ''}'' # r =
        quote k @ CHR '':'' # stringify j @ CHR '','' # ?t"
      by (simp add: Cons m)
    have l: "length (stringify j) < f" "length (join '','' (map (\<lambda>(k, j). quote k @ '':'' @ stringify j) ms)) + 1 < f"
      using Cons.prems(3) n Cons by (simp_all add: m)
    have "read_value f (stringify j @ CHR '','' # ?t) = Some (stored_value j, CHR '','' # ?t)"
      using j l(1) by (simp add: reads_back_def value_end_def)
    moreover have "read_members f ?t = Some (map (\<lambda>(k, j). (k, stored_value j)) ms, r)"
      using Cons.IH [of f] l(2) Cons.prems(2) Cons by simp
    ultimately show ?thesis unfolding e n by (simp add: m skip_quote read_quote skip_id)
  qed
qed simp

lemma reads_back_atoms: "reads_back JNull" "reads_back (JBool b)" "reads_back (JStr s)"
  unfolding reads_back_def by (auto simp: skip_id quote_def read_quote gr0_conv_Suc split: if_splits elim!: less_natE)

lemma reads_back_number: "wf_num x \<Longrightarrow> reads_back (JNum x)"
proof (cases "is_finite x")
  case False
  then show ?thesis using reads_back_atoms(1) by (simp add: reads_back_def)
next
  case True
  assume w: "wf_num x"
  show ?thesis unfolding reads_back_def
  proof (intro allI impI)
    fix n r
    assume n: "length (stringify (JNum x)) < n" and r: "value_end r"
    note x = read_number_text [OF w True value_end_number [OF r]]
    obtain c t where c: "num_to_string x = c # t" "is_digit c \<or> c = CHR ''-''" using x(2) by blast
    have ne: "c \<noteq> CHR ''['' \<and> c \<noteq> CHR ''{'' \<and> c \<noteq> CHR 0x22 \<and> c \<noteq> CHR ''n'' \<and> c \<noteq> CHR ''t'' \<and> c \<noteq> CHR ''f''
        \<and> c \<noteq> CHR '' '' \<and> c \<noteq> CHR 0x09 \<and> c \<noteq> CHR 0x0A \<and> c \<noteq> CHR 0x0D"
      using c(2) by (auto simp: is_digit_def)
    obtain m where "n = Suc m" using n by (cases n) auto
    then show "read_value n (stringify (JNum x) @ r) = Some (stored_value (JNum x), r)"
      using x(1) ne by (simp add: True c(1) skip_id)
  qed
qed

lemma stringify_head: "\<exists>c t. stringify j = c # t \<and> c \<notin> {CHR '' '', CHR 0x09, CHR 0x0A, CHR 0x0D} \<and> c \<noteq> CHR '']'' \<and> c \<noteq> CHR ''}''"
  if "wf_json j"
proof (cases j)
  case (JNum x)
  show ?thesis
  proof (cases "is_finite x")
    case True
    have "wf_num x" using that JNum by simp
    from read_number_text(2) [OF this True, of "[]"] obtain c t
      where "num_to_string x = c # t" "is_digit c \<or> c = CHR ''-''" by (auto simp: number_end_def)
    then show ?thesis using JNum True by (auto simp: is_digit_def)
  qed (simp add: JNum)
qed (simp_all add: quote_def)

theorem json_reads_back: "wf_json j \<Longrightarrow> reads_back j"
proof (induction j rule: stringify.induct)
  case (5 js)
  then have IH: "\<forall>j\<in>set js. reads_back j" by simp
  show ?case unfolding reads_back_def
  proof (intro allI impI)
    fix n r
    assume n: "length (stringify (JArr js)) < n" and r: "value_end r"
    obtain m where m: "n = Suc m" using n by (cases n) auto
    show "read_value n (stringify (JArr js) @ r) = Some (stored_value (JArr js), r)"
    proof (cases js)
      case Nil
      then show ?thesis by (simp add: m skip_id)
    next
      case (Cons j js')
      let ?b = "join '','' (map stringify js) @ CHR '']'' # r"
      obtain c t where c: "stringify j = c # t" "c \<notin> {CHR '' '', CHR 0x09, CHR 0x0A, CHR 0x0D}" "c \<noteq> CHR '']''"
        using stringify_head [of j] 5(2) Cons by auto
      obtain t' where b: "?b = c # t'" using c(1) Cons by (cases js') auto
      have "skip ?b = ?b" using b c(2) by (intro skip_id) auto
      moreover have "read_elements m ?b = Some (map stored_value js, r)"
        using n m IH Cons by (intro read_elements_back) simp_all
      ultimately show ?thesis using b c(3) by (simp add: m skip_id)
    qed
  qed
next
  case (6 ms)
  then have IH: "\<forall>(k, j)\<in>set ms. reads_back j" by auto
  show ?case unfolding reads_back_def
  proof (intro allI impI)
    fix n r
    assume n: "length (stringify (JObj ms)) < n" and r: "value_end r"
    obtain m where m: "n = Suc m" using n by (cases n) auto
    show "read_value n (stringify (JObj ms) @ r) = Some (stored_value (JObj ms), r)"
    proof (cases ms)
      case Nil
      then show ?thesis by (simp add: m skip_id)
    next
      case (Cons p ms')
      let ?b = "join '','' (map (\<lambda>(k, j). quote k @ '':'' @ stringify j) ms) @ CHR ''}'' # r"
      obtain t' where b: "?b = CHR 0x22 # t'" using Cons by (cases p; cases ms') (auto simp: quote_def)
      have "skip ?b = ?b" using b by (intro skip_id) auto
      moreover have "read_members m ?b = Some (map (\<lambda>(k, j). (k, stored_value j)) ms, r)"
        using n m IH Cons by (intro read_members_back) simp_all
      ultimately show ?thesis using b by (simp add: m skip_id)
    qed
  qed
qed (simp_all add: reads_back_atoms reads_back_number)

lemma json_parse_stringify: "wf_json j \<Longrightarrow> json_parse (stringify j) = Some (stored_value j)"
  using json_reads_back [of j] unfolding reads_back_def
  by (auto simp: json_parse_def value_end_def skip_def dest!: spec [of _ "Suc (length (stringify j))"] spec [of _ "[]"])

end
