(* ===== verification/Params.thy ===== *)
theory Params
  imports JsUri JsJson "HOL-Library.Monad_Syntax"
begin

text \<open>
  The search parameters of \<open>js/app-service.js\<close>: their record, their default values, and the
  JSON value that the service stores for them. \<open>undefined\<close> and \<open>null\<close> are \<open>None\<close>. The date
  library \<open>moment\<close> is not part of the repository: its three functions that the program uses
  are the record \<open>moment\<close>.
\<close>

subsection \<open>The date library\<close>

text \<open>
  Times are numbers of milliseconds. \<open>start_of_hour\<close> is \<open>moment(t).startOf('hour').valueOf()\<close>,
  \<open>add_minutes k\<close> is \<open>moment(t).add(k, 'minutes').valueOf()\<close> and \<open>utc_text\<close> is
  \<open>moment(t).utc().format('YYYY-M-DTHH:mm:ss')\<close>.
\<close>

record moment =
  start_of_hour :: "jsnum \<Rightarrow> jsnum"
  add_minutes :: "int \<Rightarrow> jsnum \<Rightarrow> jsnum"
  utc_text :: "jsnum \<Rightarrow> string"

text \<open>What the program relies on: adding moves forward, subtracting backward, an hour starts no later
  for an earlier time, and the text of a time has no character with a meaning in a URL.\<close>

definition moment_laws :: "moment \<Rightarrow> bool" where
  "moment_laws M \<longleftrightarrow>
     (\<forall>t. \<not> num_lt (add_minutes M 10 t) t) \<and>
     (\<forall>t. \<not> num_lt t (add_minutes M (- 10) t)) \<and>
     (\<forall>t u. \<not> num_lt u t \<longrightarrow> \<not> num_lt (add_minutes M 10 (start_of_hour M u)) (start_of_hour M t)) \<and>
     (\<forall>t. plain (utc_text M t))"

text \<open>A date library with these laws: hours from the epoch, and the number itself as its text.\<close>

definition sample_moment :: moment where
  "sample_moment = \<lparr>
     start_of_hour = (\<lambda>t. if is_finite t then Fin (of_int (\<lfloor>valQ t / 3600000\<rfloor> * 3600000)) else NaN),
     add_minutes = (\<lambda>k t. if is_finite t then Fin (valQ t + of_int (60000 * k)) else NaN),
     utc_text = num_to_string\<rparr>"

lemma moment_laws_sample: "moment_laws sample_moment"
proof -
  have "\<lfloor>t / 3600000\<rfloor> \<le> \<lfloor>u / 3600000\<rfloor>" if "\<not> u < t" for t u :: rat
    using that by (intro floor_mono divide_right_mono) simp_all
  then have "\<not> of_int \<lfloor>u / 3600000\<rfloor> * 3600000 + 600000 < (of_int \<lfloor>t / 3600000\<rfloor> * 3600000 :: rat)"
    if "\<not> u < t" for t u :: rat
  proof -
    have "(of_int \<lfloor>t / 3600000\<rfloor> :: rat) \<le> of_int \<lfloor>u / 3600000\<rfloor>"
      using that \<open>\<And>u t. \<not> u < t \<Longrightarrow> _\<close> by (simp only: of_int_le_iff)
    then show ?thesis by linarith
  qed
  moreover have "num_lt NaN x = False" "num_lt x NaN = False" for x by (cases x; simp)+
  ultimately show ?thesis
    by (auto simp: moment_laws_def sample_moment_def num_lt_finite)
qed

subsection \<open>The search parameters\<close>

record area =
  maxLat :: "jsnum option"
  maxLon :: "jsnum option"
  minLat :: "jsnum option"
  minLon :: "jsnum option"

record filter_type =
  simple :: bool
  advanced :: bool

record search_params =
  version :: "jsnum option"
  sourceTxt :: string
  sourceType :: string
  sourceBs :: "string list"
  sourceCountries :: "string list"
  sourceRegions :: "string list"
  targetTxt :: string
  targetCountries :: "string list"
  targetImos :: "string list"
  targetNames :: "string list"
  targetCallsigns :: "string list"
  targetTypes :: "string list"
  targetNavstats :: "string list"
  messageTxt :: string
  messageCountries :: "string list"
  messageMmsi :: "string list"
  messageImos :: "string list"
  messageNames :: "string list"
  messageCallsigns :: "string list"
  messageTypes :: "string list"
  messageNavstats :: "string list"
  advancedFilter :: string
  filterType :: filter_type
  mmsi :: "string option"
  startDate :: jsnum
  endDate :: jsnum
  area :: area
  outputFormat :: string
  outputTableFields :: "string list"
  outputTableSeparator :: string
  outputTableHeader :: bool
  limit :: "jsnum option"
  minDistance :: "jsnum option"
  minDuration :: "jsnum option"
  duplicateWindow :: "jsnum option"

definition service_version :: jsnum where
  "service_version = Fin 1"

definition no_area :: area where
  "no_area = \<lparr>maxLat = None, maxLon = None, minLat = None, minLon = None\<rparr>"

text \<open>\<open>t1\<close> and \<open>t2\<close> are the two readings of the clock, in the order of the calls of \<open>moment()\<close>.\<close>

definition clearParams :: "moment \<Rightarrow> jsnum \<Rightarrow> jsnum \<Rightarrow> search_params" where
  "clearParams M t1 t2 = \<lparr>
     version = Some service_version,
     sourceTxt = [], sourceType = [], sourceBs = [], sourceCountries = [], sourceRegions = [],
     targetTxt = [], targetCountries = [], targetImos = [], targetNames = [], targetCallsigns = [],
     targetTypes = [], targetNavstats = [],
     messageTxt = [], messageCountries = [], messageMmsi = [], messageImos = [], messageNames = [],
     messageCallsigns = [], messageTypes = [], messageNavstats = [],
     advancedFilter = [],
     filterType = \<lparr>simple = True, advanced = False\<rparr>,
     mmsi = None,
     startDate = start_of_hour M t1,
     endDate = add_minutes M 10 (start_of_hour M t2),
     area = no_area,
     outputFormat = ''raw'',
     outputTableFields = [''lat'', ''lon'', ''time'', ''mmsi''],
     outputTableSeparator = '';'',
     outputTableHeader = True,
     limit = None, minDistance = None, minDuration = None, duplicateWindow = None\<rparr>"

subsection \<open>The stored form\<close>

text \<open>
  The members of the stored object, in the order of the parameters; a member that is
  \<open>undefined\<close> is left out.
\<close>

definition num_member :: "string \<Rightarrow> jsnum option \<Rightarrow> (string \<times> json) list" where
  "num_member k v = (case v of None \<Rightarrow> [] | Some x \<Rightarrow> [(k, JNum x)])"

definition list_member :: "string \<Rightarrow> string list \<Rightarrow> string \<times> json" where
  "list_member k ss = (k, JArr (map JStr ss))"

definition area_to_json :: "area \<Rightarrow> json" where
  "area_to_json a = JObj (num_member ''maxLat'' (maxLat a) @ num_member ''maxLon'' (maxLon a) @
     num_member ''minLat'' (minLat a) @ num_member ''minLon'' (minLon a))"

definition params_members :: "search_params \<Rightarrow> (string \<times> json) list" where
  "params_members p =
     num_member ''version'' (version p) @
     [(''sourceTxt'', JStr (sourceTxt p)), (''sourceType'', JStr (sourceType p)),
      list_member ''sourceBs'' (sourceBs p), list_member ''sourceCountries'' (sourceCountries p),
      list_member ''sourceRegions'' (sourceRegions p),
      (''targetTxt'', JStr (targetTxt p)),
      list_member ''targetCountries'' (targetCountries p), list_member ''targetImos'' (targetImos p),
      list_member ''targetNames'' (targetNames p), list_member ''targetCallsigns'' (targetCallsigns p),
      list_member ''targetTypes'' (targetTypes p), list_member ''targetNavstats'' (targetNavstats p),
      (''messageTxt'', JStr (messageTxt p)),
      list_member ''messageCountries'' (messageCountries p), list_member ''messageMmsi'' (messageMmsi p),
      list_member ''messageImos'' (messageImos p), list_member ''messageNames'' (messageNames p),
      list_member ''messageCallsigns'' (messageCallsigns p), list_member ''messageTypes'' (messageTypes p),
      list_member ''messageNavstats'' (messageNavstats p),
      (''advancedFilter'', JStr (advancedFilter p)),
      (''filterType'', JObj [(''simple'', JBool (simple (filterType p))), (''advanced'', JBool (advanced (filterType p)))])] @
     (case mmsi p of None \<Rightarrow> [] | Some s \<Rightarrow> [(''mmsi'', JStr s)]) @
     [(''startDate'', JNum (startDate p)), (''endDate'', JNum (endDate p)),
      (''area'', area_to_json (area p)),
      (''outputFormat'', JStr (outputFormat p)),
      list_member ''outputTableFields'' (outputTableFields p),
      (''outputTableSeparator'', JStr (outputTableSeparator p)),
      (''outputTableHeader'', JBool (outputTableHeader p))] @
     num_member ''limit'' (limit p) @ num_member ''minDistance'' (minDistance p) @
     num_member ''minDuration'' (minDuration p) @ num_member ''duplicateWindow'' (duplicateWindow p)"

definition params_to_json :: "search_params \<Rightarrow> json" where
  "params_to_json p = JObj (params_members p)"

text \<open>Reading a member: the last one of a name counts. \<open>None\<close> is a value of another type.\<close>

definition member :: "(string \<times> json) list \<Rightarrow> string \<Rightarrow> json option" where
  "member ms k = map_of (rev ms) k"

definition num_of :: "json option \<Rightarrow> jsnum option option" where
  "num_of j = (case j of None \<Rightarrow> Some None | Some JNull \<Rightarrow> Some None | Some (JNum x) \<Rightarrow> Some (Some x) | _ \<Rightarrow> None)"

definition str_of :: "json option \<Rightarrow> string option" where
  "str_of j = (case j of Some (JStr s) \<Rightarrow> Some s | _ \<Rightarrow> None)"

definition bool_of :: "json option \<Rightarrow> bool option" where
  "bool_of j = (case j of Some (JBool b) \<Rightarrow> Some b | _ \<Rightarrow> None)"

fun strs_of_list :: "json list \<Rightarrow> string list option" where
  "strs_of_list [] = Some []"
| "strs_of_list (j # js) = (case (str_of (Some j), strs_of_list js) of (Some s, Some ss) \<Rightarrow> Some (s # ss) | _ \<Rightarrow> None)"

definition strs_of :: "json option \<Rightarrow> string list option" where
  "strs_of j = (case j of Some (JArr js) \<Rightarrow> strs_of_list js | _ \<Rightarrow> None)"

definition area_of :: "json option \<Rightarrow> area option" where
  "area_of j = (case j of
     Some (JObj ms) \<Rightarrow> do {
       a \<leftarrow> num_of (member ms ''maxLat''); b \<leftarrow> num_of (member ms ''maxLon'');
       c \<leftarrow> num_of (member ms ''minLat''); d \<leftarrow> num_of (member ms ''minLon'');
       Some \<lparr>maxLat = a, maxLon = b, minLat = c, minLon = d\<rparr>
     } | _ \<Rightarrow> None)"

definition filter_type_of :: "json option \<Rightarrow> filter_type option" where
  "filter_type_of j = (case j of
     Some (JObj ms) \<Rightarrow> do {
       a \<leftarrow> bool_of (member ms ''simple''); b \<leftarrow> bool_of (member ms ''advanced'');
       Some \<lparr>simple = a, advanced = b\<rparr>
     } | _ \<Rightarrow> None)"

text \<open>The MMSI field is a string or missing.\<close>

definition opt_str_of :: "json option \<Rightarrow> string option option" where
  "opt_str_of j = (case j of None \<Rightarrow> Some None | Some JNull \<Rightarrow> Some None | Some (JStr s) \<Rightarrow> Some (Some s) | _ \<Rightarrow> None)"

definition params_of_members :: "(string \<times> json) list \<Rightarrow> search_params option" where
  "params_of_members ms = do {
     v \<leftarrow> num_of (member ms ''version'');
     st \<leftarrow> str_of (member ms ''sourceTxt''); sy \<leftarrow> str_of (member ms ''sourceType'');
     sb \<leftarrow> strs_of (member ms ''sourceBs''); sc \<leftarrow> strs_of (member ms ''sourceCountries'');
     sr \<leftarrow> strs_of (member ms ''sourceRegions'');
     tt \<leftarrow> str_of (member ms ''targetTxt'');
     tc \<leftarrow> strs_of (member ms ''targetCountries''); ti \<leftarrow> strs_of (member ms ''targetImos'');
     tn \<leftarrow> strs_of (member ms ''targetNames''); ts \<leftarrow> strs_of (member ms ''targetCallsigns'');
     ty \<leftarrow> strs_of (member ms ''targetTypes''); ta \<leftarrow> strs_of (member ms ''targetNavstats'');
     mt \<leftarrow> str_of (member ms ''messageTxt'');
     mc \<leftarrow> strs_of (member ms ''messageCountries''); mm \<leftarrow> strs_of (member ms ''messageMmsi'');
     mi \<leftarrow> strs_of (member ms ''messageImos''); mn \<leftarrow> strs_of (member ms ''messageNames'');
     mk \<leftarrow> strs_of (member ms ''messageCallsigns''); my \<leftarrow> strs_of (member ms ''messageTypes'');
     ma \<leftarrow> strs_of (member ms ''messageNavstats'');
     af \<leftarrow> str_of (member ms ''advancedFilter''); ft \<leftarrow> filter_type_of (member ms ''filterType'');
     mo \<leftarrow> opt_str_of (member ms ''mmsi'');
     sd \<leftarrow> num_of (member ms ''startDate''); sd \<leftarrow> sd;
     ed \<leftarrow> num_of (member ms ''endDate''); ed \<leftarrow> ed;
     ar \<leftarrow> area_of (member ms ''area'');
     ofm \<leftarrow> str_of (member ms ''outputFormat''); off \<leftarrow> strs_of (member ms ''outputTableFields'');
     os \<leftarrow> str_of (member ms ''outputTableSeparator''); oh \<leftarrow> bool_of (member ms ''outputTableHeader'');
     li \<leftarrow> num_of (member ms ''limit''); di \<leftarrow> num_of (member ms ''minDistance'');
     du \<leftarrow> num_of (member ms ''minDuration''); dw \<leftarrow> num_of (member ms ''duplicateWindow'');
     Some \<lparr>version = v, sourceTxt = st, sourceType = sy, sourceBs = sb, sourceCountries = sc, sourceRegions = sr,
       targetTxt = tt, targetCountries = tc, targetImos = ti, targetNames = tn, targetCallsigns = ts,
       targetTypes = ty, targetNavstats = ta,
       messageTxt = mt, messageCountries = mc, messageMmsi = mm, messageImos = mi, messageNames = mn,
       messageCallsigns = mk, messageTypes = my, messageNavstats = ma,
       advancedFilter = af, filterType = ft, mmsi = mo, startDate = sd, endDate = ed, area = ar,
       outputFormat = ofm, outputTableFields = off, outputTableSeparator = os, outputTableHeader = oh,
       limit = li, minDistance = di, minDuration = du, duplicateWindow = dw\<rparr>
   }"

definition params_of_json :: "json \<Rightarrow> search_params option" where
  "params_of_json j = (case j of JObj ms \<Rightarrow> params_of_members ms | _ \<Rightarrow> None)"

subsection \<open>Stored parameters are read back\<close>

definition storable_num :: "jsnum \<Rightarrow> bool" where
  "storable_num x \<longleftrightarrow> wf_num x \<and> is_finite x \<and> x \<noteq> NZero"

definition storable_opt :: "jsnum option \<Rightarrow> bool" where
  "storable_opt v = (case v of None \<Rightarrow> True | Some x \<Rightarrow> storable_num x)"

text \<open>Parameters whose numbers are finite (and not a negative zero).\<close>

definition storable :: "search_params \<Rightarrow> bool" where
  "storable p \<longleftrightarrow> storable_opt (version p) \<and> storable_num (startDate p) \<and> storable_num (endDate p) \<and>
     storable_opt (maxLat (area p)) \<and> storable_opt (maxLon (area p)) \<and>
     storable_opt (minLat (area p)) \<and> storable_opt (minLon (area p)) \<and>
     storable_opt (limit p) \<and> storable_opt (minDistance p) \<and> storable_opt (minDuration p) \<and>
     storable_opt (duplicateWindow p)"

lemma member_simps [simp]:
  "member [] k = None"
  "member ((k', j) # ms) k = (case member ms k of None \<Rightarrow> if k = k' then Some j else None | Some x \<Rightarrow> Some x)"
  "member (ms @ ms') k = (case member ms' k of None \<Rightarrow> member ms k | Some x \<Rightarrow> Some x)"
  by (simp_all add: member_def map_of_append map_add_def split: option.split)

lemma member_num_member [simp]: "member (num_member k' v) k = (if k = k' then map_option JNum v else None)"
  by (simp add: num_member_def split: option.split)

lemma member_list_member [simp]: "member (list_member k' ss # ms) k =
    (case member ms k of None \<Rightarrow> if k = k' then Some (JArr (map JStr ss)) else None | Some x \<Rightarrow> Some x)"
  by (simp add: list_member_def)

lemma num_of_simps [simp]: "num_of None = Some None" "num_of (map_option JNum v) = Some v" "num_of (Some (JNum x)) = Some (Some x)"
  by (simp_all add: num_of_def split: option.split)

lemma of_simps [simp]:
  "str_of (Some (JStr s)) = Some s" "bool_of (Some (JBool b)) = Some b" "strs_of (Some (JArr (map JStr ss))) = Some ss"
proof -
  have "strs_of_list (map JStr ss) = Some ss" by (induction ss) (simp_all add: str_of_def)
  then show "strs_of (Some (JArr (map JStr ss))) = Some ss" by (simp add: strs_of_def)
qed (simp_all add: str_of_def bool_of_def)

lemma area_read: "area_of (Some (area_to_json a)) = Some a"
  by (simp add: area_of_def area_to_json_def split: option.split)

lemma filter_type_read:
  "filter_type_of (Some (JObj [(''simple'', JBool (simple f)), (''advanced'', JBool (advanced f))])) = Some f"
  by (simp add: filter_type_of_def)

lemma member_lookups:
  fixes p :: search_params
  defines "ms \<equiv> params_members p"
  shows
    "member ms ''version'' = map_option JNum (version p)"
    "member ms ''sourceTxt'' = Some (JStr (sourceTxt p))"
    "member ms ''sourceType'' = Some (JStr (sourceType p))"
    "member ms ''sourceBs'' = Some (JArr (map JStr (sourceBs p)))"
    "member ms ''sourceCountries'' = Some (JArr (map JStr (sourceCountries p)))"
    "member ms ''sourceRegions'' = Some (JArr (map JStr (sourceRegions p)))"
    "member ms ''targetTxt'' = Some (JStr (targetTxt p))"
    "member ms ''targetCountries'' = Some (JArr (map JStr (targetCountries p)))"
    "member ms ''targetImos'' = Some (JArr (map JStr (targetImos p)))"
    "member ms ''targetNames'' = Some (JArr (map JStr (targetNames p)))"
    "member ms ''targetCallsigns'' = Some (JArr (map JStr (targetCallsigns p)))"
    "member ms ''targetTypes'' = Some (JArr (map JStr (targetTypes p)))"
    "member ms ''targetNavstats'' = Some (JArr (map JStr (targetNavstats p)))"
    "member ms ''messageTxt'' = Some (JStr (messageTxt p))"
    "member ms ''messageCountries'' = Some (JArr (map JStr (messageCountries p)))"
    "member ms ''messageMmsi'' = Some (JArr (map JStr (messageMmsi p)))"
    "member ms ''messageImos'' = Some (JArr (map JStr (messageImos p)))"
    "member ms ''messageNames'' = Some (JArr (map JStr (messageNames p)))"
    "member ms ''messageCallsigns'' = Some (JArr (map JStr (messageCallsigns p)))"
    "member ms ''messageTypes'' = Some (JArr (map JStr (messageTypes p)))"
    "member ms ''messageNavstats'' = Some (JArr (map JStr (messageNavstats p)))"
    "member ms ''advancedFilter'' = Some (JStr (advancedFilter p))"
    "member ms ''startDate'' = Some (JNum (startDate p))"
    "member ms ''endDate'' = Some (JNum (endDate p))"
    "member ms ''outputFormat'' = Some (JStr (outputFormat p))"
    "member ms ''outputTableFields'' = Some (JArr (map JStr (outputTableFields p)))"
    "member ms ''outputTableSeparator'' = Some (JStr (outputTableSeparator p))"
    "member ms ''outputTableHeader'' = Some (JBool (outputTableHeader p))"
    "member ms ''limit'' = map_option JNum (limit p)"
    "member ms ''minDistance'' = map_option JNum (minDistance p)"
    "member ms ''minDuration'' = map_option JNum (minDuration p)"
    "member ms ''duplicateWindow'' = map_option JNum (duplicateWindow p)"
    "member ms ''area'' = Some (area_to_json (area p))"
    "member ms ''mmsi'' = map_option JStr (mmsi p)"
    "member ms ''filterType'' = Some (JObj [(''simple'', JBool (simple (filterType p))), (''advanced'', JBool (advanced (filterType p)))])"
  unfolding ms_def params_members_def by (simp_all split: option.split)

lemma params_read: "params_of_members (params_members p) = Some p"
proof -
  have "opt_str_of (map_option JStr s) = Some s" for s by (simp add: opt_str_of_def split: option.split)
  then show ?thesis
    by (simp add: params_of_members_def member_lookups area_read filter_type_read)
qed

lemma stored_num_member: "storable_opt v \<Longrightarrow> map (\<lambda>(k, j). (k, stored_value j)) (num_member k v) = num_member k v"
  by (auto simp: storable_opt_def num_member_def storable_num_def unsigned_zero_def split: option.splits)

lemma stored_list_member [simp]: "(case list_member k ss of (k, j) \<Rightarrow> (k, stored_value j)) = list_member k ss"
  by (simp add: list_member_def comp_def)

lemma stored_list_member' [simp]: "(\<lambda>(k, j). (k, stored_value j)) (list_member k ss) = list_member k ss"
  by (simp add: list_member_def comp_def)

lemma stored_area:
  assumes "storable p"
  shows "stored_value (area_to_json (area p)) = area_to_json (area p)"
  using assms by (simp add: area_to_json_def storable_def stored_num_member)

lemma stored_params: "storable p \<Longrightarrow> stored_value (params_to_json p) = params_to_json p"
  by (simp add: params_to_json_def params_members_def stored_num_member stored_area)
    (auto simp: storable_def stored_num_member storable_num_def unsigned_zero_def split: option.split)

lemma wf_num_member: "storable_opt v \<Longrightarrow> (k', j) \<in> set (num_member k v) \<Longrightarrow> wf_json j"
  by (auto simp: storable_opt_def num_member_def storable_num_def split: option.splits)

lemma wf_list_member: "(k', j) = list_member k ss \<Longrightarrow> wf_json j"
  by (auto simp: list_member_def)

lemma wf_params: "storable p \<Longrightarrow> wf_json (params_to_json p)"
proof -
  assume s: "storable p"
  have a: "wf_json (area_to_json (area p))"
    using s by (auto simp: area_to_json_def storable_def dest: wf_num_member)
  have l: "(case list_member k ss of (k, j) \<Rightarrow> wf_json j)" for k ss
    by (simp add: list_member_def)
  show ?thesis
    using s a unfolding params_to_json_def params_members_def wf_json.simps ball_Un set_append
    by (simp add: l storable_def storable_num_def split: option.split) (auto dest: wf_num_member)
qed

text \<open>
  Saved search parameters come back: writing them as JSON text and reading the text
  gives the same parameters, for all strings in them and all finite numbers.
\<close>

theorem params_json_roundtrip:
  assumes "storable p"
  shows "Option.bind (json_parse (stringify (params_to_json p))) params_of_json = Some p"
  using json_parse_stringify [OF wf_params [OF assms]] stored_params [OF assms] params_read
  by (simp add: params_of_json_def params_to_json_def)

lemma params_json_roundtrip_witness:
  "Option.bind (json_parse (stringify (params_to_json (clearParams sample_moment (Fin 0) (Fin 0))))) params_of_json =
     Some (clearParams sample_moment (Fin 0) (Fin 0))"
proof -
  have "wf_num (Fin (of_int k))" if "\<bar>k\<bar> \<le> 1000000" for k
    using that pow_less_overflow [of 20] representable_of_int [of k] by (simp add: wf_Fin del: wf_num.simps)
  from this [of 0] this [of 600000] this [of 1] have "storable (clearParams sample_moment (Fin 0) (Fin 0))"
    by (simp add: storable_def storable_opt_def storable_num_def clearParams_def sample_moment_def service_version_def
        no_area_def del: wf_num.simps)
  then show ?thesis by (rule params_json_roundtrip)
qed

end
