(* ===== verification/Service.thy ===== *)
theory Service
  imports Params
begin

text \<open>
  \<open>js/app-service.js\<close>, the factory \<open>AisQueryService\<close>: the browser storage that keeps the search
  parameters and the client id, and the requests the service sends.
\<close>

subsection \<open>The browser storage\<close>

text \<open>The two slots of the local storage that the service uses.\<close>

record storage =
  stored_clientId :: "string option"
  stored_params :: "string option"

definition reset :: "storage \<Rightarrow> storage" where
  "reset st = \<lparr>stored_clientId = None, stored_params = None\<rparr>"

text \<open>
  What is in the storage need not be what this program wrote. The tests on the parsed value:
  whether it is true in a condition, and whether its \<open>version\<close> is loosely equal to the
  version of the service (strings, booleans and arrays are converted to numbers).
\<close>

fun json_truthy :: "json \<Rightarrow> bool" where
  "json_truthy JNull = False"
| "json_truthy (JBool b) = b"
| "json_truthy (JNum x) = num_truthy x"
| "json_truthy (JStr s) = (s \<noteq> [])"
| "json_truthy _ = True"

fun json_text :: "json \<Rightarrow> string" where
  "json_text JNull = ''null''"
| "json_text (JBool b) = (if b then ''true'' else ''false'')"
| "json_text (JNum x) = num_to_string x"
| "json_text (JStr s) = s"
| "json_text (JArr js) = join '','' (map (\<lambda>j. if j = JNull then [] else json_text j) js)"
| "json_text (JObj ms) = ''[object Object]''"

definition equals_version :: "json \<Rightarrow> bool" where
  "equals_version j =
     (case j of
        JNull \<Rightarrow> False
      | JBool b \<Rightarrow> num_eq (Fin (if b then 1 else 0)) service_version
      | JNum x \<Rightarrow> num_eq x service_version
      | _ \<Rightarrow> num_eq (to_number (json_text j)) service_version)"

definition version_of :: "json \<Rightarrow> json option" where
  "version_of j = (case j of JObj ms \<Rightarrow> member ms ''version'' | _ \<Rightarrow> None)"

text \<open>
  The result is \<open>Inl\<close> for a stored value that passes these tests without being search
  parameters: the code returns it as it is.
\<close>

definition getSearchParams :: "moment \<Rightarrow> jsnum \<Rightarrow> jsnum \<Rightarrow> storage \<Rightarrow> json + search_params" where
  "getSearchParams M t1 t2 st =
     (case Option.bind (stored_params st) json_parse of
        None \<Rightarrow> Inr (clearParams M t1 t2)
      | Some j \<Rightarrow>
          if \<not> json_truthy j \<or> \<not> (case version_of j of None \<Rightarrow> False | Some v \<Rightarrow> equals_version v)
          then Inr (clearParams M t1 t2)
          else (case params_of_json j of Some p \<Rightarrow> Inr p | None \<Rightarrow> Inl j))"

text \<open>Storing may fail when the storage is full: \<open>fits\<close> tells which texts it takes.\<close>

definition saveSearchParams :: "(string \<Rightarrow> bool) \<Rightarrow> search_params \<Rightarrow> storage \<Rightarrow> storage" where
  "saveSearchParams fits p st =
     (let s = stringify (params_to_json p) in if fits s then st\<lparr>stored_params := Some s\<rparr> else st)"

subsection \<open>The client id\<close>

text \<open>One hexadecimal digit, from a random number of the interval from 0 to 1, 1 excluded.\<close>

definition hex_lower :: "nat \<Rightarrow> char" where
  "hex_lower d = (if d < 10 then digit_char d else char_of (87 + d))"

definition uuid_digit :: "char \<Rightarrow> rat \<Rightarrow> char" where
  "uuid_digit c random =
     (let r = nat \<lfloor>random * 16\<rfloor>; v = (if c = CHR ''x'' then r else or (and r 3) 8) in hex_lower v)"

fun uuid_fill :: "string \<Rightarrow> rat list \<Rightarrow> string" where
  "uuid_fill [] rs = []"
| "uuid_fill (c # s) rs =
     (if c = CHR ''x'' \<or> c = CHR ''y'' then uuid_digit c (hd rs) # uuid_fill s (tl rs)
      else c # uuid_fill s rs)"

definition uuid_template :: string where
  "uuid_template = ''xxxxxxxx-xxxx-4xxx-yxxx-xxxxxxxxxxxx''"

definition clientId :: "rat list \<Rightarrow> storage \<Rightarrow> string \<times> storage" where
  "clientId rs st =
     (case stored_clientId st of
        Some (c # s) \<Rightarrow> (c # s, st)
      | _ \<Rightarrow> (let cid = uuid_fill uuid_template rs in (cid, st\<lparr>stored_clientId := Some cid\<rparr>)))"

subsection \<open>Requests\<close>

text \<open>Each operation returns the URL it asks for, and the storage (the client id may be new).\<close>

definition text_of_bool :: "bool \<Rightarrow> string" where
  "text_of_bool b = (if b then ''true'' else ''false'')"

definition openFile :: "string \<Rightarrow> string" where
  "openFile path = ''/downloader/query/file/'' @ path"

definition execute_url :: "rat list \<Rightarrow> string \<Rightarrow> bool \<Rightarrow> storage \<Rightarrow> string \<times> storage" where
  "execute_url rs ps async st =
     (let (cid, st') = clientId rs st
      in (''/downloader/query/execute/'' @ cid @ ''?async='' @ text_of_bool async @
          ''&params='' @ encodeURIComponent ps, st'))"

definition deleteFile_url :: "string \<Rightarrow> string" where
  "deleteFile_url path = ''/downloader/query/delete/'' @ path"

definition deleteFiles_url :: "rat list \<Rightarrow> storage \<Rightarrow> string \<times> storage" where
  "deleteFiles_url rs st =
     (let (cid, st') = clientId rs st in (''/downloader/query/delete-all/'' @ cid, st'))"

definition listFiles_url :: "rat list \<Rightarrow> storage \<Rightarrow> string \<times> storage" where
  "listFiles_url rs st =
     (let (cid, st') = clientId rs st in (''/downloader/query/list/'' @ cid, st'))"

definition validateFilter_url :: "string \<Rightarrow> string" where
  "validateFilter_url flt = ''/downloader/query/validate-filter?filter='' @ encodeURIComponent flt"

subsection \<open>The shape of a client id\<close>

definition uuid_char_ok :: "char \<Rightarrow> char \<Rightarrow> bool" where
  "uuid_char_ok t c =
     (if t = CHR ''x'' then c \<in> set ''0123456789abcdef''
      else if t = CHR ''y'' then c \<in> set ''89ab'' else c = t)"

definition is_uuid4 :: "string \<Rightarrow> bool" where
  "is_uuid4 s = list_all2 uuid_char_ok uuid_template s"

definition random_ok :: "rat \<Rightarrow> bool" where
  "random_ok r \<longleftrightarrow> 0 \<le> r \<and> r < 1"

lemma hex_lower_set: "d < 16 \<Longrightarrow> hex_lower d \<in> set ''0123456789abcdef''"
proof -
  have "\<forall>d\<in>set [0..<16]. hex_lower d \<in> set ''0123456789abcdef''" by code_simp
  then show "d < 16 \<Longrightarrow> hex_lower d \<in> set ''0123456789abcdef''" by simp
qed

lemma variant_set: "d < 16 \<Longrightarrow> hex_lower (or (and d 3) 8) \<in> set ''89ab''"
proof -
  have "\<forall>d\<in>set [0..<16]. hex_lower (or (and d 3) 8) \<in> set ''89ab''" by code_simp
  then show "d < 16 \<Longrightarrow> hex_lower (or (and d 3) 8) \<in> set ''89ab''" by simp
qed

lemma random_nibble:
  assumes "random_ok r"
  shows "nat \<lfloor>r * 16\<rfloor> < 16"
proof -
  have "0 \<le> r * 16" "r * 16 < 16" using assms by (simp_all add: random_ok_def)
  then show ?thesis using floor_bounds [of "r * 16"] by (simp add: nat_less_iff floor_less_iff)
qed

lemma uuid_digit_ok: "random_ok r \<Longrightarrow> t = CHR ''x'' \<or> t = CHR ''y'' \<Longrightarrow> uuid_char_ok t (uuid_digit t r)"
  using hex_lower_set [OF random_nibble, of r] variant_set [OF random_nibble, of r]
  by (auto simp: uuid_char_ok_def uuid_digit_def Let_def)

lemma uuid_fill_ok:
  "\<forall>r\<in>set rs. random_ok r \<Longrightarrow> length (filter (\<lambda>c. c = CHR ''x'' \<or> c = CHR ''y'') s) \<le> length rs \<Longrightarrow>
   list_all2 uuid_char_ok s (uuid_fill s rs)"
proof (induction s rs rule: uuid_fill.induct)
  case (2 c s rs)
  show ?case
  proof (cases "c = CHR ''x'' \<or> c = CHR ''y''")
    case True
    with 2(4) obtain r rs' where rs: "rs = r # rs'" by (cases rs) auto
    have "list_all2 uuid_char_ok s (uuid_fill s rs')"
      using 2(1) [OF True] 2(3,4) True by (simp add: rs)
    with True 2(3) uuid_digit_ok [of r c] show ?thesis by (simp add: rs)
  next
    case False
    then have "list_all2 uuid_char_ok s (uuid_fill s rs)" using 2 by simp
    moreover have "uuid_char_ok c c" using False by (simp add: uuid_char_ok_def)
    ultimately show ?thesis using False by simp
  qed
qed simp

lemma uuid_fill_not_Nil: "uuid_fill uuid_template rs \<noteq> []"
  by (simp add: uuid_template_def)

lemma clientId_cases:
  obtains c s where "stored_clientId st = Some (c # s)" "clientId rs st = (c # s, st)"
  | "stored_clientId st = None \<or> stored_clientId st = Some []"
    "clientId rs st = (uuid_fill uuid_template rs, st\<lparr>stored_clientId := Some (uuid_fill uuid_template rs)\<rparr>)"
  by (cases "stored_clientId st"; cases "the (stored_clientId st)") (auto simp: clientId_def Let_def)

subsection \<open>Theorems\<close>

text \<open>
  A browser without a client id gets a version 4 UUID: 36 characters, the version digit
  4, a variant digit among 8, 9, a and b, and hexadecimal digits elsewhere.
\<close>

theorem clientId_is_uuid4:
  assumes "stored_clientId st = None" "length rs = 31" "\<forall>r\<in>set rs. random_ok r"
  shows "is_uuid4 (fst (clientId rs st)) \<and> stored_clientId (snd (clientId rs st)) = Some (fst (clientId rs st))"
proof -
  have "length (filter (\<lambda>c. c = CHR ''x'' \<or> c = CHR ''y'') uuid_template) = 31" by code_simp
  then have "is_uuid4 (uuid_fill uuid_template rs)"
    unfolding is_uuid4_def using assms by (intro uuid_fill_ok) simp_all
  with assms(1) show ?thesis by (simp add: clientId_def Let_def)
qed

lemma clientId_is_uuid4_witness:
  "is_uuid4 (fst (clientId (replicate 31 (1/3)) \<lparr>stored_clientId = None, stored_params = None\<rparr>))"
  using clientId_is_uuid4 [of "\<lparr>stored_clientId = None, stored_params = None\<rparr>" "replicate 31 (1/3)"]
  by (simp add: random_ok_def)

text \<open>
  The client id is stable: once the service has returned an id, every later call returns
  the same one and leaves the storage alone, and asking for it never touches the parameters.
\<close>

theorem clientId_stable:
  "clientId rs' (snd (clientId rs st)) = clientId rs st \<and>
   stored_params (snd (clientId rs st)) = stored_params st"
proof (rule clientId_cases [of st rs])
  fix c s
  assume "stored_clientId st = Some (c # s)" "clientId rs st = (c # s, st)"
  then show ?thesis by (simp add: clientId_def)
next
  assume "clientId rs st = (uuid_fill uuid_template rs, st\<lparr>stored_clientId := Some (uuid_fill uuid_template rs)\<rparr>)"
  then show ?thesis using uuid_fill_not_Nil [of rs] by (auto simp: clientId_def Let_def split: list.splits)
qed

lemma execute_url_query:
  "\<exists>q. fst (execute_url rs ps async st) = ''/downloader/query/execute/'' @ fst (clientId rs st) @ ''?'' @ q \<and>
       query_params q = [(''async'', Some (text_of_bool async)), (''params'', Some ps)]"
proof -
  have b: "plain (text_of_bool async)" by (simp add: text_of_bool_def)
  let ?q = "wire (''async'', text_of_bool async) @ ''&'' @ wire (''params'', encodeURIComponent ps)"
  have n: "CHR ''&'' \<notin> set (wire (''async'', text_of_bool async))" "CHR ''&'' \<notin> set (wire (''params'', encodeURIComponent ps))"
    using plain_no_amp [OF b] by (simp_all add: wire_def)
  have "query_params ?q = [(''async'', Some (text_of_bool async)), (''params'', Some ps)]"
    using n by (simp add: query_params_def split_on_append split_on_no_sep query_pair_wire decode_plain [OF b])
  moreover have "fst (execute_url rs ps async st) = ''/downloader/query/execute/'' @ fst (clientId rs st) @ ''?'' @ ?q"
    by (simp add: execute_url_def wire_def split: prod.splits)
  ultimately show ?thesis by blast
qed

text \<open>
  The server receives exactly the text that was passed: the query part of an execute
  request has two parameters, and decoding the second gives the text back, whatever
  characters it has. The request that validates a filter is read the same way.
\<close>

theorem service_requests_received:
  "(\<exists>q. fst (execute_url rs ps async st) = ''/downloader/query/execute/'' @ fst (clientId rs st) @ ''?'' @ q \<and>
       query_params q = [(''async'', Some (text_of_bool async)), (''params'', Some ps)]) \<and>
   (\<exists>v. validateFilter_url flt = ''/downloader/query/validate-filter?'' @ v \<and>
        query_params v = [(''filter'', Some flt)])"
proof -
  have "CHR ''&'' \<notin> set (wire (''filter'', encodeURIComponent flt))" by (simp add: wire_def)
  then have "query_params (wire (''filter'', encodeURIComponent flt)) = [(''filter'', Some flt)]"
    by (simp add: query_params_def split_on_no_sep query_pair_wire)
  moreover have "validateFilter_url flt = ''/downloader/query/validate-filter?'' @ wire (''filter'', encodeURIComponent flt)"
    by (simp add: validateFilter_url_def wire_def)
  ultimately show ?thesis using execute_url_query [of rs ps async st] by blast
qed

lemma saved_params_read:
  assumes "storable p" "version p = Some service_version" "fits (stringify (params_to_json p))"
  shows "getSearchParams M t1 t2 (saveSearchParams fits p st) = Inr p"
proof -
  have j: "json_parse (stringify (params_to_json p)) = Some (params_to_json p)"
    using json_parse_stringify [OF wf_params [OF assms(1)]] stored_params [OF assms(1)] by simp
  have "version_of (params_to_json p) = Some (JNum service_version)"
    using assms(2) by (simp add: version_of_def params_to_json_def member_lookups)
  moreover have "equals_version (JNum service_version)"
    by (simp add: equals_version_def service_version_def num_eq_def)
  moreover have "params_of_json (params_to_json p) = Some p"
    by (simp add: params_of_json_def params_to_json_def params_read)
  moreover have "json_truthy (params_to_json p)" by (simp add: params_to_json_def)
  ultimately show ?thesis
    using assms(3) by (simp add: getSearchParams_def saveSearchParams_def Let_def j)
qed

text \<open>
  The parameters survive a visit: what was saved is what the next page gets, for
  parameters of the current version with finite numbers; and whatever is in the storage,
  parameters that are returned have the current version.
\<close>

theorem saved_params_restored:
  assumes "storable p" "version p = Some service_version" "fits (stringify (params_to_json p))"
  shows "getSearchParams M t1 t2 (saveSearchParams fits p st) = Inr p"
  by (rule saved_params_read [where fits = fits, OF assms])

lemma clearParams_storable: "storable (clearParams sample_moment (Fin 0) (Fin 0))"
proof -
  have "wf_num (Fin (of_int k))" if "\<bar>k\<bar> \<le> 1000000" for k
    using that pow_less_overflow [of 20] representable_of_int [of k] by (simp add: wf_Fin del: wf_num.simps)
  from this [of 0] this [of 600000] this [of 1] show ?thesis
    by (simp add: storable_def storable_opt_def storable_num_def clearParams_def sample_moment_def service_version_def
        no_area_def del: wf_num.simps)
qed

lemma saved_params_restored_witness:
  "getSearchParams sample_moment (Fin 9) (Fin 9)
     (saveSearchParams (\<lambda>_. True) (clearParams sample_moment (Fin 0) (Fin 0)) \<lparr>stored_clientId = None, stored_params = None\<rparr>) =
   Inr (clearParams sample_moment (Fin 0) (Fin 0))"
  by (rule saved_params_restored [OF clearParams_storable]) (simp_all add: clearParams_def)

text \<open>
  Storage that this version did not write does not get in: no text, a text that is not
  JSON, a value that is no object, and an object of another version all give the default
  parameters.
\<close>

theorem foreign_storage_cleared:
  assumes "stored_params st = None \<or> Option.bind (stored_params st) json_parse = None \<or>
    (\<exists>j. Option.bind (stored_params st) json_parse = Some j \<and>
       (case version_of j of None \<Rightarrow> True | Some v \<Rightarrow> \<not> equals_version v))"
  shows "getSearchParams M t1 t2 st = Inr (clearParams M t1 t2)"
  using assms by (auto simp: getSearchParams_def split: option.splits)

lemma foreign_storage_cleared_witness:
  "getSearchParams sample_moment (Fin 0) (Fin 0) \<lparr>stored_clientId = None, stored_params = Some ''[1,2''\<rparr> =
   Inr (clearParams sample_moment (Fin 0) (Fin 0))"
proof -
  have "json_parse ''[1,2'' = None" by code_simp
  then show ?thesis using foreign_storage_cleared [of "\<lparr>stored_clientId = None, stored_params = Some ''[1,2''\<rparr>"] by simp
qed

end
