(* ===== verification/DownloadUrl.thy ===== *)
theory DownloadUrl
  imports Service
begin

text \<open>
  \<open>js/app-ctrl.js\<close>, the text of a query: \<open>areaDefined\<close>, \<open>encodeValues\<close> and
  \<open>updateDownloadUrl\<close>. The steps of \<open>updateDownloadUrl\<close> that extend \<open>url\<close> are one definition
  each, in the order of the code. The specification is the list of named parameters that the
  server should see.
\<close>

subsection \<open>Conditions\<close>

definition areaDefined :: "search_params \<Rightarrow> bool" where
  "areaDefined p = (let a = area p in
     truthy (maxLat a) \<and> truthy (maxLon a) \<and> truthy (minLat a) \<and> truthy (minLon a))"

definition encodeValues :: "string list \<Rightarrow> string list" where
  "encodeValues vals = foldl (\<lambda>enc v. enc @ [encodeURIComponent v]) [] vals"

subsection \<open>The filter\<close>

definition simple_filter :: "search_params \<Rightarrow> string" where
  "simple_filter p =
     (let flt = [];
          flt = (if sourceType p = ''SAT'' \<or> sourceType p = ''LIVE'' then flt @ '' & s.type='' @ sourceType p else flt);
          flt = (if length (sourceBs p) > 0 then flt @ '' & s.bs='' @ join '','' (encodeValues (sourceBs p)) else flt);
          flt = (if length (sourceCountries p) > 0 then flt @ '' & s.country='' @ join '','' (sourceCountries p) else flt);
          flt = (if length (sourceRegions p) > 0 then flt @ '' & s.region='' @ join '','' (encodeValues (sourceRegions p)) else flt);
          flt = (if length (targetCountries p) > 0 then flt @ '' & t.country='' @ join '','' (targetCountries p) else flt);
          flt = (if length (targetImos p) > 0 then flt @ '' & t.imo='' @ join '','' (encodeValues (targetImos p)) else flt);
          flt = (if length (targetNames p) > 0 then flt @ '' & t.name='' @ join '','' (encodeValues (targetNames p)) else flt);
          flt = (if length (targetCallsigns p) > 0 then flt @ '' & t.cs='' @ join '','' (encodeValues (targetCallsigns p)) else flt);
          flt = (if length (targetTypes p) > 0 then flt @ '' & t.type='' @ join '','' (targetTypes p) else flt);
          flt = (if length (targetNavstats p) > 0 then flt @ '' & t.navstat='' @ join '','' (encodeValues (targetNavstats p)) else flt);
          flt = (if length (messageCountries p) > 0 then flt @ '' & m.country='' @ join '','' (messageCountries p) else flt);
          flt = (if length (messageMmsi p) > 0 then flt @ '' & m.mmsi='' @ join '','' (encodeValues (messageMmsi p)) else flt);
          flt = (if length (messageImos p) > 0 then flt @ '' & m.imo='' @ join '','' (encodeValues (messageImos p)) else flt);
          flt = (if length (messageNames p) > 0 then flt @ '' & m.name='' @ join '','' (encodeValues (messageNames p)) else flt);
          flt = (if length (messageCallsigns p) > 0 then flt @ '' & m.cs='' @ join '','' (encodeValues (messageCallsigns p)) else flt);
          flt = (if length (messageTypes p) > 0 then flt @ '' & m.type='' @ join '','' (messageTypes p) else flt);
          flt = (if length (messageNavstats p) > 0 then flt @ '' & m.navstat='' @ join '','' (encodeValues (messageNavstats p)) else flt)
      in flt)"

definition add_filter :: "search_params \<Rightarrow> string \<Rightarrow> string" where
  "add_filter p url =
     (if simple (filterType p) then
        (let flt = simple_filter p
         in if length flt > 0 then url @ ''&filter='' @ encodeURIComponent (drop 3 flt) else url)
      else if advanced (filterType p) \<and> advancedFilter p \<noteq> [] then
        url @ ''&filter='' @ encodeURIComponent (advancedFilter p)
      else url)"

subsection \<open>The other parts\<close>

definition mmsi_parts :: "string \<Rightarrow> string list" where
  "mmsi_parts s = split_on (CHR '' '') (map (\<lambda>c. if c = CHR '','' then CHR '' '' else c) s)"

definition add_mmsi :: "search_params \<Rightarrow> string \<Rightarrow> string" where
  "add_mmsi p url =
     (case mmsi p of
        None \<Rightarrow> url
      | Some s \<Rightarrow>
          if s = [] then url
          else foldl (\<lambda>url m. if m \<noteq> [] then url @ ''&mmsi='' @ trim m else url) url (mmsi_parts s))"

definition add_box :: "search_params \<Rightarrow> string \<Rightarrow> string" where
  "add_box p url =
     (if areaDefined p then
        (let a = area p
         in url @ ''&box='' @ to_fixed 3 (the (maxLat a)) @ '','' @ to_fixed 3 (the (minLon a)) @ '','' @
            to_fixed 3 (the (minLat a)) @ '','' @ to_fixed 3 (the (maxLon a)))
      else url)"

definition add_output :: "search_params \<Rightarrow> string \<Rightarrow> string" where
  "add_output p url =
     (let url = (if outputFormat p \<noteq> ''raw'' then url @ ''&output='' @ outputFormat p else url)
      in if outputFormat p = ''table'' then
           (let url = url @ ''&columns='' @ join '';'' (outputTableFields p);
                url = url @ ''&separator='' @ outputTableSeparator p
            in if \<not> outputTableHeader p then url @ ''&noHeader'' else url)
         else url)"

definition add_sampling :: "search_params \<Rightarrow> string \<Rightarrow> string" where
  "add_sampling p url =
     (let url = (if truthy (limit p) then url @ ''&limit='' @ num_to_string (the (limit p)) else url);
          url = (if truthy (minDistance p) then url @ ''&minDistance='' @ num_to_string (the (minDistance p)) else url);
          url = (if truthy (minDuration p) then url @ ''&minDuration=P0Y0M0DT0H0M'' @ num_to_string (the (minDuration p)) @ ''S'' else url)
      in if truthy (duplicateWindow p) then url @ ''&duplicateWindow='' @ num_to_string (the (duplicateWindow p)) else url)"

definition download_url :: "moment \<Rightarrow> search_params \<Rightarrow> string" where
  "download_url M p =
     (let url = ''interval='' @ utc_text M (startDate p) @ ''Z'' @ ''/'' @ utc_text M (endDate p) @ ''Z''
      in add_sampling p (add_output p (add_box p (add_mmsi p (add_filter p url)))))"

subsection \<open>Specification: the parameters the server should see\<close>

text \<open>The clauses of the simple filter: a name and its values, those without a value left out.\<close>

definition filter_clauses :: "search_params \<Rightarrow> (string \<times> string list) list" where
  "filter_clauses p = filter (\<lambda>c. snd c \<noteq> []) [
     (''s.type'', if sourceType p \<in> {''SAT'', ''LIVE''} then [sourceType p] else []),
     (''s.bs'', map encodeURIComponent (sourceBs p)),
     (''s.country'', sourceCountries p),
     (''s.region'', map encodeURIComponent (sourceRegions p)),
     (''t.country'', targetCountries p),
     (''t.imo'', map encodeURIComponent (targetImos p)),
     (''t.name'', map encodeURIComponent (targetNames p)),
     (''t.cs'', map encodeURIComponent (targetCallsigns p)),
     (''t.type'', targetTypes p),
     (''t.navstat'', map encodeURIComponent (targetNavstats p)),
     (''m.country'', messageCountries p),
     (''m.mmsi'', map encodeURIComponent (messageMmsi p)),
     (''m.imo'', map encodeURIComponent (messageImos p)),
     (''m.name'', map encodeURIComponent (messageNames p)),
     (''m.cs'', map encodeURIComponent (messageCallsigns p)),
     (''m.type'', messageTypes p),
     (''m.navstat'', map encodeURIComponent (messageNavstats p))]"

definition clause_text :: "string \<times> string list \<Rightarrow> string" where
  "clause_text c = fst c @ ''='' @ join '','' (snd c)"

definition filter_text :: "search_params \<Rightarrow> string" where
  "filter_text p = join '' & '' (map clause_text (filter_clauses p))"

definition filter_items :: "search_params \<Rightarrow> (string \<times> string) list" where
  "filter_items p =
     (if simple (filterType p) then (if filter_clauses p = [] then [] else [(''filter'', filter_text p)])
      else if advanced (filterType p) \<and> advancedFilter p \<noteq> [] then [(''filter'', advancedFilter p)] else [])"

definition mmsi_items :: "search_params \<Rightarrow> (string \<times> string) list" where
  "mmsi_items p =
     (case mmsi p of None \<Rightarrow> []
      | Some s \<Rightarrow> map (\<lambda>m. (''mmsi'', trim m)) (filter (\<lambda>m. m \<noteq> []) (mmsi_parts s)))"

definition box_items :: "search_params \<Rightarrow> (string \<times> string) list" where
  "box_items p =
     (if areaDefined p then
        [(''box'', join '','' (map (to_fixed 3 \<circ> the) [maxLat (area p), minLon (area p), minLat (area p), maxLon (area p)]))]
      else [])"

definition output_items :: "search_params \<Rightarrow> (string \<times> string) list" where
  "output_items p =
     (if outputFormat p = ''raw'' then [] else [(''output'', outputFormat p)]) @
     (if outputFormat p = ''table'' then
        [(''columns'', join '';'' (outputTableFields p)), (''separator'', outputTableSeparator p)] @
        (if outputTableHeader p then [] else [(''noHeader'', [])])
      else [])"

definition number_item :: "string \<Rightarrow> (string \<Rightarrow> string) \<Rightarrow> jsnum option \<Rightarrow> (string \<times> string) list" where
  "number_item k f v = (if truthy v then [(k, f (num_to_string (the v)))] else [])"

definition sampling_items :: "search_params \<Rightarrow> (string \<times> string) list" where
  "sampling_items p =
     number_item ''limit'' id (limit p) @ number_item ''minDistance'' id (minDistance p) @
     number_item ''minDuration'' (\<lambda>s. ''P0Y0M0DT0H0M'' @ s @ ''S'') (minDuration p) @
     number_item ''duplicateWindow'' id (duplicateWindow p)"

definition request :: "moment \<Rightarrow> search_params \<Rightarrow> (string \<times> string) list" where
  "request M p =
     (''interval'', utc_text M (startDate p) @ ''Z/'' @ utc_text M (endDate p) @ ''Z'') #
     filter_items p @ mmsi_items p @ box_items p @ output_items p @ sampling_items p"

text \<open>The fields that are pasted into the URL as they are.\<close>

definition raw_fields_plain :: "search_params \<Rightarrow> bool" where
  "raw_fields_plain p \<longleftrightarrow>
     (case mmsi p of None \<Rightarrow> True | Some s \<Rightarrow> plain s) \<and> plain (outputFormat p) \<and>
     (\<forall>f\<in>set (outputTableFields p). plain f) \<and> plain (outputTableSeparator p)"

subsection \<open>Each step appends its parameters\<close>

lemma encodeValues_map [simp]: "encodeValues vs = map encodeURIComponent vs"
proof -
  have "foldl (\<lambda>enc v. enc @ [encodeURIComponent v]) a vs = a @ map encodeURIComponent vs" for a
    by (induction vs arbitrary: a) simp_all
  then show ?thesis by (simp add: encodeValues_def)
qed

definition opt_clause :: "string \<times> string list \<Rightarrow> string" where
  "opt_clause c = (if snd c = [] then [] else '' & '' @ clause_text c)"

lemma concat_opt_clause:
  "concat (map opt_clause cs) = concat (map (\<lambda>c. '' & '' @ clause_text c) (filter (\<lambda>c. snd c \<noteq> []) cs))"
  by (induction cs) (simp_all add: opt_clause_def)

lemma stage_append: "(if b then f @ t else f) = f @ (if b then t else [])"
  by simp

lemma opt_clause_type:
  "opt_clause (k, if b then [v] else []) = (if b then '' & '' @ k @ ''='' @ v else [])"
  "opt_clause (k, xs) = (if xs \<noteq> [] then '' & '' @ k @ ''='' @ join '','' xs else [])"
  by (simp_all add: opt_clause_def clause_text_def)

lemma simple_filter_clauses:
  "simple_filter p = concat (map (\<lambda>c. '' & '' @ clause_text c) (filter_clauses p))"
  unfolding filter_clauses_def concat_opt_clause [symmetric] simple_filter_def Let_def stage_append encodeValues_map
    list.map opt_clause_type(1)
  by (simp add: opt_clause_type(2) split del: if_split cong: if_cong)

lemma filter_text_eq: "filter_text p = drop 3 (simple_filter p)"
proof (cases "filter_clauses p")
  case (Cons c cs)
  then show ?thesis by (simp add: filter_text_def simple_filter_clauses join_Cons_concat comp_def)
qed (simp add: filter_text_def simple_filter_clauses)

text \<open>The text of one parameter: the filter is encoded, \<open>noHeader\<close> has no value.\<close>

definition item_text :: "string \<times> string \<Rightarrow> string" where
  "item_text i = (if fst i = ''noHeader'' then fst i
     else wire (fst i, if fst i = ''filter'' then encodeURIComponent (snd i) else snd i))"

definition amp_items :: "(string \<times> string) list \<Rightarrow> string" where
  "amp_items ps = concat (map (\<lambda>i. ''&'' @ item_text i) ps)"

lemma amp_items_simps [simp]:
  "amp_items [] = []" "amp_items (i # ps) = ''&'' @ item_text i @ amp_items ps"
  "amp_items (ps @ qs) = amp_items ps @ amp_items qs"
  by (simp_all add: amp_items_def)

lemma amp_items_if: "amp_items (if b then ps else qs) = (if b then amp_items ps else amp_items qs)"
  by simp

lemma filter_clauses_empty: "simple_filter p = [] \<longleftrightarrow> filter_clauses p = []"
  by (cases "filter_clauses p") (simp_all add: simple_filter_clauses)

lemma add_filter_items: "add_filter p url = url @ amp_items (filter_items p)"
  by (simp add: add_filter_def filter_items_def Let_def filter_text_eq filter_clauses_empty item_text_def wire_def)

lemma mmsi_fold:
  "foldl (\<lambda>url m. if m \<noteq> [] then url @ ''&mmsi='' @ trim m else url) url ms =
   url @ amp_items (map (\<lambda>m. (''mmsi'', trim m)) (filter (\<lambda>m. m \<noteq> []) ms))"
  by (induction ms arbitrary: url) (simp_all add: item_text_def wire_def)

lemma add_mmsi_items: "add_mmsi p url = url @ amp_items (mmsi_items p)"
  using mmsi_fold by (auto simp: add_mmsi_def mmsi_items_def mmsi_parts_def split: option.splits)

lemma add_box_items: "add_box p url = url @ amp_items (box_items p)"
  by (simp add: add_box_def box_items_def Let_def item_text_def wire_def)

lemma add_output_items: "add_output p url = url @ amp_items (output_items p)"
  by (simp add: add_output_def output_items_def Let_def item_text_def wire_def)

lemma number_item_text:
  "amp_items (number_item k f v) = (if truthy v then ''&'' @ item_text (k, f (num_to_string (the v))) else [])"
  by (simp add: number_item_def)

lemma add_sampling_items: "add_sampling p url = url @ amp_items (sampling_items p)"
  unfolding add_sampling_def sampling_items_def Let_def stage_append amp_items_simps(3) number_item_text
  by (simp add: item_text_def wire_def split del: if_split cong: if_cong)

lemma download_url_items: "download_url M p = join ''&'' (map item_text (request M p))"
  by (simp add: download_url_def Let_def add_filter_items add_mmsi_items add_box_items add_output_items
      add_sampling_items request_def join_Cons_concat comp_def item_text_def wire_def amp_items_def)

subsection \<open>What a receiver reads\<close>

definition good_item :: "string \<times> string \<Rightarrow> bool" where
  "good_item i \<longleftrightarrow> plain (fst i) \<and> CHR ''='' \<notin> set (fst i) \<and>
     (fst i = ''filter'' \<or> plain (snd i)) \<and> (fst i = ''noHeader'' \<longrightarrow> snd i = [])"

lemma good_item_read:
  assumes "good_item i"
  shows "CHR ''&'' \<notin> set (item_text i)" and "query_pair (item_text i) = (fst i, Some (snd i))"
proof -
  obtain k v where i: "i = (k, v)" by (cases i)
  have fi: "fst i = k" "snd i = v" by (simp_all add: i)
  have k: "plain k" "CHR ''='' \<notin> set k" and v: "k = ''filter'' \<or> plain v" and n: "k = ''noHeader'' \<longrightarrow> v = []"
    using assms by (simp_all add: good_item_def i)
  define w where "w = (if k = ''filter'' then encodeURIComponent v else v)"
  have w: "CHR ''&'' \<notin> set w" "decode_component w = Some v"
    using v plain_no_amp [of v] decode_plain [of v] by (cases "k = ''filter''"; simp add: w_def)+
  have t: "item_text i = (if k = ''noHeader'' then k else wire (k, w))" by (simp add: item_text_def i w_def)
  have ka: "CHR ''&'' \<notin> set k" by (rule plain_no_amp [OF k(1)])
  have "CHR ''&'' \<notin> set (wire (k, w))" using w(1) ka by (simp add: wire_def)
  with ka show "CHR ''&'' \<notin> set (item_text i)" unfolding t by (cases "k = ''noHeader''"; simp only: if_True if_False simp_thms)
  have "query_pair (wire (k, w)) = (k, Some v)" using query_pair_wire [of "(k, w)"] k w by simp
  moreover have "query_pair k = (k, Some [])" by (rule query_pair_name [OF k(2)])
  ultimately show "query_pair (item_text i) = (fst i, Some (snd i))"
    using n unfolding t fi by (cases "k = ''noHeader''"; simp only: if_True if_False simp_thms fst_conv snd_conv)
qed

lemma good_items_read:
  assumes "\<forall>i\<in>set ps. good_item i" "ps \<noteq> []"
  shows "query_params (join ''&'' (map item_text ps)) = map (\<lambda>(k, v). (k, Some v)) ps"
proof -
  have "split_on (CHR ''&'') (join ''&'' (map item_text ps)) = map item_text ps"
    using assms good_item_read(1) by (intro split_on_join) simp_all
  then show ?thesis using assms(1) by (simp add: query_params_def good_item_read(2) split: prod.splits)
qed

lemma plain_trim [simp]: "plain s \<Longrightarrow> plain (trim s)"
proof -
  have "set (trim s) \<subseteq> set s"
    using set_dropWhileD [of _ is_ws "rev (dropWhile is_ws s)"] set_dropWhileD [of _ is_ws s]
    by (auto simp: trim_def trim_start_def)
  then show "plain s \<Longrightarrow> plain (trim s)" by (rule plain_subset)
qed

lemma plain_mmsi_parts:
  assumes "plain s" "m \<in> set (mmsi_parts s)"
  shows "plain m"
proof -
  have "plain (map (\<lambda>c. if c = CHR '','' then CHR '' '' else c) s)"
    using assms(1)
  proof (induction s)
    case (Cons c s)
    then show ?case by (cases "c = CHR '',''") simp_all
  qed simp
  moreover have "set m \<subseteq> set (map (\<lambda>c. if c = CHR '','' then CHR '' '' else c) s)"
    using assms(2) unfolding mmsi_parts_def by (rule split_on_set)
  ultimately show ?thesis by (rule plain_subset [rotated])
qed

lemma request_good:
  assumes "moment_laws M" "raw_fields_plain p"
  shows "\<forall>i\<in>set (request M p). good_item i"
proof -
  have t: "plain (utc_text M t)" for t using assms(1) by (simp add: moment_laws_def)
  have "good_item i" if "i \<in> set (mmsi_items p)" for i
    using that assms(2) plain_mmsi_parts
    by (auto simp: mmsi_items_def good_item_def raw_fields_plain_def split: option.splits)
  moreover have "good_item i" if "i \<in> set (filter_items p)" for i
    using that by (auto simp: filter_items_def good_item_def split: if_splits)
  moreover have "good_item i" if "i \<in> set (box_items p)" for i
    using that by (auto simp: box_items_def good_item_def plain_join split: if_splits)
  moreover have "good_item i" if "i \<in> set (output_items p)" for i
    using that assms(2) by (auto simp: output_items_def good_item_def raw_fields_plain_def plain_join split: if_splits)
  moreover have "good_item i" if "i \<in> set (sampling_items p)" for i
    using that by (auto simp: sampling_items_def number_item_def good_item_def split: if_splits)
  moreover have "good_item (''interval'', utc_text M (startDate p) @ ''Z/'' @ utc_text M (endDate p) @ ''Z'')"
    by (simp add: good_item_def t)
  ultimately show ?thesis by (simp only: request_def set_append set_simps ball_simps ball_Un) blast
qed

lemma download_url_query:
  assumes "moment_laws M" "raw_fields_plain p"
  shows "query_params (download_url M p) = map (\<lambda>(k, v). (k, Some v)) (request M p)"
  unfolding download_url_items using request_good [OF assms] by (rule good_items_read) (simp add: request_def)

text \<open>
  C2. The query text is read as it was meant: splitting it at the ampersands and decoding
  the values gives the time interval, the filter, the MMSI numbers, the box, the output and
  the sampling parameters of the search, in this order and with nothing else, when the
  fields that are pasted as they are have no ampersand and no percent sign. The filter and
  the values in it may have any characters.
\<close>

theorem download_url_received:
  assumes "moment_laws M" "raw_fields_plain p"
  shows "query_params (download_url M p) = map (\<lambda>(k, v). (k, Some v)) (request M p)"
  by (rule download_url_query [OF assms])

lemma download_url_received_witness:
  "query_params (download_url sample_moment (clearParams sample_moment (Fin 3600000) (Fin 3600000))) =
     map (\<lambda>(k, v). (k, Some v)) (request sample_moment (clearParams sample_moment (Fin 3600000) (Fin 3600000)))"
proof -
  have "raw_fields_plain (clearParams sample_moment (Fin 3600000) (Fin 3600000))"
    by (simp add: raw_fields_plain_def clearParams_def)
  from download_url_received [OF moment_laws_sample this] show ?thesis .
qed

lemma query_params_join: "ss \<noteq> [] \<Longrightarrow> query_params (join ''&'' ss) = concat (map query_params ss)"
  by (induction "''&''" ss rule: join.induct) (simp_all add: query_params_def split_on_append2)

text \<open>
  The MMSI field is pasted without encoding: what follows an ampersand in it reaches the
  server as a parameter of its own.
\<close>

theorem mmsi_field_injects:
  assumes "mmsi p = Some (a @ ''&'' @ b)" "a \<noteq> []" "CHR ''&'' \<notin> set b"
    and "\<forall>c\<in>set (a @ ''&'' @ b). c \<noteq> CHR '','' \<and> \<not> is_ws c"
  shows "query_pair b \<in> set (query_params (download_url M p))"
proof -
  let ?s = "a @ ''&'' @ b"
  have c: "\<forall>c\<in>set ?s. c \<noteq> CHR '','' \<and> c \<noteq> CHR '' ''" using assms(4) by (auto simp: is_ws_def)
  have "map (\<lambda>c. if c = CHR '','' then CHR '' '' else c) ?s = ?s"
    using c by (intro map_idI) auto
  then have "mmsi_parts ?s = [?s]" unfolding mmsi_parts_def using c by (subst split_on_no_sep) auto
  moreover have "trim ?s = ?s" using assms(4) assms(2) last_in_set [of ?s] by (intro trim_id) auto
  ultimately have "(''mmsi'', ?s) \<in> set (request M p)"
    using assms(1) by (simp add: request_def mmsi_items_def)
  then have "set (query_params (item_text (''mmsi'', ?s))) \<subseteq> set (query_params (download_url M p))"
    unfolding download_url_items by (subst query_params_join) (auto simp: request_def)
  moreover have "item_text (''mmsi'', ?s) = (''mmsi='' @ a) @ CHR ''&'' # b" by (simp add: item_text_def wire_def)
  then have "query_params (item_text (''mmsi'', ?s)) = query_params (''mmsi='' @ a) @ [query_pair b]"
    unfolding query_params_def by (simp only: split_on_append2 split_on_no_sep [OF assms(3)] map_append list.map)
  ultimately show ?thesis by auto
qed

lemma mmsi_field_injects_witness:
  "(''output'', Some ''json'') \<in> set (query_params (download_url sample_moment
     (clearParams sample_moment (Fin 0) (Fin 0)\<lparr>mmsi := Some ''219000000&output=json''\<rparr>)))"
proof -
  have "query_pair ''output=json'' = (''output'', Some ''json'')" by code_simp
  then show ?thesis
    using mmsi_field_injects [of "clearParams sample_moment (Fin 0) (Fin 0)\<lparr>mmsi := Some ''219000000&output=json''\<rparr>"
        "''219000000''" "''output=json''" sample_moment]
    by (simp add: is_ws_def)
qed

end
