(* ===== verification/JsRegExp.thy ===== *)
theory JsRegExp
  imports JsText
begin

text \<open>
  The regular expressions of JavaScript, as far as the search boxes use them: classes, greedy
  repetition of a class, alternatives, groups, anchors, word boundaries and lookahead. A
  match is tried with backtracking, in the order that the language prescribes: \<open>runs\<close> lists
  all ways to match at one position, the preferred one first. The character before the
  position decides about anchors; a way is the text matched and what the groups captured.
\<close>

subsection \<open>Expressions\<close>

datatype regex =
    One "char \<Rightarrow> bool"
  | Many nat "char \<Rightarrow> bool"
  | Cat regex regex
  | Or regex regex
  | Group regex
  | AtStart
  | AtEnd
  | WordEdge
  | Look regex

type_synonym way = "string \<times> string option list"

definition is_word :: "char \<Rightarrow> bool" where
  "is_word c \<longleftrightarrow> (let n = (of_char c :: nat) in
     48 \<le> n \<and> n \<le> 57 \<or> 65 \<le> n \<and> n \<le> 90 \<or> 97 \<le> n \<and> n \<le> 122 \<or> n = 95)"

primrec group_count :: "regex \<Rightarrow> nat" where
  "group_count (One P) = 0"
| "group_count (Many n P) = 0"
| "group_count (Cat r q) = group_count r + group_count q"
| "group_count (Or r q) = group_count r + group_count q"
| "group_count (Group r) = Suc (group_count r)"
| "group_count AtStart = 0"
| "group_count AtEnd = 0"
| "group_count WordEdge = 0"
| "group_count (Look r) = group_count r"

text \<open>The character before the position that follows the text \<open>m\<close>.\<close>

definition before :: "char option \<Rightarrow> string \<Rightarrow> char option" where
  "before p m = (if m = [] then p else Some (last m))"

definition word_at :: "char option \<Rightarrow> bool" where
  "word_at p = (case p of None \<Rightarrow> False | Some c \<Rightarrow> is_word c)"

primrec runs :: "regex \<Rightarrow> char option \<Rightarrow> string \<Rightarrow> way list" where
  "runs (One P) p s = (case s of [] \<Rightarrow> [] | c # t \<Rightarrow> if P c then [([c], [])] else [])"
| "runs (Many n P) p s = map (\<lambda>i. (take i s, [])) (rev [n..<Suc (length (takeWhile P s))])"
| "runs (Cat r q) p s =
     concat (map (\<lambda>(m, g). map (\<lambda>(m', g'). (m @ m', g @ g')) (runs q (before p m) (drop (length m) s))) (runs r p s))"
| "runs (Or r q) p s =
     map (\<lambda>(m, g). (m, g @ replicate (group_count q) None)) (runs r p s) @
     map (\<lambda>(m, g). (m, replicate (group_count r) None @ g)) (runs q p s)"
| "runs (Group r) p s = map (\<lambda>(m, g). (m, Some m # g)) (runs r p s)"
| "runs AtStart p s = (if p = None then [([], [])] else [])"
| "runs AtEnd p s = (if s = [] then [([], [])] else [])"
| "runs WordEdge p s =
     (if word_at p \<noteq> word_at (case s of [] \<Rightarrow> None | c # _ \<Rightarrow> Some c) then [([], [])] else [])"
| "runs (Look r) p s = (case runs r p s of [] \<Rightarrow> [] | w # _ \<Rightarrow> [([], snd w)])"

subsection \<open>Searching and replacing\<close>

text \<open>The first position with a match: the text before it, the preferred way, the text after it.\<close>

fun exec :: "regex \<Rightarrow> char option \<Rightarrow> string \<Rightarrow> (string \<times> string \<times> string option list \<times> string) option" where
  "exec r p [] = (case runs r p [] of [] \<Rightarrow> None | (m, g) # _ \<Rightarrow> Some ([], m, g, []))"
| "exec r p (c # s) =
     (case runs r p (c # s) of
        (m, g) # _ \<Rightarrow> Some ([], m, g, drop (length m) (c # s))
      | [] \<Rightarrow> (case exec r (Some c) s of None \<Rightarrow> None | Some (b, m, g, a) \<Rightarrow> Some (c # b, m, g, a)))"

text \<open>\<open>s.match(r)\<close> without the flag \<open>g\<close>: the groups; \<open>r.test(s)\<close>; \<open>s.search(r)\<close>.\<close>

definition match :: "regex \<Rightarrow> string \<Rightarrow> string option list option" where
  "match r s = (case exec r None s of None \<Rightarrow> None | Some (b, m, g, a) \<Rightarrow> Some (Some m # g))"

definition test :: "regex \<Rightarrow> string \<Rightarrow> bool" where
  "test r s \<longleftrightarrow> exec r None s \<noteq> None"

definition search :: "regex \<Rightarrow> string \<Rightarrow> int" where
  "search r s = (case exec r None s of None \<Rightarrow> - 1 | Some (b, _) \<Rightarrow> int (length b))"

text \<open>\<open>s.replace(r, t)\<close> for a text \<open>t\<close> without dollar signs.\<close>

definition replace_match :: "regex \<Rightarrow> string \<Rightarrow> string \<Rightarrow> string" where
  "replace_match r t s = (case exec r None s of None \<Rightarrow> s | Some (b, m, g, a) \<Rightarrow> b @ t @ a)"

lemma runs_prefix: "(m, g) \<in> set (runs r p s) \<Longrightarrow> m @ drop (length m) s = s"
proof (induction r arbitrary: p s m g)
  case (One P)
  then show ?case by (auto split: list.splits if_splits)
next
  case (Many n P)
  then show ?case by (auto simp: min_def)
next
  case (Cat r q)
  then obtain m1 g1 m2 g2 where w: "m = m1 @ m2" "(m1, g1) \<in> set (runs r p s)"
      "(m2, g2) \<in> set (runs q (before p m1) (drop (length m1) s))"
    by auto
  have "m1 @ m2 @ drop (length m2) (drop (length m1) s) = s"
    using Cat.IH(1) [OF w(2)] Cat.IH(2) [OF w(3)] by simp
  then show ?case by (simp add: w(1) add.commute)
qed (auto split: if_splits list.splits)

lemma exec_parts: "exec r p s = Some (b, m, g, a) \<Longrightarrow> b @ m @ a = s"
proof (induction s arbitrary: p b)
  case Nil
  then show ?case using runs_prefix [of m g r p "[]"] by (auto split: list.splits)
next
  case (Cons c s)
  then show ?case
    using runs_prefix [of m g r p "c # s"] by (cases "runs r p (c # s)") (auto split: option.splits)
qed

text \<open>With the flag \<open>g\<close>; after an empty match the position moves on by one.\<close>

function replace_all :: "regex \<Rightarrow> string \<Rightarrow> char option \<Rightarrow> string \<Rightarrow> string" where
  "replace_all r t p s =
     (case exec r p s of
        None \<Rightarrow> s
      | Some (b, m, g, a) \<Rightarrow>
          if m \<noteq> [] then b @ t @ replace_all r t (Some (last m)) a
          else (case a of [] \<Rightarrow> b @ t | c # a' \<Rightarrow> b @ t @ c # replace_all r t (Some c) a'))"
  by pat_completeness auto
termination
  by (relation "measure (\<lambda>(r, t, p, s). length s)") (auto dest!: exec_parts)

function match_all :: "regex \<Rightarrow> char option \<Rightarrow> string \<Rightarrow> string list" where
  "match_all r p s =
     (case exec r p s of
        None \<Rightarrow> []
      | Some (b, m, g, a) \<Rightarrow>
          m # (if m \<noteq> [] then match_all r (Some (last m)) a
               else (case a of [] \<Rightarrow> [] | c # a' \<Rightarrow> match_all r (Some c) a')))"
  by pat_completeness auto
termination
  by (relation "measure (\<lambda>(r, p, s). length s)") (auto dest!: exec_parts)

declare replace_all.simps [simp del] match_all.simps [simp del]

subsection \<open>Ways to match\<close>

lemma concat_single: "distinct js \<Longrightarrow> j \<in> set js \<Longrightarrow> (\<And>i. i \<in> set js \<Longrightarrow> i \<noteq> j \<Longrightarrow> f i = []) \<Longrightarrow> concat (map f js) = f j"
proof (induction js)
  case (Cons i js)
  then show ?case by (cases "i = j") (auto simp: concat_eq_Nil_conv)
qed simp

text \<open>
  A class followed by something that cannot begin inside of it: only the longest repetition
  counts.
\<close>

lemma longest_only:
  assumes "\<And>q c t. P c \<Longrightarrow> runs r q (c # t) = []"
  shows "concat (map (\<lambda>i. map (h (take i s)) (runs r (before p (take i s)) (drop i s))) (rev [n..<Suc (length (takeWhile P s))])) =
    (if n \<le> length (takeWhile P s) then map (h (takeWhile P s)) (runs r (before p (takeWhile P s)) (dropWhile P s)) else [])"
proof -
  let ?m = "takeWhile P s" and ?f = "\<lambda>i. map (h (take i s)) (runs r (before p (take i s)) (drop i s))"
  have short: "?f i = []" if "i < length ?m" for i
  proof -
    have "P (s ! i)" using nth_mem [OF that] takeWhile_nth [OF that] by (metis set_takeWhileD)
    moreover have "i < length s" using that length_takeWhile_le [of P s] by linarith
    ultimately show ?thesis using assms by (simp add: Cons_nth_drop_Suc [symmetric])
  qed
  have "take (length ?m) s = ?m" "drop (length ?m) s = dropWhile P s"
    by (simp_all add: takeWhile_eq_take [symmetric] dropWhile_eq_drop [symmetric])
  moreover have "concat (map ?f (rev [n..<Suc (length ?m)])) = (if n \<le> length ?m then ?f (length ?m) else [])"
    using short by (auto simp: concat_eq_Nil_conv)
  ultimately show ?thesis by simp
qed

lemma drop_take_length [simp]: "drop (min (length t) i) t = drop i t"
  by (simp add: min_def)

lemma runs_Many_Cat:
  assumes "\<And>q c t. P c \<Longrightarrow> runs r q (c # t) = []"
  shows "runs (Cat (Many n P) r) p s =
    (let m = takeWhile P s in
       if n \<le> length m then map (\<lambda>(m', g). (m @ m', g)) (runs r (before p m) (dropWhile P s)) else [])"
  using longest_only [OF assms, where h = "\<lambda>m (m', g). (m @ m', g)"] by (simp add: comp_def Let_def del: upt_Suc)

lemma runs_group_Many_Cat:
  assumes "\<And>q c t. P c \<Longrightarrow> runs r q (c # t) = []"
  shows "runs (Cat (Group (Many n P)) r) p s =
    (let m = takeWhile P s in
       if n \<le> length m then map (\<lambda>(m', g). (m @ m', Some m # g)) (runs r (before p m) (dropWhile P s)) else [])"
  using longest_only [OF assms, where h = "\<lambda>m (m', g). (m @ m', Some m # g)"] by (simp add: comp_def Let_def del: upt_Suc)

lemma runs_Cat_One: "runs (Cat (One P) r) p (c # s) = (if P c then map (\<lambda>(m, g). (c # m, g)) (runs r (Some c) s) else [])"
  by (simp add: before_def)

lemma runs_Cat_fail: "runs r p s = [] \<Longrightarrow> runs (Cat r q) p s = []"
  by simp

text \<open>A text between two marks, without the mark inside.\<close>

lemma runs_quoted:
  assumes "k \<notin> set v" "v \<noteq> []"
  shows "runs (Cat (One (\<lambda>c. c = k)) (Cat (Many 1 (\<lambda>c. c \<noteq> k)) (One (\<lambda>c. c = k)))) p (k # v @ k # s) = [(k # v @ [k], [])]"
proof -
  have "takeWhile (\<lambda>c. c \<noteq> k) (v @ k # s) = v" "dropWhile (\<lambda>c. c \<noteq> k) (v @ k # s) = k # s"
    using assms(1) by (auto intro!: takeWhile_append_stop dropWhile_append_stop)
  moreover have "1 \<le> length v" using assms(2) by (cases v) simp_all
  ultimately show ?thesis by (subst runs_Cat_One, subst runs_Many_Cat) (simp_all add: Let_def)
qed

lemma exec_here: "runs r p s = (m, g) # ws \<Longrightarrow> exec r p s = Some ([], m, g, drop (length m) s)"
  by (cases s) auto

lemma before_Cons: "before p (c # b) = before (Some c) b"
  by (simp add: before_def)

lemma exec_none: "exec r p s = None \<longleftrightarrow> (\<forall>b a. b @ a = s \<longrightarrow> runs r (before p b) a = [])"
proof (induction s arbitrary: p)
  case Nil
  show ?case by (auto simp: before_def split: list.split)
next
  case (Cons c s)
  have split: "(\<forall>b a. b @ a = c # s \<longrightarrow> Q b a) \<longleftrightarrow> Q [] (c # s) \<and> (\<forall>b a. b @ a = s \<longrightarrow> Q (c # b) a)" for Q
    by (auto simp: append_eq_Cons_conv)
  show ?case
    unfolding split before_Cons Cons.IH [symmetric]
    by (cases "exec r (Some c) s") (auto simp: before_def split: list.split)
qed

lemma exec_some: "exec r p s = Some (b, m, g, a) \<Longrightarrow> (m, g) \<in> set (runs r (before p b) (m @ a))"
proof (induction s arbitrary: p b)
  case Nil
  then show ?case using runs_prefix [of m g r p "[]"] by (auto simp: before_def split: list.splits)
next
  case (Cons c s)
  note IH = Cons.IH and prems = Cons.prems
  show ?case
  proof (cases "runs r p (c # s)")
    case Nil
    with prems obtain b' where "b = c # b'" "exec r (Some c) s = Some (b', m, g, a)" by (auto split: option.splits)
    then show ?thesis using IH by (simp add: before_Cons)
  next
    case (Cons w ws)
    then have e: "w = (m, g)" "b = []" "a = drop (length m) (c # s)" using prems by (auto split: prod.splits)
    have "m @ a = c # s" using runs_prefix [of m g r p "c # s"] Cons e by simp
    then show ?thesis using Cons e by (simp add: before_def)
  qed
qed

text \<open>An expression that begins with the anchor matches at the start or not at all.\<close>

lemma exec_anchored: "exec (Cat AtStart r) (Some c) s = None"
  by (auto simp: exec_none before_def)

lemma exec_start: "exec (Cat AtStart r) None s = None \<longleftrightarrow> runs r None s = []"
  by (cases s) (auto simp: exec_anchored before_def split: list.split)

end
