(* ===== verification/SearchParser.thy ===== *)
theory SearchParser
  imports JsRegExp
begin

text \<open>
  \<open>ext/documentcloud-visualsearch/js/visualsearch.js\<close>, the text of a search box: the parser that
  splits it into facets (\<open>VS.app.SearchParser\<close>) and the facets that print themselves
  (\<open>VS.model.SearchFacet\<close>). The loop of the parser is a recursive function on the text that is
  left; a match that the code takes for granted and that is not there is a type error.
\<close>

subsection \<open>Expressions\<close>

definition quoted :: "char \<Rightarrow> regex" where
  "quoted k = Cat (One (\<lambda>c. c = k)) (Cat (Many 1 (\<lambda>c. c \<noteq> k)) (One (\<lambda>c. c = k)))"

definition is_quote :: "char \<Rightarrow> bool" where
  "is_quote c \<longleftrightarrow> c = CHR 0x27 \<or> c = CHR 0x22"

definition bare_word :: regex where
  "bare_word = Cat (One (\<lambda>c. \<not> is_quote c \<and> \<not> is_ws c)) (Many 0 (\<lambda>c. \<not> is_ws c))"

definition QUOTES_RE :: regex where
  "QUOTES_RE = Group (Or (quoted (CHR 0x27)) (quoted (CHR 0x22)))"

definition FREETEXT_RE :: regex where
  "FREETEXT_RE = Group (Or (quoted (CHR 0x27)) (Or (quoted (CHR 0x22)) bare_word))"

definition CATEGORY_RE :: regex where
  "CATEGORY_RE = Cat FREETEXT_RE (Cat (One (\<lambda>c. c = CHR '':'')) (Many 0 is_ws))"

definition ALL_FIELDS :: regex where
  "ALL_FIELDS = Cat CATEGORY_RE FREETEXT_RE"

definition textRe :: regex where
  "textRe = Cat AtStart (Cat (Many 0 is_ws) (Cat (Group (Many 1 (\<lambda>c. \<not> is_ws c)))
     (Cat (Many 1 is_ws) (Look (Cat QUOTES_RE FREETEXT_RE)))))"

definition outer_quotes :: regex where
  "outer_quotes = Group (Or (Cat AtStart (One is_quote)) (Cat (One is_quote) AtEnd))"

subsection \<open>Facets\<close>

record search_facet =
  category :: string
  facet_text :: string

definition quoteCategory :: "string \<Rightarrow> string" where
  "quoteCategory cat =
     (let hasDoubleQuote = CHR 0x22 \<in> set cat; hasSingleQuote = CHR 0x27 \<in> set cat; hasSpace = (\<exists>c\<in>set cat. is_ws c)
      in if hasDoubleQuote \<and> \<not> hasSingleQuote then [CHR 0x27] @ cat @ [CHR 0x27]
         else if hasSpace \<or> (hasSingleQuote \<and> \<not> hasDoubleQuote) then [CHR 0x22] @ cat @ [CHR 0x22]
         else cat)"

definition quoteValue :: "string \<Rightarrow> string" where
  "quoteValue v =
     (let hasDoubleQuote = CHR 0x22 \<in> set v; hasSingleQuote = CHR 0x27 \<in> set v
      in if hasDoubleQuote \<and> \<not> hasSingleQuote then [CHR 0x27] @ v @ [CHR 0x27] else [CHR 0x22] @ v @ [CHR 0x22])"

text \<open>The options \<open>remainder\<close> and \<open>unquotable\<close>; the page leaves the first alone and sets the second to the empty list.\<close>

definition remainder :: string where
  "remainder = ''text''"

definition unquotable :: "string list" where
  "unquotable = []"

definition serialize_facet :: "search_facet \<Rightarrow> string" where
  "serialize_facet f =
     (let cat = quoteCategory (category f); v = trim (facet_text f)
      in if v = [] then []
         else (let v = (if cat \<notin> set unquotable \<and> cat \<noteq> remainder then quoteValue v else v);
                   cat = (if cat \<noteq> remainder then cat @ '': '' else [])
               in cat @ v))"

subsection \<open>The parser\<close>

text \<open>\<open>s.replace(t, '')\<close> for a text \<open>t\<close>: its first occurrence goes.\<close>

fun remove_first :: "string \<Rightarrow> string \<Rightarrow> string" where
  "remove_first t [] = []"
| "remove_first t (c # s) = (if take (length t) (c # s) = t then drop (length t) (c # s) else c # remove_first t s)"

definition strip_quotes :: "string \<Rightarrow> string" where
  "strip_quotes s = replace_all outer_quotes [] None s"

definition extractFirstField :: "string \<Rightarrow> string option" where
  "extractFirstField query = (case match_all ALL_FIELDS None query of [] \<Rightarrow> None | f # _ \<Rightarrow> Some f)"

definition extractNextField :: "string \<Rightarrow> string option" where
  "extractNextField query = (case match textRe query of Some g \<Rightarrow> g ! 1 | None \<Rightarrow> extractFirstField query)"

definition extractSearchText :: "string \<Rightarrow> string" where
  "extractSearchText query = trim (replace_all ALL_FIELDS [] None query)"

text \<open>One round of the loop: the category, the value, and the text that is left.\<close>

definition next_facet :: "string \<Rightarrow> type_error + (string \<times> string \<times> string)" where
  "next_facet query =
     (let field = extractNextField query
      in if field = None \<or> field = Some [] then
           (let v = extractSearchText query in Inr (remainder, v, trim (remove_first v query)))
         else if CHR '':'' \<in> set (the field) then
           (case match CATEGORY_RE (the field) of
              None \<Rightarrow> Inl TypeError
            | Some g \<Rightarrow> Inr (strip_quotes (the (g ! 1)), strip_quotes (replace_match CATEGORY_RE [] (the field)),
                         trim (remove_first (the field) query)))
         else Inr (remainder, the field, trim (remove_first (the field) query)))"

lemma length_trim: "length (trim s) \<le> length s"
  using le_trans [OF length_dropWhile_le [of is_ws "rev (dropWhile is_ws s)"], of "length s"] length_dropWhile_le [of is_ws s]
  by (simp add: trim_def trim_start_def)

lemma length_remove_first: "length (remove_first t s) \<le> length s"
  by (induction s) auto

lemma dropWhile_same_length: "length (dropWhile P t) = length t \<Longrightarrow> dropWhile P t = t"
  by (metis append_self_conv2 length_0_conv length_append self_append_conv2 takeWhile_dropWhile_id add_cancel_left_left)

lemma trim_same_length:
  assumes e: "length (trim s) = length s"
  shows "dropWhile is_ws s = s" "trim s = s"
proof -
  have "length (dropWhile is_ws s) \<le> length s" "length (trim s) \<le> length (dropWhile is_ws s)"
    using length_dropWhile_le [of is_ws "rev (dropWhile is_ws s)"] by (simp_all add: length_dropWhile_le trim_def trim_start_def)
  then show "dropWhile is_ws s = s" using e by (intro dropWhile_same_length) simp
  then show "trim s = s" using e dropWhile_same_length [of is_ws "rev s"] by (simp add: trim_def trim_start_def)
qed

lemma remove_first_same_length: "length (remove_first t s) = length s \<Longrightarrow> remove_first t s = s"
  by (induction s) (cases t; auto split: if_splits)+

lemma remove_trim_shorter:
  assumes "trim (remove_first t s) \<noteq> s"
  shows "length (trim (remove_first t s)) < length s"
proof (rule ccontr)
  assume "\<not> ?thesis"
  then have e: "length (trim (remove_first t s)) = length (remove_first t s)" "length (remove_first t s) = length s"
    using length_trim [of "remove_first t s"] length_remove_first [of t s] by linarith+
  then show False using assms trim_same_length(2) [OF e(1)] remove_first_same_length [OF e(2)] by simp
qed

lemma set_trim: "set (trim s) \<subseteq> set s"
  by (auto simp: trim_def trim_start_def dest!: set_dropWhileD)

lemma set_remove_first: "set (remove_first t s) \<subseteq> set s"
  by (induction s) (auto dest: in_set_dropD)

lemma next_facet_rest:
  assumes "next_facet q = Inr (c, v, q')"
  obtains t where "q' = trim (remove_first t q)"
  using assms by (auto simp: next_facet_def Let_def split: if_splits option.splits)

lemma next_facet_shorter:
  assumes "next_facet q = Inr (c, v, q')" "q' \<noteq> q"
  shows "length q' < length q"
proof -
  obtain t where "q' = trim (remove_first t q)" by (rule next_facet_rest [OF assms(1)])
  with assms(2) remove_trim_shorter show ?thesis by simp
qed

function extractAllFacets :: "string \<Rightarrow> type_error + search_facet list" where
  "extractAllFacets query =
     (if query = [] then Inr []
      else (case next_facet query of
              Inl e \<Rightarrow> Inl e
            | Inr (cat, v, q) \<Rightarrow>
                (let fs = (if cat \<noteq> [] \<and> v \<noteq> [] then [\<lparr>category = cat, facet_text = trim v\<rparr>] else [])
                 in if q = query then Inr fs
                    else (case extractAllFacets q of Inl e \<Rightarrow> Inl e | Inr gs \<Rightarrow> Inr (fs @ gs)))))"
  by pat_completeness auto
termination
  by (relation "measure length") (auto intro: next_facet_shorter)

declare extractAllFacets.simps [simp del]

end
