(* ===== verification/SearchText.thy ===== *)
theory SearchText
  imports SearchParser
begin

text \<open>
  What a search box prints, its parser reads: facets with a category that is one plain word
  and a value that can be quoted come back as they were.
\<close>

definition plain_category :: "string \<Rightarrow> bool" where
  "plain_category c \<longleftrightarrow> c \<noteq> [] \<and> c \<noteq> remainder \<and> (\<forall>x\<in>set c. \<not> is_ws x \<and> \<not> is_quote x \<and> x \<noteq> CHR '':'')"

definition quotable :: "string \<Rightarrow> bool" where
  "quotable v \<longleftrightarrow> v \<noteq> [] \<and> trim v = v \<and> \<not> (CHR 0x27 \<in> set v \<and> CHR 0x22 \<in> set v)"

lemma quote_simps [simp]: "is_quote (CHR 0x27)" "is_quote (CHR 0x22)" "\<not> is_quote (CHR '':'')" "\<not> is_quote (CHR '' '')"
  by (simp_all add: is_quote_def)

lemma quote_not_ws [simp]: "is_quote k \<Longrightarrow> \<not> is_ws k"
  by (auto simp: is_quote_def is_ws_def)

lemma quoteValue_quotes:
  assumes "quotable v"
  obtains k where "quoteValue v = k # v @ [k]" "is_quote k" "k \<notin> set v"
proof (cases "CHR 0x22 \<in> set v")
  case True
  then show thesis using assms that [of "CHR 0x27"] by (simp add: quoteValue_def quotable_def)
next
  case False
  then show thesis using that [of "CHR 0x22"] by (simp add: quoteValue_def)
qed

subsection \<open>Ways to match a facet\<close>

lemma quoted_simps [simp]: "group_count (quoted k) = 0" "runs (quoted k) p [] = []" "c \<noteq> k \<Longrightarrow> runs (quoted k) p (c # s) = []"
  by (simp_all add: quoted_def)

lemma quoted_once: "k \<notin> set v \<Longrightarrow> v \<noteq> [] \<Longrightarrow> runs (quoted k) p (k # v @ k # s) = [(k # v @ [k], [])]"
  unfolding quoted_def by (rule runs_quoted)

lemma bare_simps [simp]:
  "group_count bare_word = 0" "runs bare_word p [] = []" "is_quote c \<or> is_ws c \<Longrightarrow> runs bare_word p (c # s) = []"
  by (auto simp: bare_word_def)

lemma runs_QUOTES: "is_quote k \<Longrightarrow> k \<notin> set v \<Longrightarrow> v \<noteq> [] \<Longrightarrow> runs QUOTES_RE p (k # v @ k # s) = [(k # v @ [k], [Some (k # v @ [k])])]"
  by (auto simp: QUOTES_RE_def is_quote_def quoted_once)

lemma runs_FREETEXT: "is_quote k \<Longrightarrow> k \<notin> set v \<Longrightarrow> v \<noteq> [] \<Longrightarrow> runs FREETEXT_RE p (k # v @ k # s) = [(k # v @ [k], [Some (k # v @ [k])])]"
  by (auto simp: FREETEXT_RE_def is_quote_def quoted_once)

lemma runs_FREETEXT_ws [simp]: "s = [] \<or> is_ws (hd s) \<Longrightarrow> runs FREETEXT_RE p s = []"
  by (cases s) (auto simp: FREETEXT_RE_def is_ws_def)

lemma runs_FREETEXT_word:
  assumes "\<not> is_quote x" "\<not> is_ws x"
  shows "runs FREETEXT_RE p (x # t) = map (\<lambda>i. (x # take i t, [Some (x # take i t)])) (rev [0..<Suc (length (takeWhile (\<lambda>c. \<not> is_ws c) t))])"
  using assms by (auto simp: FREETEXT_RE_def bare_word_def is_quote_def before_def comp_def)

lemma runs_CATEGORY_gen:
  assumes "plain_category c" "s = [] \<or> is_ws (hd s)"
  shows "runs CATEGORY_RE p (c @ CHR '':'' # s) =
    map (\<lambda>i. (c @ CHR '':'' # take i s, [Some c])) (rev [0..<Suc (length (takeWhile is_ws s))])"
proof -
  obtain x d where c: "c = x # d" using assms(1) by (cases c) (auto simp: plain_category_def)
  define q where "q = Cat (One (\<lambda>c. c = CHR '':'')) (Many 0 is_ws)"
  define t where "t = d @ CHR '':'' # s"
  let ?f = "\<lambda>i. map (\<lambda>(m', g'). ((x # take i t) @ m', [Some (x # take i t)] @ g')) (runs q (before p (x # take i t)) (drop i t))"
  have x: "\<not> is_quote x" "\<not> is_ws x" and d: "\<forall>y\<in>set d. \<not> is_ws y \<and> y \<noteq> CHR '':''"
    using assms(1) by (auto simp: c plain_category_def)
  have "takeWhile (\<lambda>c. \<not> is_ws c) t = d @ takeWhile (\<lambda>c. \<not> is_ws c) (CHR '':'' # s)"
    using d by (simp add: takeWhile_append2 t_def)
  moreover have "takeWhile (\<lambda>c. \<not> is_ws c) (CHR '':'' # s) = '':''" using assms(2) by (cases s) (simp_all add: is_ws_def)
  ultimately have tw: "length (takeWhile (\<lambda>c. \<not> is_ws c) t) = Suc (length d)" by simp
  have "runs CATEGORY_RE p (x # t) = concat (map ?f (rev [0..<Suc (Suc (length d))]))"
    unfolding CATEGORY_RE_def q_def [symmetric]
    by (simp add: runs_FREETEXT_word [OF x] tw comp_def del: upt_Suc)
  also have "\<dots> = ?f (length d)"
  proof (rule concat_single)
    fix i assume i: "i \<in> set (rev [0..<Suc (Suc (length d))])" "i \<noteq> length d"
    have "drop i t \<noteq> [] \<longrightarrow> hd (drop i t) \<noteq> CHR '':''"
    proof (cases "i < length d")
      case True
      then show ?thesis using d by (simp add: hd_drop_conv_nth nth_append t_def)
    next
      case False
      then have "i = Suc (length d)" using i by simp
      then show ?thesis using assms(2) by (auto simp: t_def is_ws_def)
    qed
    then have "runs q p' (drop i t) = []" for p' by (cases "drop i t") (simp_all add: q_def)
    then show "?f i = []" by simp
  qed auto
  also have "\<dots> = map (\<lambda>i. (c @ CHR '':'' # take i s, [Some c])) (rev [0..<Suc (length (takeWhile is_ws s))])"
    unfolding q_def by (simp add: t_def runs_Cat_One c comp_def del: upt_Suc runs.simps(3))
  finally show ?thesis by (simp add: c t_def)
qed

lemma runs_CATEGORY:
  assumes "plain_category c" "s = [] \<or> \<not> is_ws (hd s)"
  shows "runs CATEGORY_RE p (c @ CHR '':'' # CHR '' '' # s) = [(c @ '': '', [Some c]), (c @ '':'', [Some c])]"
proof -
  have "takeWhile is_ws (CHR '' '' # s) = '' ''" using assms(2) by (cases s) (simp_all add: is_ws_def)
  then show ?thesis by (subst runs_CATEGORY_gen [OF assms(1)]) (simp_all add: upt_rec is_ws_def)
qed

lemma runs_field:
  assumes "plain_category c" "is_quote k" "k \<notin> set v" "v \<noteq> []"
  shows "runs ALL_FIELDS p (c @ '': '' @ (k # v @ [k]) @ s) = [(c @ '': '' @ k # v @ [k], [Some c, Some (k # v @ [k])])]"
proof -
  have r: "runs CATEGORY_RE p (c @ CHR '':'' # CHR '' '' # (k # v @ k # s)) = [(c @ '': '', [Some c]), (c @ '':'', [Some c])]"
    by (rule runs_CATEGORY) (use assms in auto)
  have "is_ws (CHR '' '')" by (simp add: is_ws_def)
  then show ?thesis
    unfolding ALL_FIELDS_def runs.simps using r runs_FREETEXT [OF assms(2-4)] by simp
qed

subsection \<open>One round\<close>

text \<open>The expression for text before a quoted category matches only if a word, blanks, a quoted text and more text follow each other.\<close>

lemma runs_quotes_ws: "is_ws c \<Longrightarrow> runs (Look (Cat QUOTES_RE FREETEXT_RE)) p (c # t) = []"
  by (auto simp: QUOTES_RE_def is_ws_def)

lemma runs_Look_none: "runs r p s = [] \<Longrightarrow> runs (Look r) p s = []"
  by simp

lemma no_textRe:
  assumes "\<And>p. runs (Cat QUOTES_RE FREETEXT_RE) p (dropWhile is_ws (dropWhile (\<lambda>c. \<not> is_ws c) (dropWhile is_ws q))) = []"
  shows "match textRe q = None"
proof -
  let ?z = "Cat (Many 1 is_ws) (Look (Cat QUOTES_RE FREETEXT_RE))"
  let ?y = "Cat (Group (Many 1 (\<lambda>c. \<not> is_ws c))) ?z"
  have z: "runs ?z p b = []" if "\<And>p. runs (Cat QUOTES_RE FREETEXT_RE) p (dropWhile is_ws b) = []" for p b
    using that by (subst runs_Many_Cat) (simp_all add: runs_quotes_ws runs_Look_none Let_def del: runs.simps(3,9))
  have y: "runs ?y p s = []" if "\<And>p. runs (Cat QUOTES_RE FREETEXT_RE) p (dropWhile is_ws (dropWhile (\<lambda>c. \<not> is_ws c) s)) = []" for p s
    using z [OF that] by (subst runs_group_Many_Cat) (simp_all add: Let_def)
  have "runs (Cat (Many 0 is_ws) ?y) None q = []"
    using y [OF assms] by (subst runs_Many_Cat) (simp_all add: Let_def)
  then have "exec textRe None q = None" unfolding textRe_def exec_start .
  then show ?thesis by (simp add: match_def)
qed

lemma textRe_field:
  assumes "plain_category c" "is_quote k" "k \<notin> set v" "v \<noteq> []" "s = [] \<or> is_ws (hd s)"
  shows "match textRe (c @ '': '' @ (k # v @ [k]) @ s) = None"
proof (rule no_textRe)
  fix p
  let ?q = "c @ '': '' @ (k # v @ [k]) @ s"
  have "dropWhile is_ws ?q = ?q" using assms(1) by (cases c) (auto simp: plain_category_def)
  moreover have "dropWhile (\<lambda>c. \<not> is_ws c) ?q = CHR '' '' # k # v @ k # s"
    using assms(1) by (simp add: plain_category_def dropWhile_append2 is_ws_def)
  moreover have "is_ws (CHR '' '')" by (simp add: is_ws_def)
  then have "dropWhile is_ws (CHR '' '' # k # v @ k # s) = k # v @ k # s" using assms(2) by simp
  ultimately show "runs (Cat QUOTES_RE FREETEXT_RE) p (dropWhile is_ws (dropWhile (\<lambda>c. \<not> is_ws c) (dropWhile is_ws ?q))) = []"
    using assms by (simp add: runs_QUOTES)
qed

text \<open>Removing the outer quotes.\<close>

lemma runs_outer:
  "runs outer_quotes (Some p) (c # s) = (if is_quote c \<and> s = [] then [([c], [Some [c]])] else [])"
  "runs outer_quotes p' [] = []"
  "runs outer_quotes None (c # s) = (if is_quote c then ([c], [Some [c]]) # (if s = [] then [([c], [Some [c]])] else []) else [])"
  by (auto simp: outer_quotes_def before_def)

lemma strip_tail:
  "s \<noteq> [] \<Longrightarrow> replace_all outer_quotes [] (Some p) s = (if is_quote (last s) then butlast s else s)"
proof -
  have "exec outer_quotes (Some p) s = (if s \<noteq> [] \<and> is_quote (last s) then Some (butlast s, [last s], [Some [last s]], []) else None)"
    by (induction s arbitrary: p) (auto simp: runs_outer split: if_splits)
  then show "s \<noteq> [] \<Longrightarrow> ?thesis"
    by (subst replace_all.simps) (simp add: replace_all.simps runs_outer)
qed

lemma strip_quoted: "is_quote k \<Longrightarrow> strip_quotes (k # v @ [k]) = v"
  unfolding strip_quotes_def
  by (subst replace_all.simps) (simp add: exec_here runs_outer strip_tail)

lemma strip_plain: "c \<noteq> [] \<Longrightarrow> \<forall>x\<in>set c. \<not> is_quote x \<Longrightarrow> strip_quotes c = c"
proof -
  assume "c \<noteq> []" "\<forall>x\<in>set c. \<not> is_quote x"
  moreover have "runs outer_quotes p s = []" if "\<forall>x\<in>set s. \<not> is_quote x" for p s
    using that by (cases s; cases p) (auto simp: runs_outer)
  then have "exec outer_quotes p s = None" if "\<forall>x\<in>set s. \<not> is_quote x" for p s
    using that by (auto simp: exec_none)
  ultimately show ?thesis by (simp add: strip_quotes_def replace_all.simps)
qed

lemma remove_first_here: "f \<noteq> [] \<Longrightarrow> remove_first f (f @ s) = s"
  by (cases f) simp_all

subsection \<open>Facets\<close>

lemma next_facet_field:
  assumes "plain_category c" "quotable v" "s = [] \<or> is_ws (hd s)"
  shows "next_facet (c @ '': '' @ quoteValue v @ s) = Inr (c, v, trim s)"
proof -
  obtain k where k: "quoteValue v = k # v @ [k]" "is_quote k" "k \<notin> set v" by (rule quoteValue_quotes [OF assms(2)])
  have v: "v \<noteq> []" using assms(2) by (simp add: quotable_def)
  let ?f = "c @ '': '' @ quoteValue v"
  have "extractNextField (?f @ s) = Some ?f"
    using textRe_field [OF assms(1) k(2,3) v assms(3)] runs_field [OF assms(1) k(2,3) v, of None s]
    by (simp add: extractNextField_def extractFirstField_def match_all.simps exec_here k(1))
  moreover have cat: "exec CATEGORY_RE None ?f = Some ([], c @ '': '', [Some c], quoteValue v)"
    using exec_here [OF runs_CATEGORY [OF assms(1), of "k # v @ [k]" None]] k by simp
  moreover have "strip_quotes c = c" using assms(1) by (intro strip_plain) (auto simp: plain_category_def)
  moreover have "remove_first ?f (?f @ s) = s" by (rule remove_first_here) simp
  ultimately show ?thesis
    using strip_quoted [OF k(2), of v] by (simp add: next_facet_def Let_def match_def replace_match_def k(1))
qed

text \<open>Text without quotes and colons has no fields.\<close>

definition free_text :: "string \<Rightarrow> bool" where
  "free_text t \<longleftrightarrow> t \<noteq> [] \<and> trim t = t \<and> (\<forall>x\<in>set t. \<not> is_quote x \<and> x \<noteq> CHR '':'')"

lemma runs_QUOTES_none: "\<forall>x\<in>set s. \<not> is_quote x \<Longrightarrow> runs QUOTES_RE p s = []"
  by (cases s) (auto simp: QUOTES_RE_def is_quote_def)

lemma textRe_unquoted: "\<forall>x\<in>set s. \<not> is_quote x \<Longrightarrow> match textRe s = None"
proof (rule no_textRe)
  fix p assume "\<forall>x\<in>set s. \<not> is_quote x"
  then have "\<forall>x\<in>set (dropWhile is_ws (dropWhile (\<lambda>c. \<not> is_ws c) (dropWhile is_ws s))). \<not> is_quote x"
    by (meson set_dropWhileD)
  then show "runs (Cat QUOTES_RE FREETEXT_RE) p (dropWhile is_ws (dropWhile (\<lambda>c. \<not> is_ws c) (dropWhile is_ws s))) = []"
    by (intro runs_Cat_fail runs_QUOTES_none)
qed

lemma runs_colon_none:
  assumes "CHR '':'' \<notin> set a"
  shows "runs (Cat (One (\<lambda>c. c = CHR '':'')) r) p (drop n a) = []"
proof (cases "drop n a")
  case (Cons x s)
  then have "x \<in> set a" by (intro in_set_dropD [of x n a]) simp
  then have "x \<noteq> CHR '':''" using assms by blast
  then show ?thesis unfolding Cons runs_Cat_One by simp
qed simp

lemma exec_fields_none: "CHR '':'' \<notin> set s \<Longrightarrow> exec ALL_FIELDS p s = None"
proof -
  have "runs CATEGORY_RE p a = []" if "CHR '':'' \<notin> set a" for p a
    unfolding CATEGORY_RE_def runs.simps(3) [of FREETEXT_RE] runs_colon_none [OF that] by (simp add: concat_eq_Nil_conv split_def)
  then show "CHR '':'' \<notin> set s \<Longrightarrow> ?thesis" by (auto simp: exec_none ALL_FIELDS_def)
qed

lemma trim_Nil [simp]: "trim [] = []"
  by (simp add: trim_def trim_start_def)

lemma next_facet_text:
  assumes "free_text t"
  shows "next_facet t = Inr (remainder, t, [])"
proof -
  have t: "t \<noteq> []" "trim t = t" "\<forall>x\<in>set t. \<not> is_quote x" "CHR '':'' \<notin> set t" using assms by (auto simp: free_text_def)
  have "extractNextField t = None"
    by (simp add: extractNextField_def extractFirstField_def textRe_unquoted [OF t(3)] match_all.simps exec_fields_none [OF t(4)])
  moreover have "extractSearchText t = t"
    by (simp add: extractSearchText_def replace_all.simps exec_fields_none [OF t(4)] t(2))
  moreover have "remove_first t t = []" using remove_first_here [OF t(1), of "[]"] by simp
  ultimately show ?thesis by (simp add: next_facet_def Let_def)
qed

definition tidy :: "search_facet \<Rightarrow> bool" where
  "tidy f \<longleftrightarrow> plain_category (category f) \<and> quotable (facet_text f)"

lemma quoteCategory_plain: "\<forall>x\<in>set c. \<not> is_ws x \<and> \<not> is_quote x \<Longrightarrow> quoteCategory c = c"
  by (auto simp: quoteCategory_def is_quote_def Let_def)

lemma serialize_tidy: "tidy f \<Longrightarrow> serialize_facet f = category f @ '': '' @ quoteValue (facet_text f)"
proof -
  assume "tidy f"
  then have "quoteCategory (category f) = category f" "category f \<noteq> remainder" "trim (facet_text f) = facet_text f" "facet_text f \<noteq> []"
    by (auto simp: tidy_def plain_category_def quotable_def intro!: quoteCategory_plain)
  then show ?thesis by (simp add: serialize_facet_def unquotable_def Let_def)
qed

text \<open>A text that neither begins nor ends with a blank.\<close>

definition solid :: "string \<Rightarrow> bool" where
  "solid s \<longleftrightarrow> s \<noteq> [] \<and> \<not> is_ws (hd s) \<and> \<not> is_ws (last s)"

lemma solid_trim: "t \<noteq> [] \<Longrightarrow> trim t = t \<Longrightarrow> solid t"
proof -
  assume t: "t \<noteq> []" "trim t = t"
  have d: "dropWhile is_ws t = t" using trim_same_length(1) [of t] t(2) by simp
  then have "dropWhile is_ws (rev t) = rev t" using t(2) by (simp add: trim_def trim_start_def) (metis rev_rev_ident)
  then show ?thesis using d t(1) by (simp add: solid_def dropWhile_eq_self_iff hd_rev)
qed

lemma trim_solid: "solid s \<Longrightarrow> trim s = s" "solid s \<Longrightarrow> trim ('' '' @ s) = s"
proof -
  assume s: "solid s"
  then show "trim s = s" by (simp add: solid_def trim_id)
  then show "trim ('' '' @ s) = s" by (simp add: trim_def trim_start_def is_ws_def)
qed

lemma solid_join: "\<forall>s\<in>set ss. solid s \<Longrightarrow> ss \<noteq> [] \<Longrightarrow> solid (join '' '' ss)"
  by (induction "'' ''" ss rule: join.induct) (auto simp: solid_def)

lemma solid_serialize: "tidy f \<Longrightarrow> solid (serialize_facet f)"
proof -
  assume f: "tidy f"
  obtain k where "quoteValue (facet_text f) = k # facet_text f @ [k]" "is_quote k"
    using f by (auto simp: tidy_def elim: quoteValue_quotes)
  then show ?thesis using f serialize_tidy [OF f] by (auto simp: tidy_def plain_category_def solid_def)
qed

definition text_facets :: "string \<Rightarrow> search_facet list" where
  "text_facets t = (if t = [] then [] else [\<lparr>category = remainder, facet_text = t\<rparr>])"

lemma serialize_text: "free_text t \<Longrightarrow> serialize_facet \<lparr>category = remainder, facet_text = t\<rparr> = t"
proof -
  have "quoteCategory remainder = remainder" by (rule quoteCategory_plain) (simp add: remainder_def is_ws_def is_quote_def)
  then show "free_text t \<Longrightarrow> ?thesis" by (simp add: serialize_facet_def free_text_def Let_def)
qed

lemma facets_read:
  assumes "\<forall>f\<in>set fs. tidy f" "t = [] \<or> free_text t"
  shows "extractAllFacets (join '' '' (map serialize_facet (fs @ text_facets t))) = Inr (fs @ text_facets t)"
  using assms(1)
proof (induction fs)
  case Nil
  show ?case
  proof (cases "t = []")
    case False
    then have t: "free_text t" "trim t = t" using assms(2) by (auto simp: free_text_def)
    then have "extractAllFacets t = Inr [\<lparr>category = remainder, facet_text = t\<rparr>]"
      using False t by (simp add: extractAllFacets.simps next_facet_text) (simp add: remainder_def)
    then show ?thesis using False t(1) by (simp add: text_facets_def serialize_text)
  qed (simp add: text_facets_def extractAllFacets.simps)
next
  case (Cons f fs)
  define rest where "rest = map serialize_facet (fs @ text_facets t)"
  have f: "plain_category (category f)" "quotable (facet_text f)" using Cons.prems by (simp_all add: tidy_def)
  have q: "join '' '' (serialize_facet f # rest) =
      category f @ '': '' @ quoteValue (facet_text f) @ (if rest = [] then [] else '' '' @ join '' '' rest)"
    using Cons.prems serialize_tidy [of f] by (cases rest) simp_all
  have "solid t" if "free_text t" using that solid_trim [of t] by (simp add: free_text_def)
  then have "\<forall>s\<in>set rest. solid s"
    using Cons.prems assms(2) by (auto simp: rest_def text_facets_def solid_serialize serialize_text)
  then have tail: "trim (if rest = [] then [] else '' '' @ join '' '' rest) = join '' '' rest"
    using trim_solid(2) [OF solid_join [of rest]] by (cases rest) simp_all
  have "next_facet (join '' '' (serialize_facet f # rest)) = Inr (category f, facet_text f, join '' '' rest)"
    unfolding q by (subst next_facet_field [OF f]) (simp_all only: tail, simp_all add: is_ws_def)
  moreover have "join '' '' rest \<noteq> join '' '' (serialize_facet f # rest)"
    unfolding q by (rule notI, drule arg_cong [of _ _ length]) (auto split: if_splits)
  moreover have "join '' '' (serialize_facet f # rest) \<noteq> []" unfolding q by simp
  ultimately show ?case
    using f Cons.IH Cons.prems
    by (subst extractAllFacets.simps) (simp add: plain_category_def quotable_def rest_def)
qed

text \<open>
  C8. Whatever tidy facets a box has, in whatever order, with or without free text behind them:
  the text that it prints for them is read back as the same facets in the same order, and the
  text as a facet of its own.
\<close>

theorem search_text_roundtrip:
  assumes "\<forall>f\<in>set fs. tidy f" "t = [] \<or> free_text t"
  shows "extractAllFacets (join '' '' (map serialize_facet (fs @ text_facets t))) = Inr (fs @ text_facets t)"
  by (rule facets_read [OF assms])

lemma search_text_roundtrip_witness:
  "extractAllFacets (''name: '' @ [CHR 0x22] @ ''A B'' @ [CHR 0x22] @ '' country: '' @ [CHR 0x22] @ ''DNK'' @ [CHR 0x22] @ '' north'') =
     Inr [\<lparr>category = ''name'', facet_text = ''A B''\<rparr>, \<lparr>category = ''country'', facet_text = ''DNK''\<rparr>,
          \<lparr>category = ''text'', facet_text = ''north''\<rparr>]"
proof -
  let ?fs = "[\<lparr>category = ''name'', facet_text = ''A B''\<rparr>, \<lparr>category = ''country'', facet_text = ''DNK''\<rparr>]"
  have "list_all tidy ?fs" "free_text ''north''"
    by (simp_all add: tidy_def plain_category_def quotable_def free_text_def remainder_def is_ws_def is_quote_def trim_def trim_start_def)
  moreover have "join '' '' (map serialize_facet (?fs @ text_facets ''north'')) =
      ''name: '' @ [CHR 0x22] @ ''A B'' @ [CHR 0x22] @ '' country: '' @ [CHR 0x22] @ ''DNK'' @ [CHR 0x22] @ '' north''"
    by code_simp
  ultimately show ?thesis
    using search_text_roundtrip [of ?fs "''north''"] by (simp add: text_facets_def remainder_def)
qed

subsection \<open>Texts that are not read back\<close>

text \<open>A word, a quoted text, and more text at once: the word counts as a field of its own.\<close>

lemma textRe_matches:
  assumes "w \<noteq> []" "\<forall>c\<in>set w. \<not> is_ws c" "is_quote k" "k \<notin> set x" "x \<noteq> []" "\<not> is_quote y" "\<not> is_ws y"
  shows "extractNextField (w @ CHR '' '' # k # x @ k # y # z) = Some w"
proof -
  define L where "L = Look (Cat QUOTES_RE FREETEXT_RE)"
  define Z where "Z = Cat (Many 1 is_ws) L"
  define Y where "Y = Cat (Group (Many 1 (\<lambda>c. \<not> is_ws c))) Z"
  let ?b = "k # x @ k # y # z" and ?q = "w @ CHR '' '' # k # x @ k # y # z"
  have none: "is_ws c \<Longrightarrow> runs L p (c # t) = []" "\<not> is_ws c \<Longrightarrow> runs Z p (c # t) = []" "is_ws c \<Longrightarrow> runs Y p (c # t) = []" for c p t
    unfolding L_def by (rule runs_quotes_ws) (simp_all add: Y_def Z_def)
  have ws: "is_ws (CHR '' '')" by (simp add: is_ws_def)
  have F: "runs FREETEXT_RE p (y # z) \<noteq> []" for p by (simp add: runs_FREETEXT_word [OF assms(6,7)])
  have "runs (Cat QUOTES_RE FREETEXT_RE) p ?b \<noteq> []" for p
    using F runs_QUOTES [OF assms(3-5), of p "y # z"] by simp
  then have l: "\<exists>g. runs L p ?b = [([], g)]" for p
    unfolding L_def by (cases "runs (Cat QUOTES_RE FREETEXT_RE) p ?b") (simp_all del: runs.simps(3))
  have "dropWhile is_ws ?b = ?b" "takeWhile is_ws ?b = []" using assms(3) by simp_all
  then have z: "\<exists>g. runs Z p (CHR '' '' # ?b) = [('' '', g)]" for p
    using ws l [of "before p '' ''"] unfolding Z_def by (subst runs_Many_Cat [OF none(1)]) (auto simp: Let_def)
  have "takeWhile (\<lambda>c. \<not> is_ws c) ?q = w" "dropWhile (\<lambda>c. \<not> is_ws c) ?q = CHR '' '' # ?b" "1 \<le> length w"
    using assms(1,2) ws by (auto intro: takeWhile_append_stop dropWhile_append_stop simp: Suc_le_eq)
  then have y: "\<exists>g. runs Y p ?q = [(w @ '' '', Some w # g)]" for p
    using z [of "before p w"] unfolding Y_def by (subst runs_group_Many_Cat [OF none(2)]) (auto simp: Let_def)
  have "takeWhile is_ws ?q = []" "dropWhile is_ws ?q = ?q" using assms(1,2) by (cases w; simp)+
  then have "\<exists>g. runs (Cat (Many 0 is_ws) Y) None ?q = [(w @ '' '', Some w # g)]"
    using y [of "before None []"] by (subst runs_Many_Cat [OF none(3)]) (auto simp: Let_def)
  then obtain g where "runs (Cat (Many 0 is_ws) Y) None ?q = [(w @ '' '', Some w # g)]" by blast
  then have "runs textRe None ?q = [(w @ '' '', Some w # g)]"
    unfolding textRe_def L_def [symmetric] Z_def [symmetric] Y_def [symmetric]
    by (simp add: before_def runs.simps(3) [of AtStart] del: runs.simps(3))
  from exec_here [OF this] show ?thesis by (simp add: extractNextField_def match_def)
qed

text \<open>
  A value with both kinds of quotes is printed with a pair of double quotes around it that
  its own double quote ends early. When the box is searched again its category is lost: the
  text is read as if the category and the colon were not there.
\<close>

theorem both_quotes_lose_category:
  assumes "plain_category c" "trim v = v" "v = x @ CHR 0x22 # y # z" "x \<noteq> []" "CHR 0x22 \<notin> set x" "CHR 0x27 \<in> set v"
    "\<not> is_quote y" "\<not> is_ws y"
  shows "extractAllFacets (serialize_facet \<lparr>category = c, facet_text = v\<rparr>) = extractAllFacets (quoteValue v)"
proof -
  have v: "quoteValue v = CHR 0x22 # v @ [CHR 0x22]" using assms(6) by (simp add: quoteValue_def)
  have c: "c \<noteq> []" "\<forall>x\<in>set c. \<not> is_ws x \<and> \<not> is_quote x" "c \<noteq> remainder" using assms(1) by (auto simp: plain_category_def)
  have "serialize_facet \<lparr>category = c, facet_text = v\<rparr> = (c @ '':'') @ CHR '' '' # quoteValue v"
    using assms(2,3) c quoteCategory_plain [OF c(2)] by (simp add: serialize_facet_def unquotable_def Let_def)
  moreover define q where "q = (c @ '':'') @ CHR '' '' # quoteValue v"
  ultimately have s: "serialize_facet \<lparr>category = c, facet_text = v\<rparr> = q" by simp
  have field: "extractNextField q = Some (c @ '':'')"
    using textRe_matches [of "c @ '':''" "CHR 0x22" x y "z @ [CHR 0x22]"] assms(3-5,7,8) c(2) v by (auto simp: q_def is_ws_def)
  have "exec CATEGORY_RE None (c @ '':'') = Some ([], c @ '':'', [Some c], [])"
    using exec_here [of CATEGORY_RE None "c @ '':''"] runs_CATEGORY_gen [OF assms(1), of "[]" None] by simp
  moreover have "remove_first (c @ '':'') q = CHR '' '' # quoteValue v" unfolding q_def by (rule remove_first_here) simp
  moreover have "solid (quoteValue v)" by (simp add: v solid_def)
  ultimately have "next_facet q = Inr (c, [], quoteValue v)"
    using strip_plain [of c] c trim_solid(2) [of "quoteValue v"]
    by (simp add: next_facet_def field match_def replace_match_def Let_def strip_quotes_def replace_all.simps runs_outer)
  moreover have "q \<noteq> []" "quoteValue v \<noteq> q" by (auto simp: q_def dest: arg_cong [of _ _ length])
  ultimately show ?thesis unfolding s by (subst extractAllFacets.simps) (simp split: sum.split)
qed

lemma both_quotes_lose_category_witness:
  "extractAllFacets (serialize_facet \<lparr>category = ''name'', facet_text = ''5'' @ [CHR 0x22] @ ''x'' @ [CHR 0x27] @ ''3''\<rparr>) =
     Inr [\<lparr>category = ''text'', facet_text = [CHR 0x22] @ ''5'' @ [CHR 0x22] @ ''x'' @ [CHR 0x27] @ ''3'' @ [CHR 0x22]\<rparr>]"
proof -
  have "extractAllFacets (serialize_facet \<lparr>category = ''name'', facet_text = ''5'' @ [CHR 0x22] @ ''x'' @ [CHR 0x27] @ ''3''\<rparr>) =
      extractAllFacets (quoteValue (''5'' @ [CHR 0x22] @ ''x'' @ [CHR 0x27] @ ''3''))"
    by (rule both_quotes_lose_category [of "''name''" _ "''5''" "CHR ''x''" "[CHR 0x27] @ ''3''"])
      (simp_all add: plain_category_def remainder_def is_quote_def is_ws_def trim_def trim_start_def)
  also have "\<dots> = Inr [\<lparr>category = ''text'', facet_text = [CHR 0x22] @ ''5'' @ [CHR 0x22] @ ''x'' @ [CHR 0x27] @ ''3'' @ [CHR 0x22]\<rparr>]"
    by code_simp
  finally show ?thesis .
qed

text \<open>
  A lone colon before a quoted text with more text behind it makes the parser fail: the
  colon counts as a field, but has no category, and the match that is taken for granted is
  not there.
\<close>

theorem lone_colon_throws:
  assumes "is_quote k" "k \<notin> set x" "x \<noteq> []" "\<not> is_quote y" "\<not> is_ws y"
  shows "extractAllFacets ('': '' @ k # x @ k # y # z) = Inl TypeError"
proof -
  have "extractNextField ('': '' @ k # x @ k # y # z) = Some '':''"
    using textRe_matches [of "'':''" k x y z] assms by (simp add: is_ws_def)
  moreover have "match CATEGORY_RE '':'' = None" by code_simp
  ultimately have "next_facet ('': '' @ k # x @ k # y # z) = Inl TypeError" by (simp add: next_facet_def Let_def)
  then show ?thesis by (simp add: extractAllFacets.simps)
qed

lemma lone_colon_throws_witness: "extractAllFacets ('': '' @ [CHR 0x22] @ ''a'' @ [CHR 0x22] @ ''b'') = Inl TypeError"
  using lone_colon_throws [of "CHR 0x22" "''a''" "CHR ''b''" "[]"] by (simp add: is_quote_def is_ws_def)

text \<open>Where a word stands before a colon there is a category.\<close>

lemma word_colon_category:
  assumes "w \<noteq> []" "\<forall>c\<in>set w. \<not> is_ws c" "\<not> is_quote (hd w)"
  shows "exec CATEGORY_RE p (w @ CHR '':'' # r) \<noteq> None"
proof -
  obtain x d where w: "w = x # d" using assms(1) by (cases w) auto
  let ?t = "d @ CHR '':'' # r" and ?q = "Cat (One (\<lambda>c. c = CHR '':'')) (Many 0 is_ws)"
  have "length (takeWhile (\<lambda>c. \<not> is_ws c) ?t) \<ge> length d" using assms(2) by (simp add: w takeWhile_append2)
  then have "(w, [Some w]) \<in> set (runs FREETEXT_RE p (x # ?t))"
    using assms(2,3) by (subst runs_FREETEXT_word) (auto simp: w image_iff simp del: upt_Suc intro!: bexI [of _ "length d"])
  moreover have "runs ?q (before p w) (CHR '':'' # r) \<noteq> []" by (subst runs_Cat_One) simp
  ultimately have "runs CATEGORY_RE p (w @ CHR '':'' # r) \<noteq> []"
    unfolding CATEGORY_RE_def runs.simps(3) [of FREETEXT_RE] by (force simp: w concat_eq_Nil_conv simp del: runs.simps)
  then obtain m g ws where "runs CATEGORY_RE p (w @ CHR '':'' # r) = (m, g) # ws"
    by (cases "runs CATEGORY_RE p (w @ CHR '':'' # r)") auto
  from exec_here [OF this] show ?thesis by simp
qed

lemma field_category:
  assumes "(m, g) \<in> set (runs ALL_FIELDS p s)" "\<forall>c\<in>set s. \<not> is_quote c"
  shows "exec CATEGORY_RE None m \<noteq> None"
proof -
  obtain w g1 m2 r where w: "(w, g1) \<in> set (runs FREETEXT_RE p s)" and m: "m = w @ CHR '':'' # r"
    using assms(1) unfolding ALL_FIELDS_def CATEGORY_RE_def
    by (auto simp del: runs.simps simp: runs.simps(3) runs.simps(1) split: list.splits if_splits)
  obtain x t where s: "s = x # t" using w by (cases s) auto
  have x: "\<not> is_ws x" using w runs_FREETEXT_ws [of s p] by (cases "is_ws x") (simp_all add: s)
  then obtain i where "w = x # take i t" "i \<le> length (takeWhile (\<lambda>c. \<not> is_ws c) t)"
    using w assms(2) runs_FREETEXT_word [of x p t] by (auto simp: s)
  then have "\<forall>c\<in>set w. \<not> is_ws c" using x by (auto simp: dest!: set_takeWhileD) (metis append_take_drop_id set_takeWhileD takeWhile_eq_take in_set_takeD take_take min.absorb1)
  then show ?thesis using \<open>w = x # take i t\<close> assms(2) unfolding m by (intro word_colon_category) (auto simp: s)
qed

text \<open>
  A text without quotes never makes the parser fail, whatever else is in it.
\<close>

theorem unquoted_text_parses: "\<forall>c\<in>set q. \<not> is_quote c \<Longrightarrow> \<exists>fs. extractAllFacets q = Inr fs"
proof (induction "length q" arbitrary: q rule: less_induct)
  case less
  show ?case
  proof (cases "q = []")
    case False
    have "match CATEGORY_RE (the (extractNextField q)) \<noteq> None" if ne: "extractNextField q \<noteq> None"
    proof -
      obtain b m g a where e: "exec ALL_FIELDS None q = Some (b, m, g, a)" "extractNextField q = Some m"
        using ne textRe_unquoted [OF less.prems] match_all.simps [of ALL_FIELDS None q]
        by (cases "exec ALL_FIELDS None q") (auto simp: extractNextField_def extractFirstField_def)
      have "\<forall>c\<in>set (m @ a). \<not> is_quote c" using exec_parts [OF e(1)] less.prems by auto
      from field_category [OF exec_some [OF e(1)] this] show ?thesis by (auto simp: match_def e(2) split: option.split)
    qed
    then obtain c v q' where n: "next_facet q = Inr (c, v, q')"
      by (cases "next_facet q") (auto simp: next_facet_def Let_def split: if_splits option.splits)
    obtain t where t: "q' = trim (remove_first t q)" by (rule next_facet_rest [OF n])
    have "\<forall>c\<in>set q'. \<not> is_quote c"
      using less.prems set_trim [of "remove_first t q"] set_remove_first [of t q] unfolding t by blast
    then have "q' \<noteq> q \<Longrightarrow> \<exists>fs. extractAllFacets q' = Inr fs" using less.hyps next_facet_shorter [OF n] by blast
    then show ?thesis by (subst extractAllFacets.simps) (auto simp: n False)
  qed (simp add: extractAllFacets.simps)
qed

lemma unquoted_text_parses_witness: "\<exists>fs. extractAllFacets ''a:b :c d: :'' = Inr fs"
  by (rule unquoted_text_parses) (simp add: is_quote_def)

end
