(* ===== verification/BaseData.thy ===== *)
theory BaseData
  imports JsUri
begin

text \<open>
  \<open>js/base-data.js\<close>: the tables of values that the page offers for the facets of the filter
  boxes (\<open>shipTypes\<close>, \<open>sourceTypes\<close>, \<open>navstatValues\<close>, \<open>countryList\<close>) and for the columns of
  table output (\<open>outputTableFields\<close>). An entry is an object with a label, which the user sees,
  and a value, which goes into the filter.
\<close>

record choice =
  label :: string
  choice_value :: string

definition choice :: "string \<Rightarrow> string \<Rightarrow> choice" where
  "choice l v = \<lparr>label = l, choice_value = v\<rparr>"

lemma choice_simps [simp]: "label (choice l v) = l" "choice_value (choice l v) = v"
  by (simp_all add: choice_def)

subsection \<open>The tables\<close>

definition shipTypes :: "choice list" where
  "shipTypes = [
     choice ''Undefined'' ''UNDEFINED'',
     choice ''Wig'' ''WIG'',
     choice ''Pilot'' ''PILOT'',
     choice ''Sar'' ''SAR'',
     choice ''Tug'' ''TUG'',
     choice ''Port Tender'' ''PORT_TENDER'',
     choice ''Anti Pollution'' ''ANTI_POLLUTION'',
     choice ''Law Enforcement'' ''LAW_ENFORCEMENT'',
     choice ''Medical'' ''MEDICAL'',
     choice ''Fishing'' ''FISHING'',
     choice ''Towing'' ''TOWING'',
     choice ''Towing Long Wide'' ''TOWING_LONG_WIDE'',
     choice ''Dredging'' ''DREDGING'',
     choice ''Diving'' ''DIVING'',
     choice ''Military'' ''MILITARY'',
     choice ''Sailing'' ''SAILING'',
     choice ''Pleasure'' ''PLEASURE'',
     choice ''Hsc'' ''HSC'',
     choice ''Passenger'' ''PASSENGER'',
     choice ''Cargo'' ''CARGO'',
     choice ''Tanker'' ''TANKER'',
     choice ''Ships According to RR'' ''SHIPS_ACCORDING_TO_RR'',
     choice ''Unknown'' ''UNKNOWN'']"

definition sourceTypes :: "choice list" where
  "sourceTypes = [
     choice ''Any'' ''any'',
     choice ''Live'' ''LIVE'',
     choice ''Sat'' ''SAT'']"

definition navstatValues :: "choice list" where
  "navstatValues = [
     choice ''Under way using engine'' ''UNDER_WAY_USING_ENGINE'',
     choice ''At anchor'' ''AT_ANCHOR'',
     choice ''Not under command'' ''NOT_UNDER_COMMAND'',
     choice ''Restricted manoeuvrability'' ''RESTRICTED_MANOEUVRABILITY'',
     choice ''Constrained by draught'' ''CONSTRAINED_BY_HER_DRAUGHT'',
     choice ''Moored'' ''MOORED'',
     choice ''Aground'' ''AGROUND'',
     choice ''Engaged in fishing'' ''ENGAGED_IN_FISHING'',
     choice ''Under way'' ''UNDER_WAY'',
     choice ''Undefined'' ''UNDEFINED'',
     choice ''AIS-SART'' ''AIS_SART'']"

text \<open>The countries, in the order of the file, in two halves.\<close>

definition countryList_first :: "choice list" where
  "countryList_first = [
     choice ''AFGHANISTAN'' ''AFG'',
     choice ([CHR 0xC5] @ ''LAND ISLANDS'') ''ALA'',
     choice ''ALBANIA'' ''ALB'',
     choice ''ALGERIA'' ''DZA'',
     choice ''AMERICAN SAMOA'' ''ASM'',
     choice ''ANDORRA'' ''AND'',
     choice ''ANGOLA'' ''AGO'',
     choice ''ANGUILLA'' ''AIA'',
     choice ''ANTARCTICA'' ''ATA'',
     choice ''ANTIGUA AND BARBUDA'' ''ATG'',
     choice ''ARGENTINA'' ''ARG'',
     choice ''ARMENIA'' ''ARM'',
     choice ''ARUBA'' ''ABW'',
     choice ''AUSTRALIA'' ''AUS'',
     choice ''AUSTRIA'' ''AUT'',
     choice ''AZERBAIJAN'' ''AZE'',
     choice ''BAHAMAS'' ''BHS'',
     choice ''BAHRAIN'' ''BHR'',
     choice ''BANGLADESH'' ''BGD'',
     choice ''BARBADOS'' ''BRB'',
     choice ''BELARUS'' ''BLR'',
     choice ''BELGIUM'' ''BEL'',
     choice ''BELIZE'' ''BLZ'',
     choice ''BENIN'' ''BEN'',
     choice ''BERMUDA'' ''BMU'',
     choice ''BHUTAN'' ''BTN'',
     choice ''BOLIVIA, PLURINATIONAL STATE OF'' ''BOL'',
     choice ''BONAIRE, SINT EUSTATIUS AND SABA'' ''BES'',
     choice ''BOSNIA AND HERZEGOVINA'' ''BIH'',
     choice ''BOTSWANA'' ''BWA'',
     choice ''BOUVET ISLAND'' ''BVT'',
     choice ''BRAZIL'' ''BRA'',
     choice ''BRITISH INDIAN OCEAN TERRITORY'' ''IOT'',
     choice ''BRUNEI DARUSSALAM'' ''BRN'',
     choice ''BULGARIA'' ''BGR'',
     choice ''BURKINA FASO'' ''BFA'',
     choice ''BURUNDI'' ''BDI'',
     choice ''CAMBODIA'' ''KHM'',
     choice ''CAMEROON'' ''CMR'',
     choice ''CANADA'' ''CAN'',
     choice ''CAPE VERDE'' ''CPV'',
     choice ''CAYMAN ISLANDS'' ''CYM'',
     choice ''CENTRAL AFRICAN REPUBLIC'' ''CAF'',
     choice ''CHAD'' ''TCD'',
     choice ''CHILE'' ''CHL'',
     choice ''CHINA'' ''CHN'',
     choice ''CHRISTMAS ISLAND'' ''CXR'',
     choice ''COCOS (KEELING) ISLANDS'' ''CCK'',
     choice ''COLOMBIA'' ''COL'',
     choice ''COMOROS'' ''COM'',
     choice ''CONGO'' ''COG'',
     choice ''CONGO, THE DEMOCRATIC REPUBLIC OF THE'' ''COD'',
     choice ''COOK ISLANDS'' ''COK'',
     choice ''COSTA RICA'' ''CRI'',
     choice (''C'' @ [CHR 0xD4] @ ''TE D'IVOIRE'') ''CIV'',
     choice ''CROATIA'' ''HRV'',
     choice ''CUBA'' ''CUB'',
     choice (''CURA'' @ [CHR 0xC7] @ ''AO'') ''CUW'',
     choice ''CYPRUS'' ''CYP'',
     choice ''CZECH REPUBLIC'' ''CZE'',
     choice ''DENMARK'' ''DNK'',
     choice ''DJIBOUTI'' ''DJI'',
     choice ''DOMINICA'' ''DMA'',
     choice ''DOMINICAN REPUBLIC'' ''DOM'',
     choice ''ECUADOR'' ''ECU'',
     choice ''EGYPT'' ''EGY'',
     choice ''EL SALVADOR'' ''SLV'',
     choice ''EQUATORIAL GUINEA'' ''GNQ'',
     choice ''ERITREA'' ''ERI'',
     choice ''ESTONIA'' ''EST'',
     choice ''ETHIOPIA'' ''ETH'',
     choice ''FALKLAND ISLANDS (MALVINAS)'' ''FLK'',
     choice ''FAROE ISLANDS'' ''FRO'',
     choice ''FIJI'' ''FJI'',
     choice ''FINLAND'' ''FIN'',
     choice ''FRANCE'' ''FRA'',
     choice ''FRENCH GUIANA'' ''GUF'',
     choice ''FRENCH POLYNESIA'' ''PYF'',
     choice ''FRENCH SOUTHERN TERRITORIES'' ''ATF'',
     choice ''GABON'' ''GAB'',
     choice ''GAMBIA'' ''GMB'',
     choice ''GEORGIA'' ''GEO'',
     choice ''GERMANY'' ''DEU'',
     choice ''GHANA'' ''GHA'',
     choice ''GIBRALTAR'' ''GIB'',
     choice ''GREECE'' ''GRC'',
     choice ''GREENLAND'' ''GRL'',
     choice ''GRENADA'' ''GRD'',
     choice ''GUADELOUPE'' ''GLP'',
     choice ''GUAM'' ''GUM'',
     choice ''GUATEMALA'' ''GTM'',
     choice ''GUERNSEY'' ''GGY'',
     choice ''GUINEA'' ''GIN'',
     choice ''GUINEA-BISSAU'' ''GNB'',
     choice ''GUYANA'' ''GUY'',
     choice ''HAITI'' ''HTI'',
     choice ''HEARD ISLAND AND MCDONALD ISLANDS'' ''HMD'',
     choice ''HOLY SEE (VATICAN CITY STATE)'' ''VAT'',
     choice ''HONDURAS'' ''HND'',
     choice ''HONG KONG'' ''HKG'',
     choice ''HUNGARY'' ''HUN'',
     choice ''ICELAND'' ''ISL'',
     choice ''INDIA'' ''IND'',
     choice ''INDONESIA'' ''IDN'',
     choice ''IRAN, ISLAMIC REPUBLIC OF'' ''IRN'',
     choice ''IRAQ'' ''IRQ'',
     choice ''IRELAND'' ''IRL'',
     choice ''ISLE OF MAN'' ''IMN'',
     choice ''ISRAEL'' ''ISR'',
     choice ''ITALY'' ''ITA'',
     choice ''JAMAICA'' ''JAM'',
     choice ''JAPAN'' ''JPN'',
     choice ''JERSEY'' ''JEY'',
     choice ''JORDAN'' ''JOR'',
     choice ''KAZAKHSTAN'' ''KAZ'',
     choice ''KENYA'' ''KEN'',
     choice ''KIRIBATI'' ''KIR'',
     choice ''KOREA, DEMOCRATIC PEOPLE'S REPUBLIC OF'' ''PRK'',
     choice ''KOREA, REPUBLIC OF'' ''KOR'',
     choice ''KUWAIT'' ''KWT'',
     choice ''KYRGYZSTAN'' ''KGZ'',
     choice ''LAO PEOPLE'S DEMOCRATIC REPUBLIC'' ''LAO'',
     choice ''LATVIA'' ''LVA'',
     choice ''LEBANON'' ''LBN'',
     choice ''LESOTHO'' ''LSO'']"

definition countryList_second :: "choice list" where
  "countryList_second = [
     choice ''LIBERIA'' ''LBR'',
     choice ''LIBYA'' ''LBY'',
     choice ''LIECHTENSTEIN'' ''LIE'',
     choice ''LITHUANIA'' ''LTU'',
     choice ''LUXEMBOURG'' ''LUX'',
     choice ''MACAO'' ''MAC'',
     choice ''MACEDONIA, THE FORMER YUGOSLAV REPUBLIC OF'' ''MKD'',
     choice ''MADAGASCAR'' ''MDG'',
     choice ''MALAWI'' ''MWI'',
     choice ''MALAYSIA'' ''MYS'',
     choice ''MALDIVES'' ''MDV'',
     choice ''MALI'' ''MLI'',
     choice ''MALTA'' ''MLT'',
     choice ''MARSHALL ISLANDS'' ''MHL'',
     choice ''MARTINIQUE'' ''MTQ'',
     choice ''MAURITANIA'' ''MRT'',
     choice ''MAURITIUS'' ''MUS'',
     choice ''MAYOTTE'' ''MYT'',
     choice ''MEXICO'' ''MEX'',
     choice ''MICRONESIA, FEDERATED STATES OF'' ''FSM'',
     choice ''MOLDOVA, REPUBLIC OF'' ''MDA'',
     choice ''MONACO'' ''MCO'',
     choice ''MONGOLIA'' ''MNG'',
     choice ''MONTENEGRO'' ''MNE'',
     choice ''MONTSERRAT'' ''MSR'',
     choice ''MOROCCO'' ''MAR'',
     choice ''MOZAMBIQUE'' ''MOZ'',
     choice ''MYANMAR'' ''MMR'',
     choice ''NAMIBIA'' ''NAM'',
     choice ''NAURU'' ''NRU'',
     choice ''NEPAL'' ''NPL'',
     choice ''NETHERLANDS'' ''NLD'',
     choice ''NEW CALEDONIA'' ''NCL'',
     choice ''NEW ZEALAND'' ''NZL'',
     choice ''NICARAGUA'' ''NIC'',
     choice ''NIGER'' ''NER'',
     choice ''NIGERIA'' ''NGA'',
     choice ''NIUE'' ''NIU'',
     choice ''NORFOLK ISLAND'' ''NFK'',
     choice ''NORTHERN MARIANA ISLANDS'' ''MNP'',
     choice ''NORWAY'' ''NOR'',
     choice ''OMAN'' ''OMN'',
     choice ''PAKISTAN'' ''PAK'',
     choice ''PALAU'' ''PLW'',
     choice ''PALESTINE, STATE OF'' ''PSE'',
     choice ''PANAMA'' ''PAN'',
     choice ''PAPUA NEW GUINEA'' ''PNG'',
     choice ''PARAGUAY'' ''PRY'',
     choice ''PERU'' ''PER'',
     choice ''PHILIPPINES'' ''PHL'',
     choice ''PITCAIRN'' ''PCN'',
     choice ''POLAND'' ''POL'',
     choice ''PORTUGAL'' ''PRT'',
     choice ''PUERTO RICO'' ''PRI'',
     choice ''QATAR'' ''QAT'',
     choice (''R'' @ [CHR 0xC9] @ ''UNION'') ''REU'',
     choice ''ROMANIA'' ''ROU'',
     choice ''RUSSIAN FEDERATION'' ''RUS'',
     choice ''RWANDA'' ''RWA'',
     choice (''SAINT BARTH'' @ [CHR 0xC9] @ ''LEMY'') ''BLM'',
     choice ''SAINT HELENA, ASCENSION AND TRISTAN DA CUNHA'' ''SHN'',
     choice ''SAINT KITTS AND NEVIS'' ''KNA'',
     choice ''SAINT LUCIA'' ''LCA'',
     choice ''SAINT MARTIN (FRENCH PART)'' ''MAF'',
     choice ''SAINT PIERRE AND MIQUELON'' ''SPM'',
     choice ''SAINT VINCENT AND THE GRENADINES'' ''VCT'',
     choice ''SAMOA'' ''WSM'',
     choice ''SAN MARINO'' ''SMR'',
     choice ''SAO TOME AND PRINCIPE'' ''STP'',
     choice ''SAUDI ARABIA'' ''SAU'',
     choice ''SENEGAL'' ''SEN'',
     choice ''SERBIA'' ''SRB'',
     choice ''SEYCHELLES'' ''SYC'',
     choice ''SIERRA LEONE'' ''SLE'',
     choice ''SINGAPORE'' ''SGP'',
     choice ''SINT MAARTEN (DUTCH PART)'' ''SXM'',
     choice ''SLOVAKIA'' ''SVK'',
     choice ''SLOVENIA'' ''SVN'',
     choice ''SOLOMON ISLANDS'' ''SLB'',
     choice ''SOMALIA'' ''SOM'',
     choice ''SOUTH AFRICA'' ''ZAF'',
     choice ''SOUTH GEORGIA AND THE SOUTH SANDWICH ISLANDS'' ''SGS'',
     choice ''SOUTH SUDAN'' ''SSD'',
     choice ''SPAIN'' ''ESP'',
     choice ''SRI LANKA'' ''LKA'',
     choice ''SUDAN'' ''SDN'',
     choice ''SURINAME'' ''SUR'',
     choice ''SVALBARD AND JAN MAYEN'' ''SJM'',
     choice ''SWAZILAND'' ''SWZ'',
     choice ''SWEDEN'' ''SWE'',
     choice ''SWITZERLAND'' ''CHE'',
     choice ''SYRIAN ARAB REPUBLIC'' ''SYR'',
     choice ''TAIWAN, PROVINCE OF CHINA'' ''TWN'',
     choice ''TAJIKISTAN'' ''TJK'',
     choice ''TANZANIA, UNITED REPUBLIC OF'' ''TZA'',
     choice ''THAILAND'' ''THA'',
     choice ''TIMOR-LESTE'' ''TLS'',
     choice ''TOGO'' ''TGO'',
     choice ''TOKELAU'' ''TKL'',
     choice ''TONGA'' ''TON'',
     choice ''TRINIDAD AND TOBAGO'' ''TTO'',
     choice ''TUNISIA'' ''TUN'',
     choice ''TURKEY'' ''TUR'',
     choice ''TURKMENISTAN'' ''TKM'',
     choice ''TURKS AND CAICOS ISLANDS'' ''TCA'',
     choice ''TUVALU'' ''TUV'',
     choice ''UGANDA'' ''UGA'',
     choice ''UKRAINE'' ''UKR'',
     choice ''UNITED ARAB EMIRATES'' ''ARE'',
     choice ''UNITED KINGDOM'' ''GBR'',
     choice ''UNITED STATES'' ''USA'',
     choice ''UNITED STATES MINOR OUTLYING ISLANDS'' ''UMI'',
     choice ''URUGUAY'' ''URY'',
     choice ''UZBEKISTAN'' ''UZB'',
     choice ''VANUATU'' ''VUT'',
     choice ''VENEZUELA, BOLIVARIAN REPUBLIC OF'' ''VEN'',
     choice ''VIET NAM'' ''VNM'',
     choice ''VIRGIN ISLANDS, BRITISH'' ''VGB'',
     choice ''VIRGIN ISLANDS, U.S.'' ''VIR'',
     choice ''WALLIS AND FUTUNA'' ''WLF'',
     choice ''WESTERN SAHARA'' ''ESH'',
     choice ''YEMEN'' ''YEM'',
     choice ''ZAMBIA'' ''ZMB'',
     choice ''ZIMBABWE'' ''ZWE'']"

definition countryList :: "choice list" where
  "countryList = countryList_first @ countryList_second"

definition outputTableField_choices :: "choice list" where
  "outputTableField_choices = [
     choice ''Longitude'' ''lon'',
     choice ''Latitude'' ''lat'',
     choice ''MMSI'' ''mmsi'',
     choice ''Time'' ''time'',
     choice ''Timestamp'' ''timestamp'']"

subsection \<open>What the tables hold\<close>

definition values_of :: "choice list \<Rightarrow> string list" where
  "values_of t = map choice_value t"

definition is_upper :: "char \<Rightarrow> bool" where
  "is_upper c \<longleftrightarrow> 65 \<le> (of_char c :: nat) \<and> (of_char c :: nat) \<le> 90"

text \<open>
  A word needs no encoding: it is not empty and has only letters, digits and the underscore.
\<close>

definition filter_word :: "string \<Rightarrow> bool" where
  "filter_word w \<longleftrightarrow> w \<noteq> [] \<and> (\<forall>c\<in>set w. unreserved c)"

definition alpha3 :: "string \<Rightarrow> bool" where
  "alpha3 w \<longleftrightarrow> length w = 3 \<and> (\<forall>c\<in>set w. is_upper c)"

lemma alpha3_word: "alpha3 w \<Longrightarrow> filter_word w"
  by (auto simp: alpha3_def filter_word_def is_upper_def unreserved_def Let_def)

lemma country_values_alpha3: "\<forall>w\<in>set (values_of countryList). alpha3 w"
  by code_simp

text \<open>To see that the 249 codes differ they are compared as numbers, around a pivot.\<close>

definition code_number :: "string \<Rightarrow> int" where
  "code_number w = foldl (\<lambda>n c. 256 * n + of_char c) 0 w"

function all_differ :: "int list \<Rightarrow> bool" where
  "all_differ [] = True"
| "all_differ (x # xs) =
     (list_all (\<lambda>y. y \<noteq> x) xs \<and> all_differ (filter (\<lambda>y. y < x) xs) \<and> all_differ (filter (\<lambda>y. x < y) xs))"
  by pat_completeness auto

termination by (relation "measure length") (simp_all add: less_Suc_eq_le)

lemma all_differ_distinct: "all_differ xs \<Longrightarrow> distinct xs"
proof (induction xs rule: all_differ.induct)
  case (2 x xs)
  then have x: "x \<notin> set xs" and d: "distinct (filter (\<lambda>y. y < x) xs)" "distinct (filter (\<lambda>y. x < y) xs)"
    by (auto simp: list_all_iff)
  have "distinct xs"
  proof (rule ccontr)
    assume "\<not> distinct xs"
    then obtain y us vs ws where xs: "xs = us @ [y] @ vs @ [y] @ ws" using not_distinct_decomp by blast
    with x d show False by (cases "y < x"; cases "x < y") auto
  qed
  with x show ?case by simp
qed simp

lemma country_numbers_differ: "all_differ (map code_number (values_of countryList))"
  by code_simp

lemma country_values_distinct: "distinct (values_of countryList)"
  using all_differ_distinct [OF country_numbers_differ] by (simp only: distinct_map)

lemma other_values_words:
  "\<forall>w\<in>set (values_of shipTypes). filter_word w" "\<forall>w\<in>set (values_of sourceTypes). filter_word w"
  "\<forall>w\<in>set (values_of navstatValues). filter_word w" "\<forall>w\<in>set (values_of outputTableField_choices). filter_word w"
  by code_simp+

lemma other_values_distinct:
  "distinct (values_of shipTypes)" "distinct (values_of sourceTypes)"
  "distinct (values_of navstatValues)" "distinct (values_of outputTableField_choices)"
  by code_simp+

text \<open>
  The offered values are fit for the filter, into which country and type values go as they
  are: the country codes are pairwise different words of three capital letters, the other
  values are pairwise different words of characters that need no encoding.
\<close>

theorem tables_well_formed:
  "list_all alpha3 (values_of countryList) \<and> distinct (values_of countryList) \<and>
   list_all (list_all filter_word) (map values_of [shipTypes, sourceTypes, navstatValues, outputTableField_choices]) \<and>
   list_all distinct (map values_of [shipTypes, sourceTypes, navstatValues, outputTableField_choices])"
  using country_values_alpha3 country_values_distinct other_values_words other_values_distinct
  by (simp add: list_all_iff)

end
