(* ===== verification/SearchBox.thy ===== *)
theory SearchBox
  imports SearchText BaseData
begin

text \<open>
  \<open>visualsearch.js\<close>, the search box (\<open>VS.ui.SearchBox\<close>, \<open>VS.ui.SearchFacet\<close>, \<open>VS.ui.SearchInput\<close>,
  \<open>VS.model.SearchQuery\<close>): facets with an input field before, between and after them. Focus,
  cursor, selection, layout and the menus are not modelled; a facet that is being edited
  shows in the state when its text is committed.
\<close>

subsection \<open>State\<close>

record search_box =
  query_facets :: "search_facet list"
  input_values :: "string list"

text \<open>\<open>VS.init\<close> with an empty query: no facets, one input field.\<close>

definition empty_box :: search_box where
  "empty_box = \<lparr>query_facets = [], input_values = [[]]\<rparr>"

text \<open>\<open>value()\<close>: the texts of the fields and the facets in their order, the last field at the end.\<close>

definition fields_text :: "string list \<Rightarrow> search_facet list \<Rightarrow> string" where
  "fields_text inputs fs =
     join '' '' (filter (\<lambda>s. s \<noteq> [])
       (concat (map (\<lambda>i. [inputs ! i, serialize_facet (fs ! i)]) [0..<length fs]) @ (if inputs \<noteq> [] then [last inputs] else [])))"

definition box_text :: "search_box \<Rightarrow> string" where
  "box_text b = fields_text (input_values b) (query_facets b)"

text \<open>\<open>facets()\<close> of the query: one object with one member for each facet.\<close>

definition box_facets :: "search_box \<Rightarrow> (string \<times> string) list list" where
  "box_facets b = map (\<lambda>f. [(category f, facet_text f)]) (query_facets b)"

subsection \<open>Operations\<close>

text \<open>All fields are made anew and so are empty.\<close>

definition renderFacets :: "search_box \<Rightarrow> search_box" where
  "renderFacets b = b\<lparr>input_values := replicate (Suc (length (query_facets b))) []\<rparr>"

text \<open>\<open>value(query)\<close>: if the parser fails, nothing has changed.\<close>

definition setQuery :: "string \<Rightarrow> search_box \<Rightarrow> type_error + search_box" where
  "setQuery query b =
     (case extractAllFacets query of
        Inl e \<Rightarrow> Inl e
      | Inr fs \<Rightarrow> Inr (renderFacets (b\<lparr>query_facets := fs\<rparr>)))"

definition searchEvent :: "search_box \<Rightarrow> type_error + search_box" where
  "searchEvent b = setQuery (box_text b) b"

definition addFacet :: "string \<Rightarrow> string \<Rightarrow> nat \<Rightarrow> search_box \<Rightarrow> search_box" where
  "addFacet cat initialQuery position b =
     (let cat = trim cat; initialQuery = trim initialQuery
      in if cat = [] then b
         else renderFacets (b\<lparr>query_facets := take position (query_facets b) @
                \<lparr>category = cat, facet_text = initialQuery\<rparr> # drop position (query_facets b)\<rparr>))"

text \<open>The end of editing a facet: an empty text is not committed.\<close>

definition disableEdit :: "nat \<Rightarrow> string \<Rightarrow> search_box \<Rightarrow> search_box" where
  "disableEdit i txt b =
     (let newFacetQuery = trim txt; f = query_facets b ! i
      in if newFacetQuery \<noteq> facet_text f \<and> newFacetQuery \<noteq> []
         then renderFacets (b\<lparr>query_facets := (query_facets b)[i := f\<lparr>facet_text := newFacetQuery\<rparr>]\<rparr>)
         else b)"

text \<open>
  The facet commits its text \<open>txt\<close> and is then removed, before the box is searched again: the
  fields are still the ones that were there with it. The result has the box that is left and the
  exception of the search, if it throws one: then the facet is gone, but the fields and views
  are not made anew, and the removed facet is still shown.
\<close>

definition remove_facet :: "nat \<Rightarrow> string \<Rightarrow> search_box \<Rightarrow> search_box \<times> type_error option" where
  "remove_facet i txt b =
     (let committed = facet_text (query_facets b ! i);
          b = disableEdit i txt b;
          b = b\<lparr>query_facets := take i (query_facets b) @ drop (Suc i) (query_facets b)\<rparr>
      in if committed \<noteq> []
         then (case searchEvent b of Inl e \<Rightarrow> (b, Some e) | Inr b' \<Rightarrow> (b', None))
         else (renderFacets b, None))"

definition clearSearch :: "search_box \<Rightarrow> type_error + search_box" where
  "clearSearch b = (case setQuery [] b of Inl e \<Rightarrow> Inl e | Inr b \<Rightarrow> searchEvent b)"

definition type_input :: "nat \<Rightarrow> string \<Rightarrow> search_box \<Rightarrow> search_box" where
  "type_input i txt b = b\<lparr>input_values := (input_values b)[i := txt]\<rparr>"

subsection \<open>The input fields\<close>

text \<open>A text as an expression that ignores case.\<close>

definition canonical :: "char \<Rightarrow> char" where
  "canonical c = (case upper_char c of [d] \<Rightarrow> d | _ \<Rightarrow> c)"

primrec literal :: "string \<Rightarrow> regex" where
  "literal [] = Many 0 (\<lambda>c. False)"
| "literal (d # w) = Cat (One (\<lambda>c. canonical c = canonical d)) (literal w)"

definition last_word :: regex where
  "last_word = Cat WordEdge (Cat (Group (Many 1 is_word)) AtEnd)"

text \<open>
  What was typed before the name of a facet becomes a facet of its own. The text is meant to be
  trimmed, but what is removed is the text \<open>^s+|s+$\<close>.
\<close>

definition addTextFacetRemainder :: "string \<Rightarrow> nat \<Rightarrow> search_box \<Rightarrow> string \<times> search_box" where
  "addTextFacetRemainder facetValue position b =
     (let boxValue = input_values b ! position
      in case match last_word boxValue of
           None \<Rightarrow> ([], b)
         | Some g \<Rightarrow>
             (let matcher = literal (the (g ! 0));
                  boxValue = (if search matcher facetValue = 0 then replace_match last_word [] boxValue else boxValue);
                  boxValue = remove_first ''^s+|s+$'' boxValue
              in (boxValue, if boxValue \<noteq> [] then addFacet remainder boxValue position b else b)))"

text \<open>A name is picked from the menu of a field, or typed with a colon, or finished with the tabulator.\<close>

definition select_category :: "string \<Rightarrow> nat \<Rightarrow> search_box \<Rightarrow> search_box" where
  "select_category item position b =
     (let (rest, b) = addTextFacetRemainder item position b
      in addFacet item [] (position + (if rest \<noteq> [] then 1 else 0)) b)"

definition keypress_colon :: "string list \<Rightarrow> nat \<Rightarrow> search_box \<Rightarrow> search_box" where
  "keypress_colon labels position b =
     (let query = input_values b ! position
      in if query \<in> set labels then select_category query position b else b)"

definition keydown_tab :: "nat \<Rightarrow> search_box \<Rightarrow> search_box" where
  "keydown_tab position b =
     (let v = input_values b ! position
      in if v \<noteq> [] then
           (let (rest, b) = addTextFacetRemainder v position b
            in if v \<noteq> rest then addFacet v [] (position + (if rest \<noteq> [] then 1 else 0)) b else b)
         else b)"

subsection \<open>What the menus offer\<close>

text \<open>The names of facets that begin with the last word typed; the page asks to keep their order.\<close>

definition typed_word :: regex where
  "typed_word = Cat (Many 1 is_word) (Cat (Or (One (\<lambda>c. c = CHR ''*'')) (literal [])) AtEnd)"

definition facet_suggestions :: "string list \<Rightarrow> string \<Rightarrow> string list" where
  "facet_suggestions prefixes searchTerm =
     (let re = (case match typed_word searchTerm of None \<Rightarrow> [] | Some g \<Rightarrow> the (g ! 0))
      in filter (\<lambda>item. item \<noteq> [] \<and> test (Cat AtStart (literal re)) item) prefixes)"

text \<open>
  The values for a facet. An item is an object with a label and a value; the expression is
  also tried on the item itself, which as a text is \<open>[object Object]\<close>.
\<close>

definition value_suggestions :: "choice list \<Rightarrow> string \<Rightarrow> string \<Rightarrow> choice list" where
  "value_suggestions matches v searchTerm =
     (if searchTerm \<noteq> [] \<and> v \<noteq> searchTerm
      then (let matcher = Cat WordEdge (literal searchTerm)
            in filter (\<lambda>item. test matcher ''[object Object]'' \<or> test matcher (choice_value item) \<or> test matcher (label item)) matches)
      else matches)"

subsection \<open>The text of a box\<close>

lemma box_text_fields:
  assumes "input_values b = replicate (length (query_facets b)) [] @ [t]"
  shows "box_text b = join '' '' (filter (\<lambda>s. s \<noteq> []) (map serialize_facet (query_facets b) @ [t]))"
proof -
  have "filter (\<lambda>s. s \<noteq> []) (concat (map (\<lambda>i. [input_values b ! i, serialize_facet (query_facets b ! i)]) is)) =
      filter (\<lambda>s. s \<noteq> []) (map (\<lambda>i. serialize_facet (query_facets b ! i)) is)" if "\<forall>i\<in>set is. i < length (query_facets b)" for "is"
    using that by (induction "is") (simp_all add: assms nth_append)
  from this [of "[0..<length (query_facets b)]"] show ?thesis
    by (simp add: box_text_def fields_text_def assms map_nth [of "query_facets b", symmetric, THEN arg_cong [of _ _ "map serialize_facet"]] comp_def)
qed

lemma box_text_rendered: "box_text (renderFacets b) = join '' '' (filter (\<lambda>s. s \<noteq> []) (map serialize_facet (query_facets b)))"
  by (subst box_text_fields [of _ "[]"]) (simp_all add: renderFacets_def replicate_append_same)

lemma serialize_nonempty: "tidy f \<Longrightarrow> serialize_facet f \<noteq> []"
  using solid_serialize [of f] by (simp add: solid_def)

lemma serialize_all:
  "\<forall>f\<in>set fs. tidy f \<Longrightarrow> t = [] \<or> free_text t \<Longrightarrow>
    filter (\<lambda>s. s \<noteq> []) (map serialize_facet fs @ [t]) = map serialize_facet (fs @ text_facets t) \<and>
    filter (\<lambda>s. s \<noteq> []) (map serialize_facet (fs @ text_facets t)) = map serialize_facet (fs @ text_facets t)"
proof (induction fs)
  case Nil
  then show ?case by (cases "t = []") (auto simp: text_facets_def serialize_text)
qed (simp add: serialize_nonempty)

lemma search_result:
  assumes "\<forall>f\<in>set (query_facets b). tidy f" "t = [] \<or> free_text t"
    "input_values b = replicate (length (query_facets b)) [] @ [t]"
    "b' = renderFacets (b\<lparr>query_facets := query_facets b @ text_facets t\<rparr>)"
  shows "searchEvent b = Inr b'" "box_text b' = box_text b" "searchEvent b' = Inr b'"
proof -
  let ?fs = "query_facets b @ text_facets t"
  note all = serialize_all [OF assms(1,2)]
  have b: "box_text b = join '' '' (map serialize_facet ?fs)" using box_text_fields [OF assms(3)] all by simp
  have b': "box_text b' = join '' '' (map serialize_facet ?fs)" using all by (simp add: assms(4) box_text_rendered)
  have "setQuery (box_text b) b = Inr b'" using facets_read [OF assms(1,2)] by (simp add: setQuery_def b assms(4))
  then show "searchEvent b = Inr b'" by (simp add: searchEvent_def)
  show "box_text b' = box_text b" by (simp add: b b')
  have "extractAllFacets (box_text b') = Inr ?fs" unfolding b' by (rule facets_read [OF assms(1,2)])
  then show "searchEvent b' = Inr b'" by (simp add: searchEvent_def setQuery_def assms(4) renderFacets_def)
qed

text \<open>
  C12. Searching settles a box: tidy facets stay as they are, free text in the last field becomes
  a facet at the end, all fields are empty, and searching once more changes nothing.
\<close>

theorem search_settles:
  assumes "\<forall>f\<in>set (query_facets b). tidy f" "t = [] \<or> free_text t"
    "input_values b = replicate (length (query_facets b)) [] @ [t]"
  shows "\<exists>b'. searchEvent b = Inr b' \<and> query_facets b' = query_facets b @ text_facets t \<and>
    list_all (\<lambda>s. s = []) (input_values b') \<and> box_text b' = box_text b \<and> searchEvent b' = Inr b'"
proof -
  define b' where "b' = renderFacets (b\<lparr>query_facets := query_facets b @ text_facets t\<rparr>)"
  show ?thesis
    using search_result [OF assms b'_def] by (intro exI [of _ b']) (simp, simp add: b'_def renderFacets_def list_all_iff)
qed

subsection \<open>Removing a facet\<close>

lemma disableEdit_unchanged: "trim v = facet_text (query_facets b ! i) \<Longrightarrow> disableEdit i v b = b"
  by (simp add: disableEdit_def)

lemma query_facets_type [simp]: "query_facets (type_input i v b) = query_facets b" "input_values (type_input i v b) = (input_values b)[i := v]"
  by (simp_all add: type_input_def)

text \<open>
  What was typed into the field before the last facet is lost when any facet with a value is
  removed, whether it is that one or not: the fields are read by their numbers after the
  facet is gone, the last one excepted, so one of them is not read.
\<close>

theorem removal_loses_text:
  assumes "length (input_values b) = Suc (length (query_facets b))" "i < length (query_facets b)"
    "v = facet_text (query_facets b ! i)" "trim v = v" "v \<noteq> []"
  shows "apfst query_facets (remove_facet i v (type_input (length (query_facets b) - 1) typed b)) =
    apfst query_facets (remove_facet i v b)"
proof -
  let ?n = "length (query_facets b) - 1"
  let ?fs = "take i (query_facets b) @ drop (Suc i) (query_facets b)"
  have n: "length ?fs = ?n" using assms(2) by simp
  have l: "last ((input_values b)[?n := typed]) = last (input_values b)"
    using assms(1,2) by (subst last_list_update) auto
  have e: "map (\<lambda>j. [(input_values b)[?n := typed] ! j, serialize_facet (?fs ! j)]) [0..<?n] =
      map (\<lambda>j. [input_values b ! j, serialize_facet (?fs ! j)]) [0..<?n]"
    by (intro map_cong) auto
  have "fields_text ((input_values b)[?n := typed]) ?fs = fields_text (input_values b) ?fs"
    unfolding fields_text_def n e l by simp
  then show ?thesis
    using assms(3-5) disableEdit_unchanged [of v b i] disableEdit_unchanged [of v "type_input ?n typed b" i]
    by (simp add: remove_facet_def searchEvent_def setQuery_def box_text_def Let_def renderFacets_def split: sum.split)
qed

definition two_facets :: search_box where
  "two_facets = \<lparr>query_facets = [\<lparr>category = ''imo'', facet_text = ''7''\<rparr>, \<lparr>category = ''name'', facet_text = ''A''\<rparr>],
     input_values = [[], ''north'', []]\<rparr>"

lemma search_settles_witness:
  "\<exists>b'. searchEvent (two_facets\<lparr>input_values := [[], [], ''north'']\<rparr>) = Inr b' \<and> length (query_facets b') = 3"
proof -
  have "list_all tidy (query_facets two_facets)" "free_text ''north''"
    by (simp_all add: two_facets_def tidy_def plain_category_def quotable_def free_text_def remainder_def is_ws_def is_quote_def trim_def trim_start_def)
  then show ?thesis
    using search_settles [of "two_facets\<lparr>input_values := [[], [], ''north'']\<rparr>" "''north''"]
    by (auto simp: list_all_iff two_facets_def text_facets_def)
qed

lemma removal_loses_text_witness:
  "apfst query_facets (remove_facet 0 ''7'' two_facets) = ([\<lparr>category = ''name'', facet_text = ''A''\<rparr>], None)"
proof -
  let ?b = "two_facets\<lparr>input_values := [[], [], []]\<rparr>"
  have "length (input_values ?b) = Suc (length (query_facets ?b))" "0 < length (query_facets ?b)" "''7'' = facet_text (query_facets ?b ! 0)"
    "trim ''7'' = ''7''" "''7'' \<noteq> []"
    by (simp_all add: two_facets_def trim_def trim_start_def is_ws_def)
  note t = removal_loses_text [OF this, of "''north''"]
  have "type_input (length (query_facets ?b) - 1) ''north'' ?b = two_facets" by (simp add: two_facets_def type_input_def)
  then have "apfst query_facets (remove_facet 0 ''7'' two_facets) = apfst query_facets (remove_facet 0 ''7'' ?b)" using t by (simp only:)
  also have "\<dots> = ([\<lparr>category = ''name'', facet_text = ''A''\<rparr>], None)" by code_simp
  finally show ?thesis .
qed

subsection \<open>What the menus offer\<close>

lemma runs_literal:
  "runs (literal w) p s = (if length w \<le> length s \<and> map canonical (take (length w) s) = map canonical w then [(take (length w) s, [])] else [])"
proof (induction w arbitrary: p s)
  case (Cons d w)
  show ?case by (cases s) (auto simp: Cons.IH)
next
  case Nil
  have "takeWhile (\<lambda>c. False) s = []" by (cases s) simp_all
  then show ?case by simp
qed

text \<open>The text has the word, up to case, at an edge between word and other characters.\<close>

definition at_edge :: "string \<Rightarrow> string \<Rightarrow> bool" where
  "at_edge w s \<longleftrightarrow> (\<exists>a b c. s = a @ b @ c \<and> map canonical b = map canonical w \<and>
     word_at (before None a) \<noteq> word_at (case b @ c of [] \<Rightarrow> None | x # _ \<Rightarrow> Some x))"

lemma test_edge: "test (Cat WordEdge (literal w)) s \<longleftrightarrow> at_edge w s"
proof -
  have "runs (Cat WordEdge (literal w)) p t \<noteq> [] \<longleftrightarrow>
      word_at p \<noteq> word_at (case t of [] \<Rightarrow> None | x # _ \<Rightarrow> Some x) \<and> (\<exists>b c. t = b @ c \<and> map canonical b = map canonical w)" for p t
  proof -
    have "(\<exists>b c. t = b @ c \<and> map canonical b = map canonical w) \<longleftrightarrow> length w \<le> length t \<and> map canonical (take (length w) t) = map canonical w"
    proof
      assume "\<exists>b c. t = b @ c \<and> map canonical b = map canonical w"
      then obtain b c where "t = b @ c" "map canonical b = map canonical w" by blast
      moreover from this(2) have "length b = length w" by (rule map_eq_imp_length_eq)
      ultimately show "length w \<le> length t \<and> map canonical (take (length w) t) = map canonical w" by simp
    qed (metis append_take_drop_id)
    then show ?thesis by (auto simp: runs_literal before_def)
  qed
  then show ?thesis
    by (simp add: test_def exec_none at_edge_def) blast
qed

lemma object_edge: "0 < n \<Longrightarrow> at_edge (take n ''object'') ''[object Object]''"
proof -
  assume "0 < n"
  have "list_all (\<lambda>n. test (Cat WordEdge (literal (take n ''object''))) ''[object Object]'') [1..<7]" by code_simp
  moreover have "take n ''object'' = take (min n 6) ''object''" by (cases "n \<le> 6") (simp_all add: min_def)
  moreover have "min n 6 \<in> set [1..<7]" using \<open>0 < n\<close> by auto
  ultimately show ?thesis unfolding list_all_iff test_edge by metis
qed

text \<open>
  The menu of a facet offers the entries whose value or label has the typed text at the edge
  of a word, in the order of the table; but when the text is at such an edge of
  \<open>[object Object]\<close>, as is the case for every beginning of the word \<open>object\<close>, it offers all entries.
\<close>

theorem value_menu:
  "value_suggestions ms v w =
     (if w = [] \<or> v = w \<or> at_edge w ''[object Object]'' then ms
      else filter (\<lambda>c. at_edge w (choice_value c) \<or> at_edge w (label c)) ms) \<and>
   value_suggestions ms v (take n ''object'') = ms"
proof
  show e: "value_suggestions ms v w =
     (if w = [] \<or> v = w \<or> at_edge w ''[object Object]'' then ms
      else filter (\<lambda>c. at_edge w (choice_value c) \<or> at_edge w (label c)) ms)" for w
    by (simp add: value_suggestions_def test_edge Let_def)
  show "value_suggestions ms v (take n ''object'') = ms"
    using object_edge [of n] unfolding e by (cases n) simp_all
qed

subsection \<open>The fields\<close>

lemma exec_last_word:
  assumes "\<forall>c\<in>set s. is_ws c" "w \<noteq> []" "\<forall>c\<in>set w. is_word c"
  shows "exec last_word None (s @ w) = Some (s, w, [Some w], [])"
proof -
  have nw: "\<not> is_word c" if "is_ws c" for c using that by (auto simp: is_ws_def is_word_def)
  have here: "runs last_word p w = [(w, [Some w])]" if "\<not> word_at p" for p
  proof -
    have tw: "takeWhile is_word w = w" "dropWhile is_word w = []" "Suc 0 \<le> length w"
      using assms(2,3) by (auto simp: takeWhile_eq_all_conv Suc_le_eq)
    have "runs (Cat (Group (Many 1 is_word)) AtEnd) p w = [(w, [Some w])]"
      by (subst runs_group_Many_Cat) (simp_all add: tw)
    moreover have "word_at (case w of [] \<Rightarrow> None | x # _ \<Rightarrow> Some x)" using assms(2,3) by (cases w) (simp_all add: word_at_def)
    ultimately show ?thesis using that by (simp add: last_word_def before_def del: runs.simps(3) add: runs.simps(3) [of WordEdge])
  qed
  have "exec last_word p (s @ w) = Some (s, w, [Some w], [])" if "\<not> word_at p" for p
    using assms(1) that
  proof (induction s arbitrary: p)
    case Nil
    then show ?case using exec_here [OF here] by simp
  next
    case (Cons c s)
    have "\<not> word_at (Some c)" using Cons.prems nw by (simp add: word_at_def)
    moreover from this have "runs last_word p (c # s @ w) = []" using Cons.prems(2) by (simp add: last_word_def)
    ultimately show ?case using Cons by simp
  qed
  then show ?thesis by (simp add: word_at_def)
qed

text \<open>
  When a name is picked after blanks and a beginning of the name were typed, the blanks
  become a facet of the query text without a value, before the facet that was picked.
\<close>

theorem blank_facet_inserted:
  assumes "input_values b ! position = s @ w" "s \<noteq> []" "\<forall>c\<in>set s. is_ws c" "w \<noteq> []" "\<forall>c\<in>set w. is_word c"
    "map canonical (take (length w) item) = map canonical w" "length w \<le> length item" "item \<noteq> []" "trim item = item"
    "position \<le> length (query_facets b)"
  shows "query_facets (select_category item position b) =
    take position (query_facets b) @ [\<lparr>category = remainder, facet_text = []\<rparr>, \<lparr>category = item, facet_text = []\<rparr>] @ drop position (query_facets b)"
proof -
  note e = exec_last_word [OF assms(3-5)]
  have "exec (literal w) None item = Some ([], take (length w) item, [], drop (length w) item)"
    using exec_here [of "literal w" None item "take (length w) item" "[]" "[]"] assms(6,7) by (simp add: runs_literal min_absorb2)
  then have z: "search (literal w) item = 0" by (simp add: search_def)
  have "remove_first ''^s+|s+$'' s = s"
    using assms(3) by (induction s) (auto simp: is_ws_def)
  moreover have "dropWhile is_ws s = []" using assms(3) by (simp add: dropWhile_eq_Nil_conv)
  then have "trim s = []" unfolding trim_def trim_start_def by (simp only: rev.simps dropWhile.simps)
  moreover have "trim remainder = remainder" "remainder \<noteq> []" by code_simp+
  ultimately have "addTextFacetRemainder item position b =
      (s, renderFacets (b\<lparr>query_facets := take position (query_facets b) @ \<lparr>category = remainder, facet_text = []\<rparr> # drop position (query_facets b)\<rparr>))"
    using e z assms(2) by (simp add: addTextFacetRemainder_def assms(1) match_def replace_match_def addFacet_def Let_def)
  then show ?thesis
    using assms(2,8-10) by (simp add: select_category_def addFacet_def renderFacets_def Let_def min_absorb2)
qed

lemma blank_facet_inserted_witness:
  "query_facets (select_category ''name'' 0 \<lparr>query_facets = [], input_values = ['' na'']\<rparr>) =
     [\<lparr>category = remainder, facet_text = []\<rparr>, \<lparr>category = ''name'', facet_text = []\<rparr>]"
  by (subst blank_facet_inserted [of _ 0 "'' ''" "''na''"])
    (simp_all add: is_ws_def is_word_def trim_def trim_start_def Let_def)

subsection \<open>Everything that can happen to a box\<close>

text \<open>
  Where the parser throws, the search and the setting of a text leave the box as it was, and a
  removal leaves it without the facet but with its old fields. The view of a facet that was
  removed in vain stays on the page: its own commits change no facet of the query, and to remove
  it once more only searches the box again.
\<close>

inductive box_step :: "search_box \<Rightarrow> search_box \<Rightarrow> bool" where
  type_text: "i < length (input_values b) \<Longrightarrow> box_step b (type_input i txt b)"
| search: "searchEvent b = Inr b' \<Longrightarrow> box_step b b'"
| search_throws: "searchEvent b = Inl e \<Longrightarrow> box_step b b"
| set_text: "setQuery q b = Inr b' \<Longrightarrow> box_step b b'"
| set_throws: "setQuery q b = Inl e \<Longrightarrow> box_step b b"
| clear_all: "clearSearch b = Inr b' \<Longrightarrow> box_step b b'"
| edit: "i < length (query_facets b) \<Longrightarrow> box_step b (disableEdit i txt b)"
| remove: "i < length (query_facets b) \<Longrightarrow> box_step b (fst (remove_facet i txt b))"
| select: "i < length (input_values b) \<Longrightarrow> box_step b (select_category item i b)"
| colon: "i < length (input_values b) \<Longrightarrow> box_step b (keypress_colon labels i b)"
| tab: "i < length (input_values b) \<Longrightarrow> box_step b (keydown_tab i b)"

inductive_cases box_stepE: "box_step b b'"

definition facet_ok :: "search_facet \<Rightarrow> bool" where
  "facet_ok f \<longleftrightarrow> category f \<noteq> [] \<and> trim (facet_text f) = facet_text f"

definition box_ok :: "search_box \<Rightarrow> bool" where
  "box_ok b \<longleftrightarrow> length (query_facets b) < length (input_values b) \<and> (\<forall>f\<in>set (query_facets b). facet_ok f)"

text \<open>The fields fit the facets, as they do whenever they were made anew.\<close>

definition fields_fit :: "search_box \<Rightarrow> bool" where
  "fields_fit b \<longleftrightarrow> length (input_values b) = Suc (length (query_facets b))"

lemma trim_trim [simp]: "trim (trim s) = trim s"
proof (cases "trim s = []")
  case False
  let ?u = "dropWhile is_ws s"
  have h: "v = [] \<or> \<not> is_ws (hd (dropWhile is_ws v)) \<or> dropWhile is_ws v = []" for v using hd_dropWhile [of is_ws v] by blast
  obtain w where "?u = trim s @ w" using takeWhile_dropWhile_id [of is_ws "rev ?u"] by (metis rev_append rev_rev_ident trim_def trim_start_def)
  then have "hd (trim s) = hd ?u" "?u \<noteq> []" using False by simp_all
  moreover have "last (trim s) = hd (dropWhile is_ws (rev ?u))" "dropWhile is_ws (rev ?u) \<noteq> []"
    using False by (simp_all add: trim_def trim_start_def last_rev)
  ultimately have "solid (trim s)" using False hd_dropWhile [of is_ws s] hd_dropWhile [of is_ws "rev ?u"] by (simp add: solid_def)
  then show ?thesis by (rule trim_solid)
qed simp

lemma parsed_ok: "extractAllFacets q = Inr fs \<Longrightarrow> \<forall>f\<in>set fs. facet_ok f"
proof (induction q arbitrary: fs rule: extractAllFacets.induct)
  case (1 q)
  show ?case
  proof (cases "q = []")
    case False
    then obtain c v q' where n: "next_facet q = Inr (c, v, q')" using 1(2) by (cases "next_facet q") (auto simp: extractAllFacets.simps [of q])
    let ?fs = "if c \<noteq> [] \<and> v \<noteq> [] then [\<lparr>category = c, facet_text = trim v\<rparr>] else []"
    have ok: "\<forall>f\<in>set ?fs. facet_ok f" by (simp add: facet_ok_def)
    show ?thesis
    proof (cases "q' = q")
      case True
      then have "fs = ?fs" using 1(2) False n by (simp add: extractAllFacets.simps [of q])
      with ok show ?thesis by simp
    next
      case neq: False
      then obtain gs where "extractAllFacets q' = Inr gs" "fs = ?fs @ gs"
        using 1(2) False n by (cases "extractAllFacets q'") (auto simp: extractAllFacets.simps [of q])
      moreover from this(1) have "\<forall>f\<in>set gs. facet_ok f" using 1(1) False n neq by blast
      ultimately show ?thesis using ok by auto
    qed
  qed (use 1(2) in \<open>simp add: extractAllFacets.simps\<close>)
qed

lemma render_simps [simp]:
  "query_facets (renderFacets b) = query_facets b" "length (input_values (renderFacets b)) = Suc (length (query_facets b))"
  by (simp_all add: renderFacets_def)

lemma render_ok: "(\<forall>f\<in>set (query_facets b). facet_ok f) \<Longrightarrow> box_ok (renderFacets b)"
  by (simp add: box_ok_def renderFacets_def)

lemma setQuery_ok: "setQuery q b = Inr b' \<Longrightarrow> box_ok b'"
  using parsed_ok [of q] by (auto simp: setQuery_def intro!: render_ok split: sum.splits)

lemma addFacet_ok: "box_ok b \<Longrightarrow> box_ok (addFacet c v i b)"
  by (auto simp: addFacet_def Let_def box_ok_def facet_ok_def dest: in_set_takeD in_set_dropD)

lemma remainder_ok: "box_ok b \<Longrightarrow> box_ok (snd (addTextFacetRemainder v i b))"
  by (auto simp: addTextFacetRemainder_def Let_def addFacet_ok split: option.split)

lemma select_ok: "box_ok b \<Longrightarrow> box_ok (select_category item i b)"
  using remainder_ok [of b item i] by (auto simp: select_category_def addFacet_ok split: prod.split)

lemma type_ok: "box_ok b \<Longrightarrow> box_ok (type_input i t b)"
  by (simp add: box_ok_def type_input_def)

lemma tab_ok: "box_ok b \<Longrightarrow> box_ok (keydown_tab i b)"
proof -
  assume b: "box_ok b"
  obtain r b1 where e: "addTextFacetRemainder (input_values b ! i) i b = (r, b1)" by fastforce
  then have "box_ok b1" using remainder_ok [OF b, of "input_values b ! i" i] by simp
  then show ?thesis using b by (simp add: keydown_tab_def e Let_def addFacet_ok)
qed

lemma colon_ok: "box_ok b \<Longrightarrow> box_ok (keypress_colon labels i b)"
  by (simp add: keypress_colon_def select_ok Let_def)

lemma edit_ok: "box_ok b \<Longrightarrow> i < length (query_facets b) \<Longrightarrow> box_ok (disableEdit i t b)"
proof -
  assume b: "box_ok b" "i < length (query_facets b)"
  then have "facet_ok (query_facets b ! i)" by (simp add: box_ok_def)
  then have "\<forall>f\<in>set ((query_facets b)[i := (query_facets b ! i)\<lparr>facet_text := trim t\<rparr>]). facet_ok f"
    using b(1) by (auto simp: box_ok_def facet_ok_def dest!: set_update_subset_insert [THEN subsetD])
  then show ?thesis using b(1) by (simp add: disableEdit_def Let_def render_ok)
qed

lemma remove_ok: "box_ok b \<Longrightarrow> i < length (query_facets b) \<Longrightarrow> box_ok (fst (remove_facet i txt b))"
proof -
  assume b: "box_ok b" "i < length (query_facets b)"
  let ?b = "disableEdit i txt b"
  let ?r = "?b\<lparr>query_facets := take i (query_facets ?b) @ drop (Suc i) (query_facets ?b)\<rparr>"
  have "box_ok ?b" by (rule edit_ok [OF b(1,2)])
  then have r: "box_ok ?r" by (auto simp: box_ok_def dest: in_set_takeD in_set_dropD)
  then have "box_ok (renderFacets ?r)" by (intro render_ok) (simp add: box_ok_def)
  with r show ?thesis
    using setQuery_ok by (auto simp: remove_facet_def Let_def searchEvent_def split: sum.split)
qed

lemma clear_total: "clearSearch b = Inr empty_box"
  by (simp add: clearSearch_def searchEvent_def setQuery_def extractAllFacets.simps renderFacets_def box_text_def fields_text_def empty_box_def)

lemma clear_ok: "clearSearch b = Inr b' \<Longrightarrow> box_ok b'"
  by (auto simp: clear_total box_ok_def empty_box_def)

lemma box_step_ok: "box_step b b' \<Longrightarrow> box_ok b \<Longrightarrow> box_ok b'"
  by (erule box_stepE) (simp_all only: searchEvent_def setQuery_ok type_ok clear_ok edit_ok remove_ok select_ok colon_ok tab_ok)

subsection \<open>The fields fit the facets\<close>

lemma render_fits [simp]: "fields_fit (renderFacets b)" "fields_fit empty_box"
  by (simp_all add: fields_fit_def empty_box_def)

lemma setQuery_fits: "setQuery q b = Inr b' \<Longrightarrow> fields_fit b'"
  by (auto simp: setQuery_def split: sum.splits)

lemma addFacet_fits: "fields_fit b \<Longrightarrow> fields_fit (addFacet c v i b)"
  by (simp add: addFacet_def Let_def)

lemma remainder_fits: "fields_fit b \<Longrightarrow> fields_fit (snd (addTextFacetRemainder v i b))"
  by (auto simp: addTextFacetRemainder_def Let_def addFacet_fits split: option.split)

lemma select_fits: "fields_fit b \<Longrightarrow> fields_fit (select_category item i b)"
  using remainder_fits [of b item i] by (auto simp: select_category_def addFacet_fits split: prod.split)

lemma colon_fits: "fields_fit b \<Longrightarrow> fields_fit (keypress_colon labels i b)"
  by (simp add: keypress_colon_def select_fits Let_def)

lemma tab_fits: "fields_fit b \<Longrightarrow> fields_fit (keydown_tab i b)"
proof -
  assume b: "fields_fit b"
  obtain r b1 where e: "addTextFacetRemainder (input_values b ! i) i b = (r, b1)" by fastforce
  then have "fields_fit b1" using remainder_fits [OF b, of "input_values b ! i" i] by simp
  then show ?thesis using b by (simp add: keydown_tab_def e Let_def addFacet_fits)
qed

lemma type_fits: "fields_fit b \<Longrightarrow> fields_fit (type_input i t b)"
  by (simp add: fields_fit_def)

lemma edit_fits: "fields_fit b \<Longrightarrow> fields_fit (disableEdit i t b)"
  by (simp add: disableEdit_def Let_def)

lemma clear_fits: "clearSearch b = Inr b' \<Longrightarrow> fields_fit b'"
  by (simp add: clear_total)

lemma remove_fits: "snd (remove_facet i txt b) = None \<Longrightarrow> fields_fit (fst (remove_facet i txt b))"
  by (auto simp: remove_facet_def Let_def searchEvent_def setQuery_fits split: sum.splits if_splits)

text \<open>Only a removal whose search throws leaves fields that do not fit.\<close>

lemma box_step_fits:
  "box_step b b' \<Longrightarrow> fields_fit b \<Longrightarrow>
    fields_fit b' \<or> (\<exists>i t e. i < length (query_facets b) \<and> b' = fst (remove_facet i t b) \<and> snd (remove_facet i t b) = Some e)"
proof (erule box_stepE)
  fix i t
  assume "b' = fst (remove_facet i t b)" "i < length (query_facets b)"
  then show ?thesis using remove_fits [of i t b] by (cases "snd (remove_facet i t b)") blast+
qed (simp_all only: searchEvent_def setQuery_fits type_fits clear_fits edit_fits select_fits colon_fits tab_fits simp_thms)

lemma misfit_after_removal:
  "box_step\<^sup>*\<^sup>* empty_box b \<Longrightarrow> \<not> fields_fit b \<Longrightarrow>
    \<exists>b\<^sub>0 i t e. box_step\<^sup>*\<^sup>* empty_box b\<^sub>0 \<and> i < length (query_facets b\<^sub>0) \<and> snd (remove_facet i t b\<^sub>0) = Some e \<and>
      box_step\<^sup>*\<^sup>* (fst (remove_facet i t b\<^sub>0)) b"
proof (induction rule: rtranclp_induct)
  case (step b c)
  show ?case
  proof (cases "fields_fit b")
    case True
    then obtain i t e where "i < length (query_facets b)" "c = fst (remove_facet i t b)" "snd (remove_facet i t b) = Some e"
      using box_step_fits [OF step.hyps(2)] step.prems by blast
    then show ?thesis using step.hyps(1) by blast
  next
    case False
    then show ?thesis using step.IH step.hyps(2) by (meson rtranclp.rtrancl_into_rtrancl)
  qed
qed simp

text \<open>
  C13. In every state that a box can reach there are more fields than facets, every facet has a
  category, and its value neither begins nor ends with a blank. There is exactly one field more,
  unless a facet was removed before while the parser threw on the text of the others: then the
  facet is gone from the query but its view and its fields are still there. Whenever a text is
  set or searched with success, and whenever the box is cleared, which never throws, the fields
  fit again.
\<close>

theorem box_invariant:
  "box_step\<^sup>*\<^sup>* empty_box b \<Longrightarrow>
    length (query_facets b) < length (input_values b) \<and>
    (\<forall>f\<in>set (query_facets b). category f \<noteq> [] \<and> trim (facet_text f) = facet_text f) \<and>
    (length (input_values b) \<noteq> Suc (length (query_facets b)) \<longrightarrow>
      (\<exists>b\<^sub>0 i t e. box_step\<^sup>*\<^sup>* empty_box b\<^sub>0 \<and> i < length (query_facets b\<^sub>0) \<and> snd (remove_facet i t b\<^sub>0) = Some e \<and>
        box_step\<^sup>*\<^sup>* (fst (remove_facet i t b\<^sub>0)) b)) \<and>
    (\<forall>q b'. setQuery q b = Inr b' \<longrightarrow> length (input_values b') = Suc (length (query_facets b'))) \<and>
    clearSearch b = Inr empty_box"
proof -
  assume b: "box_step\<^sup>*\<^sup>* empty_box b"
  then have "box_ok b"
    by (induction rule: rtranclp_induct) (simp add: box_ok_def empty_box_def, rule box_step_ok)
  moreover note misfit_after_removal [OF b] clear_total [of b]
  moreover have "\<forall>q b'. setQuery q b = Inr b' \<longrightarrow> fields_fit b'" using setQuery_fits by blast
  ultimately show ?thesis unfolding box_ok_def facet_ok_def fields_fit_def by (intro conjI) blast+
qed

text \<open>
  The exception does occur: the only facet is removed while the last field has the text that the
  parser does not survive. No facet is left, but two fields are.
\<close>

definition throwing_box :: search_box where
  "throwing_box = \<lparr>query_facets = [\<lparr>category = ''imo'', facet_text = ''7''\<rparr>],
     input_values = [[], '': '' @ [CHR 0x22] @ ''a'' @ [CHR 0x22] @ ''b'']\<rparr>"

lemma removal_throws:
  "remove_facet 0 ''7'' throwing_box = (throwing_box\<lparr>query_facets := []\<rparr>, Some TypeError)"
  by code_simp

lemma throwing_box_reachable: "box_step\<^sup>*\<^sup>* empty_box throwing_box"
proof -
  let ?b = "\<lparr>query_facets = [\<lparr>category = ''imo'', facet_text = ''7''\<rparr>], input_values = [[], []]\<rparr>"
  have "setQuery ''imo: 7'' empty_box = Inr ?b" by code_simp
  then have "box_step empty_box ?b" by (rule box_step.set_text)
  moreover have "type_input 1 ('': '' @ [CHR 0x22] @ ''a'' @ [CHR 0x22] @ ''b'') ?b = throwing_box" by code_simp
  then have "box_step ?b throwing_box" using box_step.type_text [of 1 ?b] by (metis length_Cons lessI list.size(3) One_nat_def search_box.select_convs(2))
  ultimately show ?thesis by (meson r_into_rtranclp rtranclp_trans)
qed

lemma box_invariant_witness:
  "\<exists>b. box_step\<^sup>*\<^sup>* empty_box b \<and> length (query_facets b) = 0 \<and> length (input_values b) = 2 \<and> clearSearch b = Inr empty_box"
proof -
  let ?b = "throwing_box\<lparr>query_facets := []\<rparr>"
  have "box_step throwing_box (fst (remove_facet 0 ''7'' throwing_box))"
    by (rule box_step.remove) (simp add: throwing_box_def)
  then have "box_step\<^sup>*\<^sup>* empty_box ?b"
    unfolding removal_throws fst_conv by (rule rtranclp.rtrancl_into_rtrancl [OF throwing_box_reachable])
  then show ?thesis using box_invariant [of ?b] by (intro exI [of _ ?b]) (simp add: throwing_box_def)
qed

end
