(* ===== verification/QueryCtrl.thy ===== *)
theory QueryCtrl
  imports DownloadUrl SearchBox
begin

text \<open>
  \<open>js/app-ctrl.js\<close>, the controller \<open>AisQueryCtrl\<close>: the scope of the query page and its
  operations. Of the three search boxes the controller reads the text and the facets; a facet
  is an object, here the list of its members. What an operation does outside the scope is a
  list of effects.
\<close>

subsection \<open>State\<close>

type_synonym facet = "(string \<times> string) list"

record query_scope =
  params :: search_params
  sourceFilter :: search_box
  targetFilter :: search_box
  messageFilter :: search_box
  showAreaMap :: bool
  downloadUrl :: string
  downloadDisabled :: bool

datatype effect =
    HttpGet string
  | OpenWindow string
  | Prompt string string
  | Growl string
  | Reload

text \<open>The offered facets of the three boxes, and the tables whose values they offer.\<close>

datatype value_table = SourceTypes | CountryList | ShipTypes | NavstatValues

definition source_facets :: "string list" where
  "source_facets = [''type'', ''bs'', ''country'', ''region'']"

definition source_values :: "string \<Rightarrow> value_table option" where
  "source_values facet =
     (if facet = ''type'' then Some SourceTypes else if facet = ''country'' then Some CountryList else None)"

definition target_facets :: "string list" where
  "target_facets = [''country'', ''imo'', ''callsign'', ''navstat'', ''name'', ''type'']"

definition message_facets :: "string list" where
  "message_facets = [''country'', ''mmsi'', ''imo'', ''callsign'', ''navstat'', ''name'', ''type'']"

definition target_values :: "string \<Rightarrow> value_table option" where
  "target_values facet =
     (if facet = ''country'' then Some CountryList else if facet = ''type'' then Some ShipTypes
      else if facet = ''navstat'' then Some NavstatValues else None)"

definition message_values :: "string \<Rightarrow> value_table option" where
  "message_values facet =
     (if facet = ''country'' then Some CountryList else if facet = ''type'' then Some ShipTypes
      else if facet = ''navstat'' then Some NavstatValues else None)"

subsection \<open>Download URL and filters\<close>

definition updateDownloadUrl :: "moment \<Rightarrow> query_scope \<Rightarrow> query_scope" where
  "updateDownloadUrl M s = s\<lparr>downloadUrl := download_url M (params s)\<rparr>"

definition useAdvancedFilter :: "bool \<Rightarrow> query_scope \<Rightarrow> query_scope" where
  "useAdvancedFilter b s =
     s\<lparr>params := (params s)\<lparr>filterType := \<lparr>simple = \<not> b, advanced = b\<rparr>\<rparr>\<rparr>"

text \<open>A member of a facet, when it is there and not empty: what the tests on a facet look at.\<close>

definition facet_value :: "facet \<Rightarrow> string \<Rightarrow> string option" where
  "facet_value f k = (case map_of f k of None \<Rightarrow> None | Some v \<Rightarrow> if v = [] then None else Some v)"

definition source_facet :: "search_params \<Rightarrow> facet \<Rightarrow> search_params" where
  "source_facet p f =
     (case facet_value f ''type'' of Some v \<Rightarrow> p\<lparr>sourceType := v\<rparr> | None \<Rightarrow>
      (case facet_value f ''bs'' of Some v \<Rightarrow> p\<lparr>sourceBs := sourceBs p @ [v]\<rparr> | None \<Rightarrow>
      (case facet_value f ''country'' of Some v \<Rightarrow> p\<lparr>sourceCountries := sourceCountries p @ [v]\<rparr> | None \<Rightarrow>
      (case facet_value f ''region'' of Some v \<Rightarrow> p\<lparr>sourceRegions := sourceRegions p @ [v]\<rparr> | None \<Rightarrow> p))))"

definition updateSourceFilter :: "moment \<Rightarrow> bool \<Rightarrow> query_scope \<Rightarrow> query_scope" where
  "updateSourceFilter M upd s =
     (let p = (params s)\<lparr>sourceTxt := box_text (sourceFilter s), sourceType := [], sourceBs := [],
                sourceCountries := [], sourceRegions := []\<rparr>;
          s = s\<lparr>params := foldl source_facet p (box_facets (sourceFilter s))\<rparr>
      in if upd then updateDownloadUrl M s else s)"

definition target_facet :: "search_params \<Rightarrow> facet \<Rightarrow> search_params" where
  "target_facet p f =
     (case facet_value f ''country'' of Some v \<Rightarrow> p\<lparr>targetCountries := targetCountries p @ [v]\<rparr> | None \<Rightarrow>
      (case facet_value f ''imo'' of Some v \<Rightarrow> p\<lparr>targetImos := targetImos p @ [v]\<rparr> | None \<Rightarrow>
      (case facet_value f ''callsign'' of Some v \<Rightarrow> p\<lparr>targetCallsigns := targetCallsigns p @ [v]\<rparr> | None \<Rightarrow>
      (case facet_value f ''navstat'' of Some v \<Rightarrow> p\<lparr>targetNavstats := targetNavstats p @ [v]\<rparr> | None \<Rightarrow>
      (case facet_value f ''name'' of Some v \<Rightarrow> p\<lparr>targetNames := targetNames p @ [v]\<rparr> | None \<Rightarrow>
      (case facet_value f ''type'' of Some v \<Rightarrow> p\<lparr>targetTypes := targetTypes p @ [v]\<rparr> | None \<Rightarrow> p))))))"

definition updateTargetFilter :: "moment \<Rightarrow> bool \<Rightarrow> query_scope \<Rightarrow> query_scope" where
  "updateTargetFilter M upd s =
     (let p = (params s)\<lparr>targetTxt := box_text (targetFilter s), targetCountries := [], targetImos := [],
                targetCallsigns := [], targetNavstats := [], targetNames := [], targetTypes := []\<rparr>;
          s = s\<lparr>params := foldl target_facet p (box_facets (targetFilter s))\<rparr>
      in if upd then updateDownloadUrl M s else s)"

definition message_facet :: "search_params \<Rightarrow> facet \<Rightarrow> search_params" where
  "message_facet p f =
     (case facet_value f ''country'' of Some v \<Rightarrow> p\<lparr>messageCountries := messageCountries p @ [v]\<rparr> | None \<Rightarrow>
      (case facet_value f ''mmsi'' of Some v \<Rightarrow> p\<lparr>messageMmsi := messageMmsi p @ [v]\<rparr> | None \<Rightarrow>
      (case facet_value f ''imo'' of Some v \<Rightarrow> p\<lparr>messageImos := messageImos p @ [v]\<rparr> | None \<Rightarrow>
      (case facet_value f ''callsign'' of Some v \<Rightarrow> p\<lparr>messageCallsigns := messageCallsigns p @ [v]\<rparr> | None \<Rightarrow>
      (case facet_value f ''navstat'' of Some v \<Rightarrow> p\<lparr>messageNavstats := messageNavstats p @ [v]\<rparr> | None \<Rightarrow>
      (case facet_value f ''name'' of Some v \<Rightarrow> p\<lparr>messageNames := messageNames p @ [v]\<rparr> | None \<Rightarrow>
      (case facet_value f ''type'' of Some v \<Rightarrow> p\<lparr>messageTypes := messageTypes p @ [v]\<rparr> | None \<Rightarrow> p)))))))"

definition updateMessageFilter :: "moment \<Rightarrow> bool \<Rightarrow> query_scope \<Rightarrow> query_scope" where
  "updateMessageFilter M upd s =
     (let p = (params s)\<lparr>messageTxt := box_text (messageFilter s), messageCountries := [], messageMmsi := [],
                messageImos := [], messageCallsigns := [], messageNavstats := [], messageNames := [],
                messageTypes := []\<rparr>;
          s = s\<lparr>params := foldl message_facet p (box_facets (messageFilter s))\<rparr>
      in if upd then updateDownloadUrl M s else s)"

definition recomputeDownloadUrl :: "moment \<Rightarrow> query_scope \<Rightarrow> query_scope" where
  "recomputeDownloadUrl M s =
     updateDownloadUrl M (updateMessageFilter M False (updateTargetFilter M False (updateSourceFilter M False s)))"

subsection \<open>Time interval and area\<close>

definition validateTimeInterval :: "moment \<Rightarrow> bool \<Rightarrow> query_scope \<Rightarrow> query_scope" where
  "validateTimeInterval M startDateUpdated s =
     (let p = params s;
          late = num_lt (endDate p) (startDate p);
          p = (if startDateUpdated \<and> late then p\<lparr>endDate := add_minutes M 10 (startDate p)\<rparr>
               else if \<not> startDateUpdated \<and> late then p\<lparr>startDate := add_minutes M (- 10) (endDate p)\<rparr>
               else p)
      in updateDownloadUrl M (s\<lparr>params := p\<rparr>))"

definition max_opt :: "jsnum \<Rightarrow> jsnum option \<Rightarrow> jsnum" where
  "max_opt m1 m2 = (case m2 of None \<Rightarrow> m1 | Some v \<Rightarrow> math_max m1 v)"

definition min_opt :: "jsnum \<Rightarrow> jsnum option \<Rightarrow> jsnum" where
  "min_opt m1 m2 = (case m2 of None \<Rightarrow> m1 | Some v \<Rightarrow> math_min m1 v)"

text \<open>A point is its longitude and latitude.\<close>

definition extend_area :: "area \<Rightarrow> jsnum \<times> jsnum \<Rightarrow> area" where
  "extend_area a latLon =
     \<lparr>maxLat = Some (max_opt (snd latLon) (maxLat a)), maxLon = Some (max_opt (fst latLon) (maxLon a)),
      minLat = Some (min_opt (snd latLon) (minLat a)), minLon = Some (min_opt (fst latLon) (minLon a))\<rparr>"

definition updateArea :: "(jsnum \<times> jsnum) list option \<Rightarrow> query_scope \<Rightarrow> query_scope" where
  "updateArea coordinates s =
     (let a = (case coordinates of None \<Rightarrow> no_area | Some cs \<Rightarrow> foldl extend_area no_area cs)
      in s\<lparr>params := (params s)\<lparr>area := a\<rparr>\<rparr>)"

definition clearArea :: "query_scope \<Rightarrow> query_scope" where
  "clearArea s = updateArea None s"

subsection \<open>Running a query\<close>

definition ais_view_url :: string where
  "ais_view_url = ''https://ais2.e-navigation.net/aisview/rest/store/query?''"

text \<open>
  The three boxes get the texts of the parameters, one after the other; where the parser
  fails, the boxes that follow are left as they are.
\<close>

definition fill_boxes :: "query_scope \<Rightarrow> type_error option \<times> query_scope" where
  "fill_boxes s =
     (case setQuery (sourceTxt (params s)) (sourceFilter s) of
        Inl e \<Rightarrow> (Some e, s)
      | Inr b \<Rightarrow>
          (let s = s\<lparr>sourceFilter := b\<rparr>
           in case setQuery (targetTxt (params s)) (targetFilter s) of
                Inl e \<Rightarrow> (Some e, s)
              | Inr b \<Rightarrow>
                  (let s = s\<lparr>targetFilter := b\<rparr>
                   in case setQuery (messageTxt (params s)) (messageFilter s) of
                        Inl e \<Rightarrow> (Some e, s)
                      | Inr b \<Rightarrow> (None, s\<lparr>messageFilter := b\<rparr>))))"

text \<open>The boxes are made and filled 100 ms after the parameters are loaded.\<close>

definition set_boxes :: "query_scope \<Rightarrow> query_scope" where
  "set_boxes s =
     snd (fill_boxes (s\<lparr>sourceFilter := empty_box, targetFilter := empty_box, messageFilter := empty_box\<rparr>))"

text \<open>
  The scope when the page is opened with these parameters. The boxes are empty until they are filled. In the code they are not
  there at all in this first tenth of a second, and who executes, copies or clears a query in it gets a TypeError; that
  is not modelled, the empty boxes stand for the missing ones.
\<close>

definition init_scope :: "search_params \<Rightarrow> query_scope" where
  "init_scope p =
     \<lparr>params = p,
      sourceFilter = empty_box, targetFilter = empty_box, messageFilter = empty_box,
      showAreaMap = False, downloadUrl = [], downloadDisabled = False\<rparr>"

definition empty_storage :: storage where
  "empty_storage = \<lparr>stored_clientId = None, stored_params = None\<rparr>"

definition sample_scope :: query_scope where
  "sample_scope = init_scope (clearParams sample_moment (Fin 0) (Fin 0))"

text \<open>
  \<open>execute\<close> returns the scope, the storage and the effects. It also starts a timer of two
  seconds whose action is \<open>enable_download\<close>, and a successful answer runs \<open>execute_success\<close>.
\<close>

definition execute :: "(string \<Rightarrow> bool) \<Rightarrow> rat list \<Rightarrow> moment \<Rightarrow> bool \<Rightarrow>
    query_scope \<Rightarrow> storage \<Rightarrow> query_scope \<times> storage \<times> effect list" where
  "execute fits rs M async s st =
     (let s = (recomputeDownloadUrl M s)\<lparr>downloadDisabled := True\<rparr>;
          (url, st) = execute_url rs (downloadUrl s) async st;
          st = saveSearchParams fits (params s) st
      in (s, st, [HttpGet url,
            Growl (if async then ''Download Scheduled''
                   else ''Download Scheduled.<br><small>Opens upon completion</small>'')]))"

definition execute_success :: "bool \<Rightarrow> string \<Rightarrow> effect list" where
  "execute_success async path = (if \<not> async then [OpenWindow (openFile path)] else [])"

definition enable_download :: "query_scope \<Rightarrow> query_scope" where
  "enable_download s = s\<lparr>downloadDisabled := False\<rparr>"

definition clear :: "moment \<Rightarrow> jsnum \<Rightarrow> jsnum \<Rightarrow> query_scope \<Rightarrow> query_scope" where
  "clear M t1 t2 s = snd (fill_boxes (s\<lparr>params := clearParams M t1 t2\<rparr>))"

definition reset_page :: "storage \<Rightarrow> storage \<times> effect list" where
  "reset_page st = (reset st, [Reload])"

definition openInAisStore :: "moment \<Rightarrow> query_scope \<Rightarrow> query_scope \<times> effect list" where
  "openInAisStore M s =
     (let s = recomputeDownloadUrl M s in (s, [OpenWindow (ais_view_url @ downloadUrl s)]))"

definition copy :: "moment \<Rightarrow> query_scope \<Rightarrow> query_scope \<times> effect list" where
  "copy M s =
     (let s = recomputeDownloadUrl M s
      in (s, [Prompt ''Copy to clipboard:'' (ais_view_url @ downloadUrl s)]))"

subsection \<open>Collecting facets\<close>

text \<open>The member of a facet that decides: the first of the keys that it has.\<close>

definition chosen :: "string list \<Rightarrow> facet \<Rightarrow> (string \<times> string) option" where
  "chosen ks f = (case filter (\<lambda>k. facet_value f k \<noteq> None) ks of [] \<Rightarrow> None
     | k # _ \<Rightarrow> Some (k, the (facet_value f k)))"

definition collected :: "string list \<Rightarrow> facet list \<Rightarrow> string \<Rightarrow> string list" where
  "collected ks fs k = map (snd \<circ> the) (filter (\<lambda>c. c \<noteq> None \<and> fst (the c) = k) (map (chosen ks) fs))"

lemma chosen_simps [simp]:
  "chosen [] f = None"
  "chosen (k # ks) f = (case facet_value f k of None \<Rightarrow> chosen ks f | Some v \<Rightarrow> Some (k, v))"
  by (auto simp: chosen_def split: option.splits)

lemma collected_simps [simp]:
  "collected ks [] k = []"
  "collected ks (f # fs) k = (case chosen ks f of None \<Rightarrow> [] | Some c \<Rightarrow> if fst c = k then [snd c] else []) @ collected ks fs k"
  by (auto simp: collected_def split: option.splits)

lemma chosen_key: "chosen ks f = Some c \<Longrightarrow> fst c \<in> set ks"
  by (induction ks) (auto split: option.splits)

text \<open>Nothing is lost and nothing counted twice: each facet with a known member is in one list.\<close>

lemma collected_total:
  "distinct ks \<Longrightarrow> (\<Sum>k\<leftarrow>ks. length (collected ks fs k)) = length (filter (\<lambda>f. chosen ks f \<noteq> None) fs)"
proof (induction fs)
  case (Cons f fs)
  have one: "(\<Sum>k\<leftarrow>ks. if fst c = k then 1 else 0) = (1 :: nat)" if "chosen ks f = Some c" for c
    using chosen_key [OF that] Cons.prems by (simp add: sum_list_distinct_conv_sum_set sum.delta)
  have "(\<Sum>k\<leftarrow>ks. length (collected ks (f # fs) k)) =
      (\<Sum>k\<leftarrow>ks. (case chosen ks f of None \<Rightarrow> 0 | Some c \<Rightarrow> if fst c = k then 1 else 0)) +
      (\<Sum>k\<leftarrow>ks. length (collected ks fs k))"
    unfolding sum_list_addf [symmetric]
    by (intro arg_cong [where f = sum_list] map_cong refl) (auto split: option.splits)
  with Cons one show ?case by (auto split: option.splits)
qed simp

text \<open>
  The three update functions keep the same contract: a step appends the deciding value of a
  facet to the list of its key and leaves the lists of the other keys alone.
\<close>

locale facet_collector =
  fixes keys :: "string list"
    and step :: "'p \<Rightarrow> facet \<Rightarrow> 'p"
    and field :: "string \<Rightarrow> 'p \<Rightarrow> string list"
    and fields :: "string list"
  assumes step_field: "k \<in> set fields \<Longrightarrow>
      field k (step p f) = field k p @ (case chosen keys f of None \<Rightarrow> [] | Some c \<Rightarrow> if fst c = k then [snd c] else [])"
begin

lemma fold_field: "k \<in> set fields \<Longrightarrow> field k (foldl step p fs) = field k p @ collected keys fs k"
  by (induction fs arbitrary: p) (simp_all add: step_field)

end

definition source_field :: "string \<Rightarrow> search_params \<Rightarrow> string list" where
  "source_field k p = (if k = ''bs'' then sourceBs p else if k = ''country'' then sourceCountries p else sourceRegions p)"

definition target_field :: "string \<Rightarrow> search_params \<Rightarrow> string list" where
  "target_field k p = (if k = ''country'' then targetCountries p else if k = ''imo'' then targetImos p
     else if k = ''callsign'' then targetCallsigns p else if k = ''navstat'' then targetNavstats p
     else if k = ''name'' then targetNames p else targetTypes p)"

definition message_field :: "string \<Rightarrow> search_params \<Rightarrow> string list" where
  "message_field k p = (if k = ''country'' then messageCountries p else if k = ''mmsi'' then messageMmsi p
     else if k = ''imo'' then messageImos p
     else if k = ''callsign'' then messageCallsigns p else if k = ''navstat'' then messageNavstats p
     else if k = ''name'' then messageNames p else messageTypes p)"

lemma member_cases:
  "k \<in> set [a, b, c] \<Longrightarrow> k = a \<or> k = b \<or> k = c"
  "k \<in> set [a, b, c, d, e, f] \<Longrightarrow> k = a \<or> k = b \<or> k = c \<or> k = d \<or> k = e \<or> k = f"
  "k \<in> set [a, b, c, d, e, f, g] \<Longrightarrow> k = a \<or> k = b \<or> k = c \<or> k = d \<or> k = e \<or> k = f \<or> k = g"
  by simp_all

lemma source_field_simps [simp]:
  "source_field ''bs'' p = sourceBs p"
  "source_field ''country'' p = sourceCountries p"
  "source_field ''region'' p = sourceRegions p"
  by (simp_all add: source_field_def)

interpretation source_facet: facet_collector source_facets source_facet source_field "[''bs'', ''country'', ''region'']"
proof
  fix k p f
  assume "k \<in> set [''bs'', ''country'', ''region'']"
  note k = member_cases(1) [OF this]
  show "source_field k (source_facet p f) = source_field k p @
      (case chosen source_facets f of None \<Rightarrow> [] | Some c \<Rightarrow> if fst c = k then [snd c] else [])"
    using k by (elim disjE) (simp_all add: source_facet_def source_facets_def split: option.split)
qed

lemma target_field_simps [simp]:
  "target_field ''country'' p = targetCountries p"
  "target_field ''imo'' p = targetImos p"
  "target_field ''callsign'' p = targetCallsigns p"
  "target_field ''navstat'' p = targetNavstats p"
  "target_field ''name'' p = targetNames p"
  "target_field ''type'' p = targetTypes p"
  by (simp_all add: target_field_def)

interpretation target_facet: facet_collector target_facets target_facet target_field "target_facets"
proof
  fix k p f
  assume "k \<in> set target_facets"
  note k = member_cases(2) [OF this [unfolded target_facets_def]]
  show "target_field k (target_facet p f) = target_field k p @
      (case chosen target_facets f of None \<Rightarrow> [] | Some c \<Rightarrow> if fst c = k then [snd c] else [])"
    using k by (elim disjE) (simp_all add: target_facet_def target_facets_def split: option.split)
qed

lemma message_field_simps [simp]:
  "message_field ''country'' p = messageCountries p"
  "message_field ''mmsi'' p = messageMmsi p"
  "message_field ''imo'' p = messageImos p"
  "message_field ''callsign'' p = messageCallsigns p"
  "message_field ''navstat'' p = messageNavstats p"
  "message_field ''name'' p = messageNames p"
  "message_field ''type'' p = messageTypes p"
  by (simp_all add: message_field_def)

interpretation message_facet: facet_collector message_facets message_facet message_field "message_facets"
proof
  fix k p f
  assume "k \<in> set message_facets"
  note k = member_cases(3) [OF this [unfolded message_facets_def]]
  show "message_field k (message_facet p f) = message_field k p @
      (case chosen message_facets f of None \<Rightarrow> [] | Some c \<Rightarrow> if fst c = k then [snd c] else [])"
    using k by (elim disjE) (simp_all add: message_facet_def message_facets_def split: option.split)
qed

subsection \<open>What an update keeps\<close>

lemma foldl_frame: "(\<And>p f. g (step p f) = g p) \<Longrightarrow> g (foldl step p fs) = g p"
  by (induction fs arbitrary: p) simp_all

definition no_source :: "search_params \<Rightarrow> search_params" where
  "no_source p = p\<lparr>sourceTxt := [], sourceType := [], sourceBs := [], sourceCountries := [], sourceRegions := []\<rparr>"

definition no_target :: "search_params \<Rightarrow> search_params" where
  "no_target p = p\<lparr>targetTxt := [], targetCountries := [], targetImos := [], targetNames := [],
     targetCallsigns := [], targetTypes := [], targetNavstats := []\<rparr>"

definition no_message :: "search_params \<Rightarrow> search_params" where
  "no_message p = p\<lparr>messageTxt := [], messageCountries := [], messageMmsi := [], messageImos := [],
     messageNames := [], messageCallsigns := [], messageTypes := [], messageNavstats := []\<rparr>"

lemma facet_frames:
  "no_source (foldl source_facet p fs) = no_source p"
  "no_target (foldl target_facet p fs) = no_target p"
  "no_message (foldl message_facet p fs) = no_message p"
  by (intro foldl_frame; simp add: no_source_def source_facet_def no_target_def target_facet_def
      no_message_def message_facet_def split: option.split)+

lemma text_frames [simp]:
  "sourceTxt (foldl source_facet p fs) = sourceTxt p"
  "targetTxt (foldl target_facet p fs) = targetTxt p"
  "messageTxt (foldl message_facet p fs) = messageTxt p"
  by (intro foldl_frame; simp add: source_facet_def target_facet_def message_facet_def split: option.split)+

text \<open>A function of the parameters that ignores a group of fields does not see its update.\<close>

lemma source_frame: "(\<And>p. g (no_source p) = g p) \<Longrightarrow> g (params (updateSourceFilter M False s)) = g (params s)"
proof -
  assume g: "\<And>p. g (no_source p) = g p"
  have "no_source (params (updateSourceFilter M False s)) = no_source (params s)"
    by (simp add: updateSourceFilter_def Let_def facet_frames) (simp add: no_source_def)
  then show ?thesis using g by metis
qed

lemma target_frame: "(\<And>p. g (no_target p) = g p) \<Longrightarrow> g (params (updateTargetFilter M False s)) = g (params s)"
proof -
  assume g: "\<And>p. g (no_target p) = g p"
  have "no_target (params (updateTargetFilter M False s)) = no_target (params s)"
    by (simp add: updateTargetFilter_def Let_def facet_frames) (simp add: no_target_def)
  then show ?thesis using g by metis
qed

lemma message_frame: "(\<And>p. g (no_message p) = g p) \<Longrightarrow> g (params (updateMessageFilter M False s)) = g (params s)"
proof -
  assume g: "\<And>p. g (no_message p) = g p"
  have "no_message (params (updateMessageFilter M False s)) = no_message (params s)"
    by (simp add: updateMessageFilter_def Let_def facet_frames) (simp add: no_message_def)
  then show ?thesis using g by metis
qed

definition source_part :: "search_params \<Rightarrow> string \<times> string \<times> string list list" where
  "source_part p = (sourceTxt p, sourceType p, [sourceBs p, sourceCountries p, sourceRegions p])"

definition target_part :: "search_params \<Rightarrow> string \<times> string list list" where
  "target_part p = (targetTxt p, map (\<lambda>k. target_field k p) target_facets)"

definition message_part :: "search_params \<Rightarrow> string \<times> string list list" where
  "message_part p = (messageTxt p, map (\<lambda>k. message_field k p) message_facets)"

text \<open>What each box stands for.\<close>

definition source_of_box :: "search_box \<Rightarrow> string \<times> string \<times> string list list" where
  "source_of_box b =
     (box_text b,
      (case filter (\<lambda>f. facet_value f ''type'' \<noteq> None) (rev (box_facets b)) of
         [] \<Rightarrow> [] | f # _ \<Rightarrow> the (facet_value f ''type'')),
      map (collected source_facets (box_facets b)) [''bs'', ''country'', ''region''])"

definition target_of_box :: "search_box \<Rightarrow> string \<times> string list list" where
  "target_of_box b = (box_text b, map (collected target_facets (box_facets b)) target_facets)"

definition message_of_box :: "search_box \<Rightarrow> string \<times> string list list" where
  "message_of_box b = (box_text b, map (collected message_facets (box_facets b)) message_facets)"

lemma foldl_source_type:
  "sourceType (foldl source_facet p fs) =
     (case filter (\<lambda>f. facet_value f ''type'' \<noteq> None) (rev fs) of [] \<Rightarrow> sourceType p | f # _ \<Rightarrow> the (facet_value f ''type''))"
  by (induction fs rule: rev_induct) (auto simp: source_facet_def split: option.splits)

lemma part_source: "source_part (params (updateSourceFilter M upd s)) = source_of_box (sourceFilter s)"
  using source_facet.fold_field [of "''bs''"] source_facet.fold_field [of "''country''"] source_facet.fold_field [of "''region''"]
  by (simp add: updateSourceFilter_def updateDownloadUrl_def Let_def source_part_def source_of_box_def foldl_source_type split: list.split)

lemma part_target: "target_part (params (updateTargetFilter M upd s)) = target_of_box (targetFilter s)"
proof -
  have "map (\<lambda>k. target_field k (foldl target_facet p fs)) target_facets =
      map (\<lambda>k. target_field k p @ collected target_facets fs k) target_facets" for p fs
    by (intro map_cong refl target_facet.fold_field)
  then show ?thesis
    by (simp add: updateTargetFilter_def updateDownloadUrl_def Let_def target_part_def target_of_box_def)
      (simp add: target_facets_def)
qed

lemma part_message: "message_part (params (updateMessageFilter M upd s)) = message_of_box (messageFilter s)"
proof -
  have "map (\<lambda>k. message_field k (foldl message_facet p fs)) message_facets =
      map (\<lambda>k. message_field k p @ collected message_facets fs k) message_facets" for p fs
    by (intro map_cong refl message_facet.fold_field)
  then show ?thesis
    by (simp add: updateMessageFilter_def updateDownloadUrl_def Let_def message_part_def message_of_box_def)
      (simp add: message_facets_def)
qed

lemma parts_ignore [simp]:
  "source_part (no_target p) = source_part p" "source_part (no_message p) = source_part p"
  "target_part (no_source p) = target_part p" "target_part (no_message p) = target_part p"
  "message_part (no_source p) = message_part p" "message_part (no_target p) = message_part p"
  by (simp_all add: source_part_def target_part_def message_part_def no_source_def no_target_def no_message_def
      target_facets_def message_facets_def)

lemma boxes_unchanged [simp]:
  "sourceFilter (updateTargetFilter M upd s) = sourceFilter s" "sourceFilter (updateMessageFilter M upd s) = sourceFilter s"
  "targetFilter (updateSourceFilter M upd s) = targetFilter s" "targetFilter (updateMessageFilter M upd s) = targetFilter s"
  "messageFilter (updateSourceFilter M upd s) = messageFilter s" "messageFilter (updateTargetFilter M upd s) = messageFilter s"
  by (simp_all add: updateSourceFilter_def updateTargetFilter_def updateMessageFilter_def updateDownloadUrl_def Let_def)

text \<open>The parameters without the fields that come from the boxes.\<close>

definition other_part :: "search_params \<Rightarrow> search_params" where
  "other_part p = no_source (no_target (no_message p))"

lemma other_ignore [simp]:
  "other_part (no_source p) = other_part p" "other_part (no_target p) = other_part p" "other_part (no_message p) = other_part p"
  by (simp_all add: other_part_def no_source_def no_target_def no_message_def)

text \<open>
  C11. Before a query is sent the parameters are brought in step with the page: recomputing
  reads the three filter boxes completely and in order (each list is the sequence of the
  values of the facets it collects, the source type that of the last type facet), leaves all
  other parameters alone, and makes the download URL the one of the new parameters.
\<close>

theorem recompute_synchronizes:
  "let s' = recomputeDownloadUrl M s; p = params s' in
     source_part p = source_of_box (sourceFilter s) \<and>
     target_part p = target_of_box (targetFilter s) \<and>
     message_part p = message_of_box (messageFilter s) \<and>
     other_part p = other_part (params s) \<and>
     downloadUrl s' = download_url M p"
  by (simp add: recomputeDownloadUrl_def updateDownloadUrl_def Let_def part_message part_target part_source
      message_frame [of source_part] message_frame [of target_part] target_frame [of source_part]
      message_frame [of other_part] target_frame [of other_part] source_frame [of other_part])

text \<open>
  No facet of a filter box is lost and none is used twice: the lists that a box fills
  have together as many values as the box has facets with a known member.
\<close>

theorem facets_partitioned:
  "sum_list (map length (snd (target_part (params (updateTargetFilter M upd s))))) =
     length (filter (\<lambda>f. chosen target_facets f \<noteq> None) (box_facets (targetFilter s))) \<and>
   sum_list (map length (snd (message_part (params (updateMessageFilter M upd s))))) =
     length (filter (\<lambda>f. chosen message_facets f \<noteq> None) (box_facets (messageFilter s)))"
proof -
  have d: "distinct target_facets" "distinct message_facets"
    by (simp_all add: target_facets_def message_facets_def)
  show ?thesis
    using collected_total [OF d(1)] collected_total [OF d(2)]
    by (simp add: part_target part_message target_of_box_def message_of_box_def comp_def)
qed

subsection \<open>Time interval\<close>

lemma num_lt_irrefl [simp]: "\<not> num_lt x x"
  by (cases x) simp_all

definition dates_ordered :: "search_params \<Rightarrow> bool" where
  "dates_ordered p \<longleftrightarrow> \<not> num_lt (endDate p) (startDate p)"

lemma validate_ordered:
  "moment_laws M \<Longrightarrow> dates_ordered (params (validateTimeInterval M b s))"
  by (auto simp: moment_laws_def dates_ordered_def validateTimeInterval_def updateDownloadUrl_def Let_def)

lemma validate_noop:
  "dates_ordered (params s) \<Longrightarrow> validateTimeInterval M b s = updateDownloadUrl M s"
  by (simp add: dates_ordered_def validateTimeInterval_def updateDownloadUrl_def Let_def)

text \<open>
  The listener of a date keeps the interval in order: afterwards the start is not after
  the end, the date that the user changed is as the user left it, the other one moves only
  if the order was wrong, no other parameter changes, the download URL is that of the new
  parameters, and a second listener finds nothing to do.
\<close>

theorem validateTimeInterval_orders:
  assumes "moment_laws M"
  shows "let s' = validateTimeInterval M b s; p = params s; p' = params s' in
     dates_ordered p' \<and>
     (if b then startDate p' = startDate p else endDate p' = endDate p) \<and>
     (dates_ordered p \<longrightarrow> p' = p) \<and>
     p'\<lparr>startDate := NaN, endDate := NaN\<rparr> = p\<lparr>startDate := NaN, endDate := NaN\<rparr> \<and>
     downloadUrl s' = download_url M p' \<and>
     params (validateTimeInterval M c s') = p'"
proof -
  have "params (validateTimeInterval M c (validateTimeInterval M b s)) = params (validateTimeInterval M b s)"
    using validate_noop [OF validate_ordered [OF assms]] by (simp add: updateDownloadUrl_def)
  moreover note validate_ordered [OF assms, of b s]
  ultimately show ?thesis
    by (simp add: Let_def) (simp add: validateTimeInterval_def updateDownloadUrl_def dates_ordered_def Let_def)
qed

lemma clearParams_ordered:
  "moment_laws M \<Longrightarrow> \<not> num_lt t2 t1 \<Longrightarrow> dates_ordered (clearParams M t1 t2)"
  by (simp add: moment_laws_def dates_ordered_def clearParams_def)

subsection \<open>Area\<close>

lemma math_max_finite:
  "is_finite x \<Longrightarrow> is_finite y \<Longrightarrow> is_finite (math_max x y) \<and> valQ (math_max x y) = max (valQ x) (valQ y)"
  using finite_not_special [of x] finite_not_special [of y] num_lt_finite [of x y]
  by (cases x; cases y) (auto simp: math_max_def)

lemma math_min_finite:
  "is_finite x \<Longrightarrow> is_finite y \<Longrightarrow> is_finite (math_min x y) \<and> valQ (math_min x y) = min (valQ x) (valQ y)"
  using finite_not_special [of x] finite_not_special [of y] num_lt_finite [of x y]
  by (cases x; cases y) (auto simp: math_min_def)

text \<open>
  A running extreme: the edge of the area that a loop over points computes, started with
  no value. Both edges of both coordinates are instances.
\<close>

locale running_extreme =
  fixes jop :: "jsnum \<Rightarrow> jsnum \<Rightarrow> jsnum"
    and qop :: "rat \<Rightarrow> rat \<Rightarrow> rat"
  assumes op_finite: "is_finite x \<Longrightarrow> is_finite y \<Longrightarrow> is_finite (jop x y) \<and> valQ (jop x y) = qop (valQ x) (valQ y)"
begin

lemma fold_from:
  "is_finite m \<Longrightarrow> \<forall>v\<in>set vs. is_finite v \<Longrightarrow>
    \<exists>r. foldl (\<lambda>m v. Some (case m of None \<Rightarrow> v | Some w \<Rightarrow> jop v w)) (Some m) vs = Some r \<and>
        is_finite r \<and> valQ r = fold qop (map valQ vs) (valQ m)"
proof (induction vs arbitrary: m)
  case (Cons v vs)
  then show ?case using op_finite [of v m] Cons.IH [of "jop v m"] by auto
qed simp

lemma fold_value:
  "\<forall>v\<in>set (v # vs). is_finite v \<Longrightarrow>
    \<exists>r. foldl (\<lambda>m v. Some (case m of None \<Rightarrow> v | Some w \<Rightarrow> jop v w)) None (v # vs) = Some r \<and>
        is_finite r \<and> valQ r = fold qop (map valQ vs) (valQ v)"
  using fold_from [of v vs] by simp

end

interpretation upper_edge: running_extreme math_max max
  by unfold_locales (rule math_max_finite)

interpretation lower_edge: running_extreme math_min min
  by unfold_locales (rule math_min_finite)

lemma foldl_extend_area:
  "maxLat (foldl extend_area a cs) = foldl (\<lambda>m v. Some (max_opt v m)) (maxLat a) (map snd cs)"
  "maxLon (foldl extend_area a cs) = foldl (\<lambda>m v. Some (max_opt v m)) (maxLon a) (map fst cs)"
  "minLat (foldl extend_area a cs) = foldl (\<lambda>m v. Some (min_opt v m)) (minLat a) (map snd cs)"
  "minLon (foldl extend_area a cs) = foldl (\<lambda>m v. Some (min_opt v m)) (minLon a) (map fst cs)"
  by (induction cs arbitrary: a) (simp_all add: extend_area_def)

definition edge :: "jsnum option \<Rightarrow> rat \<Rightarrow> bool" where
  "edge e q \<longleftrightarrow> (\<exists>v. e = Some v \<and> is_finite v \<and> valQ v = q)"

lemma edge_max: "\<forall>v\<in>set vs. is_finite v \<Longrightarrow> vs \<noteq> [] \<Longrightarrow> edge (foldl (\<lambda>m v. Some (max_opt v m)) None vs) (Max (valQ ` set vs))"
  using upper_edge.fold_value [of "hd vs" "tl vs"] Max.set_eq_fold [of "valQ (hd vs)" "map valQ (tl vs)"]
  by (cases vs) (auto simp: edge_def max_opt_def)

lemma edge_min: "\<forall>v\<in>set vs. is_finite v \<Longrightarrow> vs \<noteq> [] \<Longrightarrow> edge (foldl (\<lambda>m v. Some (min_opt v m)) None vs) (Min (valQ ` set vs))"
  using lower_edge.fold_value [of "hd vs" "tl vs"] Min.set_eq_fold [of "valQ (hd vs)" "map valQ (tl vs)"]
  by (cases vs) (auto simp: edge_def min_opt_def)

text \<open>
  The area of a drawn shape is its bounding box: for points with finite coordinates the
  four edges are the largest and smallest latitude and longitude of the points. Clearing
  the area leaves none.
\<close>

theorem updateArea_bounding_box:
  assumes "cs \<noteq> []" "\<forall>c\<in>set cs. is_finite (fst c) \<and> is_finite (snd c)"
  shows "let a = area (params (updateArea (Some cs) s)) in
     edge (maxLat a) (Max ((\<lambda>c. valQ (snd c)) ` set cs)) \<and> edge (maxLon a) (Max ((\<lambda>c. valQ (fst c)) ` set cs)) \<and>
     edge (minLat a) (Min ((\<lambda>c. valQ (snd c)) ` set cs)) \<and> edge (minLon a) (Min ((\<lambda>c. valQ (fst c)) ` set cs)) \<and>
     area (params (clearArea s)) = no_area"
  using assms edge_max [of "map snd cs"] edge_max [of "map fst cs"] edge_min [of "map snd cs"] edge_min [of "map fst cs"]
  by (simp add: Let_def updateArea_def clearArea_def foldl_extend_area no_area_def image_image)

lemma updateArea_bounding_box_witness:
  "edge (maxLat (area (params (updateArea (Some [(Fin 10, Fin 55), (Fin 12, Fin 57)]) sample_scope)))) 57"
  using updateArea_bounding_box [of "[(Fin 10, Fin 55), (Fin 12, Fin 57)]" sample_scope] by (simp add: Let_def)

lemma validateTimeInterval_orders_witness:
  "dates_ordered (params (validateTimeInterval sample_moment True sample_scope))"
  using validateTimeInterval_orders [OF moment_laws_sample, of True sample_scope] by (simp add: Let_def)

lemma box_item_iff: "(''box'', b) \<in> set (request M p) \<longleftrightarrow> (''box'', b) \<in> set (box_items p)"
proof -
  have "fst i \<noteq> ''box''" if "i \<in> set (filter_items p)" for i
    using that by (simp add: filter_items_def split: if_splits)
  moreover have "fst i \<noteq> ''box''" if "i \<in> set (mmsi_items p)" for i
    using that by (auto simp: mmsi_items_def split: option.splits)
  moreover have "fst i \<noteq> ''box''" if "i \<in> set (output_items p)" for i
    using that by (auto simp: output_items_def split: if_splits)
  moreover have "fst i \<noteq> ''box''" if "i \<in> set (sampling_items p)" for i
    using that by (auto simp: sampling_items_def number_item_def split: if_splits)
  ultimately show ?thesis by (force simp: request_def)
qed

lemma truthy_edge: "edge e q \<Longrightarrow> truthy e \<longleftrightarrow> q \<noteq> 0"
proof -
  assume "edge e q"
  then obtain v where "e = Some v" "is_finite v" "valQ v = q" by (auto simp: edge_def)
  then show ?thesis by (cases v) (auto simp: truthy_def num_truthy_def)
qed

text \<open>
  The drawn area reaches the server as its bounding box (top, left, bottom, right), but
  only when no edge lies on the equator or the prime meridian: an edge that is zero counts
  as missing, and the query then runs without any restriction of the area.
\<close>

theorem drawn_area_sent_unless_zero_edge:
  assumes "cs \<noteq> []" "\<forall>c\<in>set cs. is_finite (fst c) \<and> is_finite (snd c)"
  shows "let p = params (updateArea (Some cs) s);
             t = Max ((\<lambda>c. valQ (snd c)) ` set cs); r = Max ((\<lambda>c. valQ (fst c)) ` set cs);
             b = Min ((\<lambda>c. valQ (snd c)) ` set cs); l = Min ((\<lambda>c. valQ (fst c)) ` set cs)
         in (\<exists>box. (''box'', box) \<in> set (request M p)) \<longleftrightarrow> t \<noteq> 0 \<and> r \<noteq> 0 \<and> b \<noteq> 0 \<and> l \<noteq> 0"
proof -
  define a where "a = area (params (updateArea (Some cs) s))"
  have e: "edge (maxLat a) (Max ((\<lambda>c. valQ (snd c)) ` set cs))" "edge (maxLon a) (Max ((\<lambda>c. valQ (fst c)) ` set cs))"
    "edge (minLat a) (Min ((\<lambda>c. valQ (snd c)) ` set cs))" "edge (minLon a) (Min ((\<lambda>c. valQ (fst c)) ` set cs))"
    using assms edge_max [of "map snd cs"] edge_max [of "map fst cs"] edge_min [of "map snd cs"] edge_min [of "map fst cs"]
    by (simp_all add: a_def updateArea_def foldl_extend_area no_area_def image_image)
  have "areaDefined (params (updateArea (Some cs) s)) \<longleftrightarrow>
      truthy (maxLat a) \<and> truthy (maxLon a) \<and> truthy (minLat a) \<and> truthy (minLon a)"
    by (simp add: areaDefined_def a_def Let_def)
  then show ?thesis
    unfolding Let_def box_item_iff by (simp add: box_items_def truthy_edge [OF e(1)] truthy_edge [OF e(2)] truthy_edge [OF e(3)] truthy_edge [OF e(4)])
qed

lemma drawn_area_sent_unless_zero_edge_witness:
  "\<not> (\<exists>box. (''box'', box) \<in> set (request sample_moment (params (updateArea (Some [(Fin 9, Fin 0), (Fin 12, Fin 3)]) sample_scope))))"
  using drawn_area_sent_unless_zero_edge [of "[(Fin 9, Fin 0), (Fin 12, Fin 3)]" sample_scope sample_moment]
  by (simp add: Let_def)

subsection \<open>Sending the query\<close>

lemma downloadUrl_recompute [simp]: "downloadUrl (recomputeDownloadUrl M s) = download_url M (params (recomputeDownloadUrl M s))"
  by (simp add: recomputeDownloadUrl_def updateDownloadUrl_def)

lemma raw_fields_recompute: "raw_fields_plain (params (recomputeDownloadUrl M s)) = raw_fields_plain (params s)"
proof -
  have "raw_fields_plain (no_source p) = raw_fields_plain p" "raw_fields_plain (no_target p) = raw_fields_plain p"
    "raw_fields_plain (no_message p) = raw_fields_plain p" for p
    by (simp_all add: raw_fields_plain_def no_source_def no_target_def no_message_def)
  then show ?thesis
    by (simp add: recomputeDownloadUrl_def updateDownloadUrl_def message_frame [of raw_fields_plain]
        target_frame [of raw_fields_plain] source_frame [of raw_fields_plain])
qed

text \<open>
  C1. A query arrives: executing brings the parameters in step with the page, disables the
  download buttons, saves those parameters, and sends one request whose \<open>params\<close> value is
  the query text of those parameters; that text in turn reads as the interval, filter, MMSI
  numbers, box, output and sampling of the search.
\<close>

theorem execute_sends_query:
  assumes "moment_laws M" "raw_fields_plain (params s)"
  shows "let (s', st', effs) = execute fits rs M async s st; p = params (recomputeDownloadUrl M s) in
     params s' = p \<and> downloadDisabled s' \<and>
     (fits (stringify (params_to_json p)) \<longrightarrow> stored_params st' = Some (stringify (params_to_json p))) \<and>
     stored_clientId st' = Some (fst (clientId rs st)) \<and>
     (\<exists>q g ps. effs = [HttpGet (''/downloader/query/execute/'' @ fst (clientId rs st) @ ''?'' @ q), Growl g] \<and>
        query_params q = [(''async'', Some (text_of_bool async)), (''params'', Some ps)] \<and>
        query_params ps = map (\<lambda>(k, v). (k, Some v)) (request M p))"
proof -
  let ?p = "params (recomputeDownloadUrl M s)"
  obtain q where q: "fst (execute_url rs (download_url M ?p) async st) =
        ''/downloader/query/execute/'' @ fst (clientId rs st) @ ''?'' @ q"
      "query_params q = [(''async'', Some (text_of_bool async)), (''params'', Some (download_url M ?p))]"
    using execute_url_query by blast
  have id: "stored_clientId (snd (clientId rs st)) = Some (fst (clientId rs st))"
    by (rule clientId_cases [of st rs]) simp_all
  obtain url st2 where e: "execute_url rs (download_url M ?p) async st = (url, st2)" by (cases "execute_url rs (download_url M ?p) async st")
  then have st2: "st2 = snd (clientId rs st)" by (simp add: execute_url_def split: prod.splits)
  define g where "g = (if async then ''Download Scheduled'' else ''Download Scheduled.<br><small>Opens upon completion</small>'')"
  have x: "execute fits rs M async s st =
      ((recomputeDownloadUrl M s)\<lparr>downloadDisabled := True\<rparr>, saveSearchParams fits ?p st2, [HttpGet url, Growl g])"
    by (simp add: execute_def Let_def e g_def)
  have w: "stored_params (saveSearchParams fits ?p st2) = Some (stringify (params_to_json ?p))"
    if "fits (stringify (params_to_json ?p))"
    using that by (simp add: saveSearchParams_def)
  have c: "stored_clientId (saveSearchParams fits ?p st2) = Some (fst (clientId rs st))"
    using id by (simp add: saveSearchParams_def st2 Let_def)
  have "url = ''/downloader/query/execute/'' @ fst (clientId rs st) @ ''?'' @ q" using q(1) e by simp
  then show ?thesis
    unfolding x Let_def prod.case using w c q(2) download_url_query [OF assms(1)] assms(2) raw_fields_recompute by fastforce
qed

lemma execute_sends_query_witness:
  "downloadDisabled (fst (execute (\<lambda>_. True) [] sample_moment True sample_scope empty_storage))"
proof -
  have "raw_fields_plain (params sample_scope)"
    by (simp add: sample_scope_def init_scope_def clearParams_def raw_fields_plain_def)
  from execute_sends_query [OF moment_laws_sample this, of "\<lambda>_. True" "[]" True empty_storage]
  show ?thesis by (auto simp: Let_def split: prod.splits)
qed

end
