(* ===== verification/Session.thy ===== *)
theory Session
  imports QueryCtrl
begin

text \<open>
  The life of the query page: the operations of \<open>AisQueryCtrl\<close> in any order, as the user,
  the watches on the dates and the output format, and the timers call them. A watch is
  pending from the moment its value changes until its listener has run; all three are
  pending when the page opens. Reloading the page (\<open>reset\<close>) ends the session.
\<close>

record session =
  scope :: query_scope
  store :: storage
  startPending :: bool
  endPending :: bool
  formatPending :: bool
  timers :: nat
  sent :: "string list"

text \<open>A new scope: the watches whose values differ become pending.\<close>

definition put :: "query_scope \<Rightarrow> session \<Rightarrow> session" where
  "put q s = s\<lparr>scope := q,
     startPending := startPending s \<or> startDate (params q) \<noteq> startDate (params (scope s)),
     endPending := endPending s \<or> endDate (params q) \<noteq> endDate (params (scope s)),
     formatPending := formatPending s \<or> outputFormat (params q) \<noteq> outputFormat (params (scope s))\<rparr>"

definition open_page :: "search_params \<Rightarrow> storage \<Rightarrow> session" where
  "open_page p st =
     \<lparr>scope = init_scope p, store = st, startPending = True, endPending = True,
      formatPending = True, timers = 0, sent = []\<rparr>"

definition urls :: "effect list \<Rightarrow> string list" where
  "urls es = concat (map (\<lambda>e. case e of HttpGet u \<Rightarrow> [u] | _ \<Rightarrow> []) es)"

definition run_execute :: "(string \<Rightarrow> bool) \<Rightarrow> rat list \<Rightarrow> moment \<Rightarrow> bool \<Rightarrow> session \<Rightarrow> session" where
  "run_execute fits rs M async s =
     (let (q, st, es) = execute fits rs M async (scope s) (store s)
      in (put q s)\<lparr>store := st, timers := timers s + 1, sent := sent s @ urls es\<rparr>)"

inductive session_step ::
  "moment \<Rightarrow> (string \<Rightarrow> bool) \<Rightarrow> session \<Rightarrow> session \<Rightarrow> bool"
  for M :: moment and fits :: "string \<Rightarrow> bool" where
  edit: "downloadDisabled q = downloadDisabled (scope s) \<Longrightarrow> session_step M fits s (put q s)"
| fill_boxes: "session_step M fits s (put (set_boxes (scope s)) s)"
| filter_type: "session_step M fits s (put (useAdvancedFilter b (scope s)) s)"
| search_source: "session_step M fits s (put (updateSourceFilter M True (scope s)) s)"
| search_target: "session_step M fits s (put (updateTargetFilter M True (scope s)) s)"
| search_message: "session_step M fits s (put (updateMessageFilter M True (scope s)) s)"
| set_area: "session_step M fits s (put (updateArea cs (scope s)) s)"
| start_listener: "startPending s \<Longrightarrow>
    session_step M fits s (put (validateTimeInterval M True (scope s)) (s\<lparr>startPending := False\<rparr>))"
| end_listener: "endPending s \<Longrightarrow>
    session_step M fits s (put (validateTimeInterval M False (scope s)) (s\<lparr>endPending := False\<rparr>))"
| format_listener: "formatPending s \<Longrightarrow>
    session_step M fits s (put (updateDownloadUrl M (scope s)) (s\<lparr>formatPending := False\<rparr>))"
| execute: "session_step M fits s (run_execute fits rs M async s)"
| timer: "0 < timers s \<Longrightarrow>
    session_step M fits s (s\<lparr>scope := enable_download (scope s), timers := timers s - 1\<rparr>)"
| clear: "\<not> num_lt t2 t1 \<Longrightarrow> session_step M fits s (put (clear M t1 t2 (scope s)) s)"
| open_store: "session_step M fits s (put (fst (openInAisStore M (scope s))) s)"
| copy_url: "session_step M fits s (put (fst (copy M (scope s))) s)"

inductive reachable ::
  "moment \<Rightarrow> (string \<Rightarrow> bool) \<Rightarrow> session \<Rightarrow> session \<Rightarrow> bool"
  for M :: moment and fits :: "string \<Rightarrow> bool" and s0 :: session where
  start: "reachable M fits s0 s0"
| step: "reachable M fits s0 s \<Longrightarrow> session_step M fits s s' \<Longrightarrow> reachable M fits s0 s'"

inductive_cases session_stepE: "session_step M fits s s'"

text \<open>Filling the boxes changes nothing but the boxes.\<close>

lemma fill_boxes_frame [simp]:
  "params (snd (fill_boxes s)) = params s" "downloadDisabled (snd (fill_boxes s)) = downloadDisabled s"
  "downloadUrl (snd (fill_boxes s)) = downloadUrl s" "showAreaMap (snd (fill_boxes s)) = showAreaMap s"
  by (simp_all add: fill_boxes_def Let_def split: sum.split)

subsection \<open>Which operations change the dates\<close>

definition dates :: "query_scope \<Rightarrow> jsnum \<times> jsnum" where
  "dates q = (startDate (params q), endDate (params q))"

lemma put_simps [simp]:
  "scope (put q s) = q" "store (put q s) = store s" "timers (put q s) = timers s" "sent (put q s) = sent s"
  by (simp_all add: put_def)

lemma put_dates:
  "startPending (put q s) \<or> endPending (put q s) \<longleftrightarrow> startPending s \<or> endPending s \<or> dates q \<noteq> dates (scope s)"
  by (auto simp: put_def dates_def)

lemma dates_facets [simp]:
  "dates (updateSourceFilter M upd q) = dates q" "dates (updateTargetFilter M upd q) = dates q"
  "dates (updateMessageFilter M upd q) = dates q"
proof -
  let ?d = "\<lambda>p. (startDate p, endDate p)"
  have "?d (no_source p) = ?d p" "?d (no_target p) = ?d p" "?d (no_message p) = ?d p" for p
    by (simp_all add: no_source_def no_target_def no_message_def)
  then have "dates (updateSourceFilter M False q) = dates q" "dates (updateTargetFilter M False q) = dates q"
    "dates (updateMessageFilter M False q) = dates q"
    using source_frame [of ?d M q] target_frame [of ?d M q] message_frame [of ?d M q] by (simp_all add: dates_def)
  then show "dates (updateSourceFilter M upd q) = dates q" "dates (updateTargetFilter M upd q) = dates q"
    "dates (updateMessageFilter M upd q) = dates q"
    by (cases upd; simp add: updateSourceFilter_def updateTargetFilter_def updateMessageFilter_def
        updateDownloadUrl_def dates_def Let_def)+
qed

lemma dates_others [simp]:
  "dates (updateDownloadUrl M q) = dates q" "dates (recomputeDownloadUrl M q) = dates q"
  "dates (useAdvancedFilter b q) = dates q" "dates (updateArea cs q) = dates q" "dates (set_boxes q) = dates q"
  "dates (enable_download q) = dates q" "dates (fst (openInAisStore M q)) = dates q" "dates (fst (copy M q)) = dates q"
proof -
  show u: "dates (updateDownloadUrl M q) = dates q" for q by (simp add: dates_def updateDownloadUrl_def)
  show r: "dates (recomputeDownloadUrl M q) = dates q" by (simp add: recomputeDownloadUrl_def u)
  show "dates (fst (openInAisStore M q)) = dates q" "dates (fst (copy M q)) = dates q"
    by (simp_all add: openInAisStore_def copy_def Let_def r)
qed (simp_all add: dates_def useAdvancedFilter_def updateArea_def set_boxes_def enable_download_def)

lemma ordered_dates: "dates_ordered (params q) \<longleftrightarrow> \<not> num_lt (snd (dates q)) (fst (dates q))"
  by (simp add: dates_ordered_def dates_def)

lemma execute_scope: "fst (execute fits rs M async q st) = (recomputeDownloadUrl M q)\<lparr>downloadDisabled := True\<rparr>"
  by (simp add: execute_def Let_def split: prod.split)

lemma run_execute_simps [simp]:
  "scope (run_execute fits rs M async s) = (recomputeDownloadUrl M (scope s))\<lparr>downloadDisabled := True\<rparr>"
  "timers (run_execute fits rs M async s) = timers s + 1"
  "startPending (run_execute fits rs M async s) = startPending s"
  "endPending (run_execute fits rs M async s) = endPending s"
proof -
  have d: "startDate (params (recomputeDownloadUrl M (scope s))) = startDate (params (scope s))"
    "endDate (params (recomputeDownloadUrl M (scope s))) = endDate (params (scope s))"
    using dates_others(2) [of M "scope s"] by (simp_all add: dates_def)
  show "scope (run_execute fits rs M async s) = (recomputeDownloadUrl M (scope s))\<lparr>downloadDisabled := True\<rparr>"
    "timers (run_execute fits rs M async s) = timers s + 1"
    "startPending (run_execute fits rs M async s) = startPending s"
    "endPending (run_execute fits rs M async s) = endPending s"
    using execute_scope [of fits rs M async "scope s" "store s"] d
    by (auto simp: run_execute_def put_def split: prod.split)
qed

lemma disabled_simps [simp]:
  "downloadDisabled (updateDownloadUrl M q) = downloadDisabled q"
  "downloadDisabled (updateSourceFilter M upd q) = downloadDisabled q"
  "downloadDisabled (updateTargetFilter M upd q) = downloadDisabled q"
  "downloadDisabled (updateMessageFilter M upd q) = downloadDisabled q"
  "downloadDisabled (recomputeDownloadUrl M q) = downloadDisabled q"
  "downloadDisabled (validateTimeInterval M b q) = downloadDisabled q"
  "downloadDisabled (useAdvancedFilter b q) = downloadDisabled q"
  "downloadDisabled (updateArea cs q) = downloadDisabled q"
  "downloadDisabled (set_boxes q) = downloadDisabled q"
  "downloadDisabled (clear M t1 t2 q) = downloadDisabled q"
  "downloadDisabled (fst (openInAisStore M q)) = downloadDisabled q"
  "downloadDisabled (fst (copy M q)) = downloadDisabled q"
  "\<not> downloadDisabled (enable_download q)"
  by (simp_all add: updateSourceFilter_def updateTargetFilter_def updateMessageFilter_def recomputeDownloadUrl_def
      validateTimeInterval_def useAdvancedFilter_def updateArea_def set_boxes_def clear_def openInAisStore_def copy_def
      enable_download_def updateDownloadUrl_def Let_def)

lemma clear_ordered: "moment_laws M \<Longrightarrow> \<not> num_lt t2 t1 \<Longrightarrow> dates_ordered (params (clear M t1 t2 q))"
  using clearParams_ordered [of M t2 t1] by (simp add: clear_def set_boxes_def)

subsection \<open>Invariants of a session\<close>

text \<open>The dates are in order, or a listener that puts them in order is pending.\<close>

definition interval_ok :: "session \<Rightarrow> bool" where
  "interval_ok s \<longleftrightarrow> dates_ordered (params (scope s)) \<or> startPending s \<or> endPending s"

lemma interval_put: "interval_ok s \<Longrightarrow> interval_ok (put q s)"
  using put_dates [of q s] by (auto simp: interval_ok_def ordered_dates)

lemma interval_step:
  assumes "moment_laws M" "session_step M fits s s'" "interval_ok s"
  shows "interval_ok s'"
  using assms(2)
proof cases
  case start_listener
  then show ?thesis using validate_ordered [OF assms(1)] by (simp add: interval_ok_def)
next
  case end_listener
  then show ?thesis using validate_ordered [OF assms(1)] by (simp add: interval_ok_def)
next
  case (clear t2 t1)
  then show ?thesis using clear_ordered [OF assms(1)] by (simp add: interval_ok_def)
next
  case (execute rs async)
  have "dates ((recomputeDownloadUrl M (scope s))\<lparr>downloadDisabled := True\<rparr>) = dates (scope s)"
    using dates_others(2) [of M "scope s"] by (simp add: dates_def)
  with assms(3) show ?thesis unfolding execute by (simp add: interval_ok_def ordered_dates)
next
  case timer
  with assms(3) show ?thesis by (simp add: interval_ok_def ordered_dates)
next
  case format_listener
  have "interval_ok (s\<lparr>formatPending := False\<rparr>)" using assms(3) by (simp add: interval_ok_def)
  then show ?thesis unfolding format_listener by (rule interval_put)
qed (use assms(3) in \<open>simp_all add: interval_put\<close>)

definition buttons_ok :: "session \<Rightarrow> bool" where
  "buttons_ok s \<longleftrightarrow> (downloadDisabled (scope s) \<longrightarrow> 0 < timers s)"

lemma buttons_step: "session_step M fits s s' \<Longrightarrow> buttons_ok s \<Longrightarrow> buttons_ok s'"
  by (erule session_step.cases) (simp_all add: buttons_ok_def)

definition client_ok :: "session \<Rightarrow> bool" where
  "client_ok s \<longleftrightarrow> sent s = [] \<or> (\<exists>c. stored_clientId (store s) = Some c \<and> c \<noteq> [] \<and>
     (\<forall>u\<in>set (sent s). \<exists>q. u = ''/downloader/query/execute/'' @ c @ ''?'' @ q))"

lemma client_execute: "client_ok s \<Longrightarrow> client_ok (run_execute fits rs M async s)"
proof -
  assume ok: "client_ok s"
  let ?st = "store s" and ?q = "recomputeDownloadUrl M (scope s)"
  obtain q where q: "fst (execute_url rs (downloadUrl ?q) async ?st) =
      ''/downloader/query/execute/'' @ fst (clientId rs ?st) @ ''?'' @ q"
    using execute_url_query by blast
  have st: "snd (execute_url rs (downloadUrl ?q) async ?st) = snd (clientId rs ?st)"
    by (simp add: execute_url_def split: prod.splits)
  have id: "stored_clientId (snd (clientId rs ?st)) = Some (fst (clientId rs ?st))" "fst (clientId rs ?st) \<noteq> []"
    using uuid_fill_not_Nil by (rule_tac [!] clientId_cases [of ?st rs]) simp_all
  have old: "fst (clientId rs ?st) = c" if "stored_clientId ?st = Some c" "c \<noteq> []" for c
    using that by (cases c) (simp_all add: clientId_def)
  have keep: "stored_clientId (saveSearchParams fits p st) = stored_clientId st" for p st
    by (simp add: saveSearchParams_def Let_def)
  have s': "sent (run_execute fits rs M async s) = sent s @ [''/downloader/query/execute/'' @ fst (clientId rs ?st) @ ''?'' @ q]"
      "stored_clientId (store (run_execute fits rs M async s)) = Some (fst (clientId rs ?st))"
    using q st id(1) by (auto simp: run_execute_def execute_def Let_def urls_def keep split: prod.splits)
  show ?thesis unfolding client_ok_def s' using id(2) ok old by (auto simp: client_ok_def)
qed

lemma client_step: "session_step M fits s s' \<Longrightarrow> client_ok s \<Longrightarrow> client_ok s'"
  by (erule session_step.cases) (simp_all add: client_execute, simp_all add: client_ok_def)

lemma open_page_ok:
  "interval_ok (open_page p st)" "buttons_ok (open_page p st)" "client_ok (open_page p st)"
  by (simp_all add: interval_ok_def buttons_ok_def client_ok_def open_page_def init_scope_def)

lemma reachable_invariant:
  assumes "reachable M fits s0 s" "P s0" "\<And>s s'. session_step M fits s s' \<Longrightarrow> P s \<Longrightarrow> P s'"
  shows "P s"
  using assms(1) by induction (use assms(2,3) in auto)

text \<open>
  C5. At every moment of a session the start date is not after the end date, except while a
  watch that has yet to put them in order is pending; whatever the order of edits, clears,
  queries and listeners.
\<close>

theorem session_interval:
  assumes "moment_laws M" "reachable M fits (open_page p st) s"
    and "\<not> startPending s" "\<not> endPending s"
  shows "\<not> num_lt (endDate (params (scope s))) (startDate (params (scope s)))"
proof -
  have "interval_ok s"
    by (rule reachable_invariant [OF assms(2)]) (simp_all add: interval_step [OF assms(1)] open_page_ok)
  with assms(3,4) show ?thesis by (simp add: interval_ok_def dates_ordered_def)
qed

text \<open>
  The download buttons are never stuck: in every reachable state in which they are
  disabled a timer that enables them is running.
\<close>

theorem session_buttons:
  assumes "reachable M fits (open_page p st) s" "downloadDisabled (scope s)"
  shows "0 < timers s"
proof -
  have "buttons_ok s"
    by (rule reachable_invariant [OF assms(1)]) (simp_all add: buttons_step open_page_ok)
  with assms(2) show ?thesis by (simp add: buttons_ok_def)
qed

text \<open>
  All queries of a session go out under one client id, the one in the storage.
\<close>

theorem session_client:
  assumes "reachable M fits (open_page p st) s" "sent s \<noteq> []"
  shows "\<exists>c. stored_clientId (store s) = Some c \<and>
     (\<forall>u\<in>set (sent s). \<exists>q. u = ''/downloader/query/execute/'' @ c @ ''?'' @ q)"
proof -
  have "client_ok s"
    by (rule reachable_invariant [OF assms(1)]) (simp_all add: client_step open_page_ok)
  with assms(2) show ?thesis by (auto simp: client_ok_def)
qed

subsection \<open>Termination of the date listeners\<close>

text \<open>The runs of the two date listeners alone.\<close>

inductive listener_step :: "moment \<Rightarrow> session \<Rightarrow> session \<Rightarrow> bool" for M :: moment where
  start: "startPending s \<Longrightarrow>
    listener_step M s (put (validateTimeInterval M True (scope s)) (s\<lparr>startPending := False\<rparr>))"
| "end": "endPending s \<Longrightarrow>
    listener_step M s (put (validateTimeInterval M False (scope s)) (s\<lparr>endPending := False\<rparr>))"

inductive_simps listener_step_iff: "listener_step M s s'"

lemma listener_session: "listener_step M s s' \<Longrightarrow> session_step M fits s s'"
  by (auto simp: listener_step_iff intro: session_step.start_listener session_step.end_listener)

lemma validate_changes [simp]:
  "startDate (params (validateTimeInterval M True q)) = startDate (params q)"
  "endDate (params (validateTimeInterval M False q)) = endDate (params q)"
  by (simp_all add: validateTimeInterval_def updateDownloadUrl_def Let_def)

lemma validate_unchanged: "dates_ordered (params q) \<Longrightarrow> params (validateTimeInterval M b q) = params q"
  by (simp add: validate_noop updateDownloadUrl_def)

lemma listener_first:
  "moment_laws M \<Longrightarrow> listener_step M s s' \<Longrightarrow>
    dates_ordered (params (scope s')) \<and> (\<not> startPending s' \<or> \<not> endPending s')"
  by (auto simp: listener_step_iff put_def validate_ordered)

lemma listener_second:
  "dates_ordered (params (scope s)) \<Longrightarrow> \<not> startPending s \<or> \<not> endPending s \<Longrightarrow> listener_step M s s' \<Longrightarrow>
    \<not> startPending s' \<and> \<not> endPending s'"
  by (auto simp: listener_step_iff put_def validate_unchanged)

text \<open>
  C31. The two date listeners do not chase each other: from any state there are at most two
  runs in a row, and when none is left to run in a reachable state the dates are in order.
\<close>

theorem date_listeners_terminate:
  assumes "moment_laws M" "reachable M fits (open_page p st) s"
  shows "\<not> (\<exists>s'. (listener_step M ^^ 3) s s') \<and>
    (\<not> (\<exists>s'. listener_step M s s') \<longrightarrow> dates_ordered (params (scope s)))"
proof
  show "\<not> (\<exists>s'. (listener_step M ^^ 3) s s')"
  proof
    assume "\<exists>s'. (listener_step M ^^ 3) s s'"
    then obtain s1 s2 s3 where st: "listener_step M s s1" "listener_step M s1 s2" "listener_step M s2 s3"
      by (auto simp: numeral_3_eq_3)
    from listener_first [OF assms(1) st(1)] have "\<not> startPending s2 \<and> \<not> endPending s2"
      using listener_second st(2) by blast
    with st(3) show False by (auto simp: listener_step_iff)
  qed
  have "interval_ok s"
    by (rule reachable_invariant [OF assms(2)]) (simp_all add: interval_step [OF assms(1)] open_page_ok)
  then show "\<not> (\<exists>s'. listener_step M s s') \<longrightarrow> dates_ordered (params (scope s))"
    by (auto simp: interval_ok_def listener_step_iff)
qed

subsection \<open>A concrete session\<close>

definition sample_session :: session where
  "sample_session = open_page (clearParams sample_moment (Fin 0) (Fin 0)) empty_storage"

lemma date_listeners_terminate_witness: "\<not> (\<exists>s'. (listener_step sample_moment ^^ 3) sample_session s')"
  using date_listeners_terminate [OF moment_laws_sample reachable.start, of "clearParams sample_moment (Fin 0) (Fin 0)" empty_storage]
  unfolding sample_session_def by blast

lemma session_buttons_witness:
  "0 < timers (run_execute (\<lambda>_. True) [] sample_moment True sample_session)"
proof -
  let ?s = "run_execute (\<lambda>_. True) [] sample_moment True sample_session"
  have "reachable sample_moment (\<lambda>_. True) sample_session ?s"
    by (rule reachable.step [OF reachable.start session_step.execute])
  moreover have "downloadDisabled (scope ?s)" by simp
  ultimately show ?thesis unfolding sample_session_def by (rule session_buttons)
qed

lemma session_client_witness:
  "\<exists>c. stored_clientId (store (run_execute (\<lambda>_. True) [] sample_moment True sample_session)) = Some c"
proof -
  let ?s = "run_execute (\<lambda>_. True) [] sample_moment True sample_session"
  have "reachable sample_moment (\<lambda>_. True) sample_session ?s"
    by (rule reachable.step [OF reachable.start session_step.execute])
  moreover have "sent ?s \<noteq> []" by (simp add: run_execute_def execute_def urls_def Let_def split: prod.split)
  ultimately show ?thesis unfolding sample_session_def using session_client by blast
qed

lemma session_interval_witness:
  "\<exists>s :: session. \<not> startPending s \<and> \<not> endPending s \<and> \<not> num_lt (endDate (params (scope s))) (startDate (params (scope s)))"
proof -
  let ?r = "reachable sample_moment (\<lambda>_. True) sample_session"
  have o: "dates_ordered (params (scope sample_session))"
    by (simp add: sample_session_def open_page_def init_scope_def
        clearParams_ordered [OF moment_laws_sample])
  define s1 where "s1 = put (validateTimeInterval sample_moment True (scope sample_session)) (sample_session\<lparr>startPending := False\<rparr>)"
  have p: "startPending sample_session" "endPending sample_session" by (simp_all add: sample_session_def open_page_def)
  have 1: "?r s1" unfolding s1_def by (rule reachable.step [OF reachable.start session_step.start_listener [OF p(1)]])
  have e: "endPending s1" "\<not> startPending s1" "params (scope s1) = params (scope sample_session)"
    using p o by (simp_all add: s1_def put_def validate_unchanged)
  define s2 where "s2 = put (validateTimeInterval sample_moment False (scope s1)) (s1\<lparr>endPending := False\<rparr>)"
  have 2: "?r s2" unfolding s2_def by (rule reachable.step [OF 1 session_step.end_listener [OF e(1)]])
  have "\<not> startPending s2" "\<not> endPending s2" using e o by (simp_all add: s2_def put_def validate_unchanged)
  then show ?thesis using session_interval [OF moment_laws_sample 2 [unfolded sample_session_def]] by blast
qed

end
