(* ===== verification/SavedSearch.thy ===== *)
theory SavedSearch
  imports Session Service
begin

text \<open>
  A search and the next visit of the page: the parameters that a query saves, read by the next
  page, and the search boxes that the page fills with the texts in them.
\<close>

subsection \<open>Settled boxes\<close>

text \<open>A box after a search: tidy facets, perhaps a free text at the end, and nothing in the fields.\<close>

definition settled :: "search_box \<Rightarrow> bool" where
  "settled b \<longleftrightarrow>
     (case dropWhile tidy (query_facets b) of
        [] \<Rightarrow> True
      | [f] \<Rightarrow> category f = remainder \<and> free_text (facet_text f)
      | _ \<Rightarrow> False) \<and>
     input_values b = replicate (Suc (length (query_facets b))) []"

lemma settledE:
  assumes "settled b"
  obtains fs t where "query_facets b = fs @ text_facets t" "\<forall>f\<in>set fs. tidy f" "t = [] \<or> free_text t"
    "b = renderFacets b"
proof -
  let ?fs = "takeWhile tidy (query_facets b)"
  have r: "b = renderFacets b" using assms by (simp add: settled_def renderFacets_def)
  have t: "\<forall>f\<in>set ?fs. tidy f" by (meson set_takeWhileD)
  show thesis
  proof (cases "dropWhile tidy (query_facets b)")
    case Nil
    then have "query_facets b = ?fs @ text_facets []"
      using takeWhile_dropWhile_id [of tidy "query_facets b", symmetric] unfolding Nil by (simp only: text_facets_def simp_thms if_True)
    then show thesis using t r by (intro that [of ?fs "[]"]) simp_all
  next
    case (Cons f gs)
    then have f: "gs = []" "category f = remainder" "free_text (facet_text f)" using assms by (auto simp: settled_def split: list.splits)
    then have "text_facets (facet_text f) = [f]" by (auto simp: text_facets_def free_text_def)
    moreover have "query_facets b = ?fs @ [f]" using takeWhile_dropWhile_id [of tidy "query_facets b"] Cons f(1) by simp
    ultimately show thesis using t r f(3) by (intro that [of ?fs "facet_text f"]) simp_all
  qed
qed

lemma settled_read: "settled b \<Longrightarrow> setQuery (box_text b) empty_box = Inr b"
proof -
  assume "settled b"
  then obtain fs t where b: "query_facets b = fs @ text_facets t" "\<forall>f\<in>set fs. tidy f" "t = [] \<or> free_text t" "b = renderFacets b"
    by (rule settledE)
  have "box_text b = join '' '' (map serialize_facet (fs @ text_facets t))"
    using serialize_all [OF b(2,3)] b(1) by (subst b(4), subst box_text_rendered) simp
  moreover have "renderFacets (empty_box\<lparr>query_facets := query_facets b\<rparr>) = renderFacets b" by (simp add: renderFacets_def empty_box_def)
  ultimately show ?thesis using facets_read [OF b(2,3)] b(1,4) by (simp add: setQuery_def)
qed

lemma settled_searched: "settled b \<Longrightarrow> searchEvent b = Inr b"
proof -
  assume b: "settled b"
  then have "b = renderFacets b" by (rule settledE)
  then have "renderFacets (b\<lparr>query_facets := query_facets b\<rparr>) = b" by simp
  moreover have "extractAllFacets (box_text b) = Inr (query_facets b)"
    using settled_read [OF b] by (auto simp: setQuery_def renderFacets_def split: sum.splits)
  ultimately show ?thesis by (simp add: searchEvent_def setQuery_def)
qed

subsection \<open>A search in a box\<close>

text \<open>
  The callbacks \<open>search\<close> of the three boxes: the box has parsed its text, then the controller
  reads it.
\<close>

definition source_searched :: "moment \<Rightarrow> query_scope \<Rightarrow> type_error + query_scope" where
  "source_searched M s =
     (case searchEvent (sourceFilter s) of Inl e \<Rightarrow> Inl e | Inr b \<Rightarrow> Inr (updateSourceFilter M True (s\<lparr>sourceFilter := b\<rparr>)))"

definition target_searched :: "moment \<Rightarrow> query_scope \<Rightarrow> type_error + query_scope" where
  "target_searched M s =
     (case searchEvent (targetFilter s) of Inl e \<Rightarrow> Inl e | Inr b \<Rightarrow> Inr (updateTargetFilter M True (s\<lparr>targetFilter := b\<rparr>)))"

definition message_searched :: "moment \<Rightarrow> query_scope \<Rightarrow> type_error + query_scope" where
  "message_searched M s =
     (case searchEvent (messageFilter s) of Inl e \<Rightarrow> Inl e | Inr b \<Rightarrow> Inr (updateMessageFilter M True (s\<lparr>messageFilter := b\<rparr>)))"

text \<open>A box whose facets are tidy, with free text or nothing in its last field.\<close>

definition searchable :: "search_box \<Rightarrow> bool" where
  "searchable b \<longleftrightarrow> list_all tidy (query_facets b) \<and> (last (input_values b) = [] \<or> free_text (last (input_values b))) \<and>
     input_values b = replicate (length (query_facets b)) [] @ [last (input_values b)]"

lemma search_settled:
  assumes "searchable b"
  obtains b' where "searchEvent b = Inr b'" "settled b'" "query_facets b' = query_facets b @ text_facets (last (input_values b))"
proof -
  define t where "t = last (input_values b)"
  define b' where "b' = renderFacets (b\<lparr>query_facets := query_facets b @ text_facets t\<rparr>)"
  have s: "\<forall>f\<in>set (query_facets b). tidy f" "t = [] \<or> free_text t" "input_values b = replicate (length (query_facets b)) [] @ [t]"
    using assms by (simp_all add: searchable_def list_all_iff t_def)
  have "\<not> tidy \<lparr>category = remainder, facet_text = t\<rparr>" by (simp add: tidy_def plain_category_def)
  moreover have "dropWhile tidy (query_facets b @ text_facets t) = dropWhile tidy (text_facets t)"
    by (rule dropWhile_append2) (use s(1) in blast)
  ultimately have "settled b'"
    using s(2) by (auto simp: settled_def b'_def renderFacets_def text_facets_def)
  then show thesis using search_result(1) [OF s b'_def] by (intro that [of b']) (simp_all add: b'_def t_def)
qed

lemma url_searched:
  "downloadUrl (updateSourceFilter M True s) = download_url M (params (updateSourceFilter M True s))"
  "downloadUrl (updateTargetFilter M True s) = download_url M (params (updateTargetFilter M True s))"
  "downloadUrl (updateMessageFilter M True s) = download_url M (params (updateMessageFilter M True s))"
  by (simp_all add: updateSourceFilter_def updateTargetFilter_def updateMessageFilter_def updateDownloadUrl_def Let_def)

lemma own_boxes:
  "sourceFilter (updateSourceFilter M upd s) = sourceFilter s" "targetFilter (updateTargetFilter M upd s) = targetFilter s"
  "messageFilter (updateMessageFilter M upd s) = messageFilter s"
  by (simp_all add: updateSourceFilter_def updateTargetFilter_def updateMessageFilter_def updateDownloadUrl_def Let_def)

text \<open>
  C7. A search in a box reaches the query: when enter is pressed in a box with tidy facets and
  free text or nothing in its last field, the box is settled with that text as its last
  facet, the parameters of the box are read from it completely, and the query text is the one of
  the new parameters.
\<close>

theorem search_reaches_query:
  "(searchable (sourceFilter s) \<longrightarrow> (\<exists>s'. source_searched M s = Inr s' \<and> settled (sourceFilter s') \<and>
      query_facets (sourceFilter s') = query_facets (sourceFilter s) @ text_facets (last (input_values (sourceFilter s))) \<and>
      source_part (params s') = source_of_box (sourceFilter s') \<and> downloadUrl s' = download_url M (params s'))) \<and>
   (searchable (targetFilter s) \<longrightarrow> (\<exists>s'. target_searched M s = Inr s' \<and> settled (targetFilter s') \<and>
      query_facets (targetFilter s') = query_facets (targetFilter s) @ text_facets (last (input_values (targetFilter s))) \<and>
      target_part (params s') = target_of_box (targetFilter s') \<and> downloadUrl s' = download_url M (params s'))) \<and>
   (searchable (messageFilter s) \<longrightarrow> (\<exists>s'. message_searched M s = Inr s' \<and> settled (messageFilter s') \<and>
      query_facets (messageFilter s') = query_facets (messageFilter s) @ text_facets (last (input_values (messageFilter s))) \<and>
      message_part (params s') = message_of_box (messageFilter s') \<and> downloadUrl s' = download_url M (params s')))"
proof (intro conjI impI)
  assume "searchable (sourceFilter s)"
  then show "\<exists>s'. source_searched M s = Inr s' \<and> settled (sourceFilter s') \<and>
      query_facets (sourceFilter s') = query_facets (sourceFilter s) @ text_facets (last (input_values (sourceFilter s))) \<and>
      source_part (params s') = source_of_box (sourceFilter s') \<and> downloadUrl s' = download_url M (params s')"
    by (rule search_settled) (simp add: source_searched_def url_searched own_boxes part_source)
next
  assume "searchable (targetFilter s)"
  then show "\<exists>s'. target_searched M s = Inr s' \<and> settled (targetFilter s') \<and>
      query_facets (targetFilter s') = query_facets (targetFilter s) @ text_facets (last (input_values (targetFilter s))) \<and>
      target_part (params s') = target_of_box (targetFilter s') \<and> downloadUrl s' = download_url M (params s')"
    by (rule search_settled) (simp add: target_searched_def url_searched own_boxes part_target)
next
  assume "searchable (messageFilter s)"
  then show "\<exists>s'. message_searched M s = Inr s' \<and> settled (messageFilter s') \<and>
      query_facets (messageFilter s') = query_facets (messageFilter s) @ text_facets (last (input_values (messageFilter s))) \<and>
      message_part (params s') = message_of_box (messageFilter s') \<and> downloadUrl s' = download_url M (params s')"
    by (rule search_settled) (simp add: message_searched_def url_searched own_boxes part_message)
qed

subsection \<open>Recomputing the same query\<close>

lemma params_eqI:
  "source_part p = source_part q \<Longrightarrow> target_part p = target_part q \<Longrightarrow> message_part p = message_part q \<Longrightarrow>
    other_part p = other_part q \<Longrightarrow> p = (q :: search_params)"
  by (cases p; cases q) (simp add: source_part_def target_part_def message_part_def target_facets_def message_facets_def
      other_part_def no_source_def no_target_def no_message_def)

lemma parts_recompute:
  "source_part (params (recomputeDownloadUrl M s)) = source_of_box (sourceFilter s)"
  "target_part (params (recomputeDownloadUrl M s)) = target_of_box (targetFilter s)"
  "message_part (params (recomputeDownloadUrl M s)) = message_of_box (messageFilter s)"
  "other_part (params (recomputeDownloadUrl M s)) = other_part (params s)"
  by (simp_all add: recomputeDownloadUrl_def updateDownloadUrl_def part_message part_target part_source
      message_frame [of source_part] message_frame [of target_part] target_frame [of source_part]
      message_frame [of other_part] target_frame [of other_part] source_frame [of other_part])

lemma recompute_again:
  assumes "params q = params (recomputeDownloadUrl M s)"
    "sourceFilter q = sourceFilter s" "targetFilter q = targetFilter s" "messageFilter q = messageFilter s"
  shows "params (recomputeDownloadUrl M q) = params q"
  by (rule params_eqI) (simp_all add: assms parts_recompute)

lemma other_kept: "(\<And>p. g (other_part p) = g p) \<Longrightarrow> g (params (recomputeDownloadUrl M s)) = g (params s)"
  using parts_recompute(4) [of M s] by metis

lemma recompute_storable:
  "storable (params (recomputeDownloadUrl M s)) = storable (params s)"
  "version (params (recomputeDownloadUrl M s)) = version (params s)"
  by (rule other_kept, simp add: storable_def other_part_def no_source_def no_target_def no_message_def)+

lemma execute_saves:
  assumes "storable (params s)" "version (params s) = Some service_version"
    "fits (stringify (params_to_json (params (recomputeDownloadUrl M s))))"
  shows "getSearchParams M t1 t2 (fst (snd (execute fits rs M async s st))) = Inr (params (recomputeDownloadUrl M s))"
  using saved_params_read [of "params (recomputeDownloadUrl M s)" fits] assms
  by (simp add: execute_def recompute_storable Let_def split: prod.split)

lemma fill_settled:
  assumes "settled b1" "settled b2" "settled b3" "sourceTxt p = box_text b1" "targetTxt p = box_text b2" "messageTxt p = box_text b3"
  shows "fill_boxes (init_scope p) = (None, (init_scope p)\<lparr>sourceFilter := b1, targetFilter := b2, messageFilter := b3\<rparr>)"
  using assms by (simp add: fill_boxes_def init_scope_def settled_read)

lemma set_boxes_init: "set_boxes (init_scope p) = snd (fill_boxes (init_scope p))"
  by (simp add: set_boxes_def init_scope_def)

text \<open>
  C6. A search survives the visit: after a query from boxes in which a search has been made, the
  next page finds the saved parameters, shows the same facets in all three boxes, and
  would send the same query again.
\<close>

theorem search_survives_reload:
  assumes "settled (sourceFilter s)" "settled (targetFilter s)" "settled (messageFilter s)"
    "storable (params s)" "version (params s) = Some service_version"
    "fits (stringify (params_to_json (params (recomputeDownloadUrl M s))))"
  shows "let (s', st', effs) = execute fits rs M async s st in
    \<exists>p. getSearchParams M t1 t2 st' = Inr p \<and>
      (let q = set_boxes (init_scope p) in
        sourceFilter q = sourceFilter s \<and> targetFilter q = targetFilter s \<and> messageFilter q = messageFilter s \<and>
        params (recomputeDownloadUrl M q) = p \<and> downloadUrl (recomputeDownloadUrl M q) = downloadUrl s')"
proof -
  define p where "p = params (recomputeDownloadUrl M s)"
  define q where "q = set_boxes (init_scope p)"
  have "sourceTxt p = box_text (sourceFilter s)" "targetTxt p = box_text (targetFilter s)" "messageTxt p = box_text (messageFilter s)"
    using parts_recompute [of M s]
    by (simp_all add: p_def source_part_def source_of_box_def target_part_def target_of_box_def message_part_def message_of_box_def)
  from fill_settled [OF assms(1-3) this]
  have q: "sourceFilter q = sourceFilter s" "targetFilter q = targetFilter s" "messageFilter q = messageFilter s" "params q = p"
    by (simp_all add: q_def set_boxes_init) (simp add: init_scope_def)
  have r: "params (recomputeDownloadUrl M q) = p" using recompute_again [OF q(4) [unfolded p_def] q(1-3)] q(4) by simp
  have u: "downloadUrl (recomputeDownloadUrl M q) = downloadUrl (fst (execute fits rs M async s st))"
    unfolding execute_scope by (simp add: r) (simp add: p_def)
  have g: "getSearchParams M t1 t2 (fst (snd (execute fits rs M async s st))) = Inr p"
    using execute_saves [where fits = fits, OF assms(4-6)] by (simp add: p_def)
  show ?thesis
    unfolding Let_def case_prod_beta by (rule exI [of _ p]) (simp only: q_def [symmetric] q r u g simp_thms)
qed

subsection \<open>A text that the parser refuses\<close>

lemma fill_fails: "extractAllFacets (sourceTxt (params s)) = Inl e \<Longrightarrow> fill_boxes s = (Some e, s)"
  by (simp add: fill_boxes_def setQuery_def)

lemma empty_parts:
  "source_of_box empty_box = ([], [], [[], [], []])" "target_of_box empty_box = ([], replicate 6 [])"
  "message_of_box empty_box = ([], replicate 7 [])"
  by (simp_all add: source_of_box_def target_of_box_def message_of_box_def box_facets_def box_text_def fields_text_def
      empty_box_def target_facets_def message_facets_def numeral_eq_Suc)

lemma recompute_empty:
  "sourceFilter q = empty_box \<Longrightarrow> targetFilter q = empty_box \<Longrightarrow> messageFilter q = empty_box \<Longrightarrow>
    params (recomputeDownloadUrl M q) = other_part (params q)"
  by (rule params_eqI) (simp_all add: parts_recompute empty_parts,
    simp_all add: other_part_def no_source_def no_target_def no_message_def source_part_def target_part_def message_part_def
      target_facets_def message_facets_def numeral_eq_Suc)

text \<open>
  C26. A text in the box of the sources that its parser refuses costs the other filters: a query
  saves it, and the next page fails when it fills the first box, leaves all three empty, and
  its next query has no filter of a box at all, whatever the boxes had before.
\<close>

theorem refused_text_drops_filters:
  assumes "extractAllFacets (box_text (sourceFilter s)) = Inl e"
    "storable (params s)" "version (params s) = Some service_version"
    "fits (stringify (params_to_json (params (recomputeDownloadUrl M s))))"
  shows "let (s', st', effs) = execute fits rs M async s st in
    \<exists>p. getSearchParams M t1 t2 st' = Inr p \<and> target_part p = target_of_box (targetFilter s) \<and>
      fst (fill_boxes (init_scope p)) = Some e \<and>
      (let q = set_boxes (init_scope p) in
        sourceFilter q = empty_box \<and> targetFilter q = empty_box \<and> messageFilter q = empty_box \<and>
        params (recomputeDownloadUrl M q) = other_part p \<and> simple_filter (params (recomputeDownloadUrl M q)) = [])"
proof -
  define p where "p = params (recomputeDownloadUrl M s)"
  define q where "q = set_boxes (init_scope p)"
  have "sourceTxt p = box_text (sourceFilter s)" using parts_recompute(1) [of M s] by (simp add: p_def source_part_def source_of_box_def)
  then have f: "fill_boxes (init_scope p) = (Some e, init_scope p)" using assms(1) by (intro fill_fails) (simp add: init_scope_def)
  then have q: "sourceFilter q = empty_box" "targetFilter q = empty_box" "messageFilter q = empty_box" "params q = p"
    by (simp_all add: q_def set_boxes_init) (simp_all add: init_scope_def)
  have r: "params (recomputeDownloadUrl M q) = other_part p" using recompute_empty [OF q(1-3)] q(4) by simp
  have "simple_filter (other_part p) = []"
    by (simp add: simple_filter_def other_part_def no_source_def no_target_def no_message_def)
  moreover have "getSearchParams M t1 t2 (fst (snd (execute fits rs M async s st))) = Inr p"
    using execute_saves [where fits = fits, OF assms(2-4)] by (simp add: p_def)
  moreover have "target_part p = target_of_box (targetFilter s)" by (simp add: p_def parts_recompute)
  ultimately show ?thesis
    unfolding Let_def case_prod_beta by (intro exI [of _ p]) (simp only: q_def [symmetric] q r f fst_conv simp_thms)
qed

subsection \<open>Two visits\<close>

definition danish_targets :: search_box where
  "danish_targets =
     \<lparr>query_facets = [\<lparr>category = ''country'', facet_text = ''DNK''\<rparr>, \<lparr>category = ''name'', facet_text = ''A B''\<rparr>],
      input_values = [[], [], []]\<rparr>"

lemma settled_examples: "settled empty_box" "settled danish_targets"
  by (simp_all add: settled_def empty_box_def danish_targets_def tidy_def plain_category_def quotable_def remainder_def
      is_ws_def is_quote_def trim_def trim_start_def)

lemma sample_storable: "storable (params sample_scope)" "version (params sample_scope) = Some service_version"
  using clearParams_storable by (simp_all add: sample_scope_def init_scope_def clearParams_def)

lemma search_survives_reload_witness:
  "\<exists>p. getSearchParams sample_moment (Fin 0) (Fin 0)
      (fst (snd (execute (\<lambda>_. True) [] sample_moment True (sample_scope\<lparr>targetFilter := danish_targets\<rparr>) empty_storage))) = Inr p \<and>
    targetFilter (set_boxes (init_scope p)) = danish_targets"
proof -
  let ?s = "sample_scope\<lparr>targetFilter := danish_targets\<rparr>"
  have b: "settled (sourceFilter ?s)" "settled (targetFilter ?s)" "settled (messageFilter ?s)"
    by (simp_all add: settled_examples) (simp_all add: sample_scope_def init_scope_def settled_examples)
  have p: "storable (params ?s)" "version (params ?s) = Some service_version" using sample_storable by simp_all
  show ?thesis
    using search_survives_reload [where fits = "\<lambda>_. True" and M = sample_moment and rs = "[]" and async = True and st = empty_storage, OF b p TrueI]
    unfolding Let_def case_prod_beta by auto
qed

lemma search_reaches_query_witness:
  "\<exists>s'. target_searched sample_moment (sample_scope\<lparr>targetFilter := danish_targets\<lparr>input_values := [[], [], ''north'']\<rparr>\<rparr>) = Inr s' \<and>
    targetCountries (params s') = [''DNK''] \<and> length (query_facets (targetFilter s')) = 3"
proof -
  let ?b = "danish_targets\<lparr>input_values := [[], [], ''north'']\<rparr>"
  let ?s = "sample_scope\<lparr>targetFilter := ?b\<rparr>"
  have "searchable ?b"
    by (simp add: searchable_def danish_targets_def tidy_def plain_category_def quotable_def free_text_def remainder_def
        is_ws_def is_quote_def trim_def trim_start_def)
  then obtain s' where s': "target_searched sample_moment ?s = Inr s'" "query_facets (targetFilter s') = query_facets ?b @ text_facets ''north''"
      "target_part (params s') = target_of_box (targetFilter s')"
    using search_reaches_query [of ?s sample_moment] by auto
  then have f: "box_facets (targetFilter s') = [[(''country'', ''DNK'')], [(''name'', ''A B'')], [(remainder, ''north'')]]"
    by (simp add: box_facets_def danish_targets_def text_facets_def)
  have "targetCountries (params s') = collected target_facets (box_facets (targetFilter s')) ''country''"
    using s'(3) by (simp add: target_part_def target_of_box_def target_facets_def)
  also have "\<dots> = [''DNK'']" unfolding f by code_simp
  finally show ?thesis using s'(1,2) by (simp add: danish_targets_def text_facets_def)
qed

lemma refused_text_drops_filters_witness:
  "\<exists>p. targetCountries p = [''DNK''] \<and> targetFilter (set_boxes (init_scope p)) = empty_box"
proof -
  let ?t = "'': '' @ [CHR 0x22] @ ''a'' @ [CHR 0x22] @ ''b''"
  let ?s = "sample_scope\<lparr>sourceFilter := \<lparr>query_facets = [], input_values = [?t]\<rparr>, targetFilter := danish_targets\<rparr>"
  have e: "extractAllFacets (box_text (sourceFilter ?s)) = Inl TypeError" by (simp add: box_text_def fields_text_def) code_simp
  have p: "storable (params ?s)" "version (params ?s) = Some service_version" using sample_storable by simp_all
  have "target_of_box danish_targets = (box_text danish_targets, [[''DNK''], [], [], [], [''A B''], []])" by code_simp
  then show ?thesis
    using refused_text_drops_filters [where fits = "\<lambda>_. True" and M = sample_moment and rs = "[]" and async = True and st = empty_storage, OF e p TrueI]
    unfolding Let_def case_prod_beta by (auto simp: target_part_def target_facets_def)
qed

end
