(* ===== verification/SearchFocus.thy ===== *)
theory SearchFocus
  imports SearchBox
begin

text \<open>
  \<open>visualsearch.js\<close>, the keyboard: the keys that the box knows (\<open>VS.app.hotkeys\<close>), what the
  facets and the fields do with them, and which of them is edited next (\<open>focusNextFacet\<close>).
\<close>

subsection \<open>Keys\<close>

definition KEYS :: "nat \<Rightarrow> string option" where
  "KEYS = map_of [(16, ''shift''), (17, ''command''), (91, ''command''), (93, ''command''), (224, ''command''), (13, ''enter''),
     (37, ''left''), (38, ''upArrow''), (39, ''right''), (40, ''downArrow''), (46, ''delete''), (8, ''backspace''),
     (35, ''end''), (36, ''home''), (9, ''tab''), (188, ''comma'')]"

definition printable :: "bool \<Rightarrow> nat \<Rightarrow> bool" where
  "printable is_keydown code \<longleftrightarrow>
     (if is_keydown
      then code = 32 \<or> (48 \<le> code \<and> code \<le> 90) \<or> (96 \<le> code \<and> code \<le> 111) \<or> (186 \<le> code \<and> code \<le> 192) \<or> (219 \<le> code \<and> code \<le> 222)
      else (32 \<le> code \<and> code \<le> 126) \<or> (160 \<le> code \<and> code \<le> 500) \<or> code = 58)"

text \<open>The names of the keys that are held down.\<close>

definition key_down :: "nat \<Rightarrow> string set \<Rightarrow> string set" where
  "key_down which held = (case KEYS which of None \<Rightarrow> held | Some k \<Rightarrow> insert k held)"

definition key_up :: "nat \<Rightarrow> string set \<Rightarrow> string set" where
  "key_up which held = (case KEYS which of None \<Rightarrow> held | Some k \<Rightarrow> held - {k})"

subsection \<open>The next view\<close>

text \<open>The facets and the fields by their numbers; a box with \<open>n\<close> facets has the fields \<open>0\<close> to \<open>n\<close>.\<close>

datatype view = FacetView nat | InputView nat

record focus_options =
  skipToFacet :: bool
  opt_selectFacet :: bool
  opt_selectText :: bool

text \<open>
  The view that is edited next, or selected when the mark is true, and the value returned. A
  view that is not there throws when it is used.
\<close>

definition focusNextFacet :: "nat \<Rightarrow> view \<Rightarrow> int \<Rightarrow> focus_options \<Rightarrow> type_error + (view \<times> bool) option \<times> bool" where
  "focusNextFacet viewCount currentView direction options =
     (let n = int viewCount;
          (is_text, viewPosition) = (case currentView of InputView i \<Rightarrow> (True, int i) | FacetView i \<Rightarrow> (False, int i));
          step = (if skipToFacet options then direction
                  else if is_text \<and> direction > 0 then direction - 1
                  else if \<not> is_text \<and> direction < 0 then direction + 1 else direction)
      in if skipToFacet options \<and> is_text \<and> n = viewPosition \<and> direction \<ge> 0 then Inr (None, False)
         else (let next = min n (viewPosition + step);
                   view = (if is_text then
                             (if 0 \<le> next \<and> next < n then Some (FacetView (nat next))
                              else if next = n then Some (InputView viewCount) else None)
                           else if skipToFacet options then
                             (if next \<ge> n \<or> next < 0 then Some (InputView viewCount) else Some (FacetView (nat next)))
                           else if 0 \<le> next then Some (InputView (nat next)) else None)
               in case view of
                    None \<Rightarrow> if \<not> is_text \<or> opt_selectText options then Inl TypeError else Inr (None, True)
                  | Some v \<Rightarrow> Inr (Some (v, is_text \<and> opt_selectFacet options \<and> (case v of FacetView _ \<Rightarrow> True | _ \<Rightarrow> False)), True)))"

subsection \<open>The keys of a view\<close>

datatype key_action =
    FocusNext int focus_options
  | SelectAllFacets
  | CursorAtEnd nat
  | TabCategory
  | SelectFacet
  | DeselectFacet
  | EnableEdit
  | DisableEdit
  | RemoveFacet
  | Search int

definition plain_options :: focus_options where
  "plain_options = \<lparr>skipToFacet = False, opt_selectFacet = False, opt_selectText = False\<rparr>"

text \<open>The element that has the focus: its text, the cursor, the length of the selection, and whether the view is selected.\<close>

record edit_state =
  edit_text :: string
  cursor :: nat
  selection_length :: nat
  is_selected :: bool

definition input_keydown :: "nat \<Rightarrow> string set \<Rightarrow> bool \<Rightarrow> nat \<Rightarrow> edit_state \<Rightarrow> key_action list" where
  "input_keydown viewCount held allSelected which e =
     (let key = KEYS which
      in if key = Some ''left'' then (if cursor e = 0 then [FocusNext (- 1) plain_options] else [])
         else if key = Some ''right'' then
           (if cursor e = length (edit_text e) then [FocusNext 1 (plain_options\<lparr>opt_selectFacet := True\<rparr>)] else [])
         else if ''shift'' \<in> held \<and> key = Some ''tab'' then [FocusNext (- 1) (plain_options\<lparr>opt_selectText := True\<rparr>)]
         else if key = Some ''tab'' then
           (if edit_text e \<noteq> [] then [TabCategory]
            else [FocusNext 0 (plain_options\<lparr>skipToFacet := True, opt_selectText := True\<rparr>)])
         else if ''command'' \<in> held \<and> (which = 65 \<or> which = 97) then [SelectAllFacets]
         else if key = Some ''backspace'' \<and> \<not> allSelected then
           (if cursor e = 0 \<and> selection_length e = 0 then [FocusNext (- 1) plain_options] else [])
         else if key = Some ''end'' then [CursorAtEnd viewCount]
         else if key = Some ''home'' then [CursorAtEnd 0]
         else [])"

definition facet_keydown :: "string set \<Rightarrow> bool \<Rightarrow> nat \<Rightarrow> edit_state \<Rightarrow> key_action list" where
  "facet_keydown held is_keydown which e =
     (let key = KEYS which
      in if key = Some ''enter'' \<and> edit_text e \<noteq> [] then [DisableEdit, Search 1]
         else if key = Some ''left'' then
           (if is_selected e then [DeselectFacet, FocusNext (- 1) plain_options]
            else if cursor e = 0 \<and> selection_length e = 0 then [SelectFacet] else [])
         else if key = Some ''right'' then
           (if is_selected e then [DeselectFacet, EnableEdit]
            else if cursor e = length (edit_text e) then [DisableEdit, FocusNext 1 plain_options] else [])
         else if ''shift'' \<in> held \<and> key = Some ''tab'' then [FocusNext (- 1) (plain_options\<lparr>skipToFacet := True, opt_selectText := True\<rparr>)]
         else if key = Some ''tab'' then [FocusNext 1 (plain_options\<lparr>skipToFacet := True, opt_selectText := True\<rparr>)]
         else if ''command'' \<in> held \<and> (which = 97 \<or> which = 65) then [SelectAllFacets]
         else if printable is_keydown which \<and> is_selected e then [FocusNext (- 1) plain_options, RemoveFacet]
         else if key = Some ''backspace'' then
           (if is_selected e then [RemoveFacet]
            else if cursor e = 0 \<and> selection_length e = 0 then [SelectFacet] else [])
         else [])"

definition view_keydown :: "nat \<Rightarrow> string set \<Rightarrow> bool \<Rightarrow> nat \<Rightarrow> view \<Rightarrow> edit_state \<Rightarrow> key_action list" where
  "view_keydown viewCount held allSelected which v e =
     (case v of InputView _ \<Rightarrow> input_keydown viewCount held allSelected which e | FacetView _ \<Rightarrow> facet_keydown held True which e)"

text \<open>A view of a box with so many facets.\<close>

fun view_in :: "nat \<Rightarrow> view \<Rightarrow> bool" where
  "view_in n (FacetView i) \<longleftrightarrow> i < n"
| "view_in n (InputView i) \<longleftrightarrow> i \<le> n"

text \<open>What the keys of a view ask \<open>focusNextFacet\<close> for.\<close>

definition next_views :: "nat \<Rightarrow> string set \<Rightarrow> bool \<Rightarrow> nat \<Rightarrow> view \<Rightarrow> edit_state \<Rightarrow> (type_error + (view \<times> bool) option \<times> bool) list" where
  "next_views n held allSelected which v e =
     concat (map (\<lambda>a. case a of FocusNext d opts \<Rightarrow> [focusNextFacet n v d opts] | _ \<Rightarrow> [])
       (view_keydown n held allSelected which v e))"

subsection \<open>Theorems\<close>

lemma focus_input:
  "i \<le> n \<Longrightarrow> focusNextFacet n (InputView i) (- 1) plain_options = Inr (if i = 0 then None else Some (FacetView (i - 1), False), True)"
  "i \<le> n \<Longrightarrow> focusNextFacet n (InputView i) 1 (plain_options\<lparr>opt_selectFacet := True\<rparr>) =
     Inr (Some (if i = n then (InputView n, False) else (FacetView i, True)), True)"
  "i \<le> n \<Longrightarrow> focusNextFacet n (InputView i) (- 1) (plain_options\<lparr>opt_selectText := True\<rparr>) =
     (if i = 0 then Inl TypeError else Inr (Some (FacetView (i - 1), False), True))"
  "i \<le> n \<Longrightarrow> focusNextFacet n (InputView i) 0 (plain_options\<lparr>skipToFacet := True, opt_selectText := True\<rparr>) =
     (if i = n then Inr (None, False) else Inr (Some (FacetView i, False), True))"
  by (auto simp: focusNextFacet_def plain_options_def Let_def nat_diff_distrib min_def)

lemma focus_facet:
  "i < n \<Longrightarrow> focusNextFacet n (FacetView i) (- 1) plain_options = Inr (Some (InputView i, False), True)"
  "i < n \<Longrightarrow> focusNextFacet n (FacetView i) 1 plain_options = Inr (Some (InputView (Suc i), False), True)"
  "i < n \<Longrightarrow> focusNextFacet n (FacetView i) (- 1) (plain_options\<lparr>skipToFacet := True, opt_selectText := True\<rparr>) =
     Inr (Some (if i = 0 then InputView n else FacetView (i - 1), False), True)"
  "i < n \<Longrightarrow> focusNextFacet n (FacetView i) 1 (plain_options\<lparr>skipToFacet := True, opt_selectText := True\<rparr>) =
     Inr (Some (if Suc i = n then InputView n else FacetView (Suc i), False), True)"
  by (auto simp: focusNextFacet_def plain_options_def Let_def nat_diff_distrib nat_add_distrib min_def)

lemmas focus_simps = focus_input focus_facet

text \<open>Which keys are which.\<close>

lemma KEYS_simps [simp]:
  "KEYS which = Some ''left'' \<longleftrightarrow> which = 37" "KEYS which = Some ''right'' \<longleftrightarrow> which = 39" "KEYS which = Some ''tab'' \<longleftrightarrow> which = 9"
  "KEYS which = Some ''backspace'' \<longleftrightarrow> which = 8" "KEYS which = Some ''enter'' \<longleftrightarrow> which = 13"
  by (auto simp: KEYS_def split: if_splits)

text \<open>What the handlers ask for, and at which keys.\<close>

lemma input_asks:
  "FocusNext d opts \<in> set (input_keydown n held allSelected which e) \<Longrightarrow>
     d = - 1 \<and> opts = plain_options \<and> which \<noteq> 39 \<and> (which = 9 \<longrightarrow> ''shift'' \<notin> held) \<or>
     d = 1 \<and> opts = plain_options\<lparr>opt_selectFacet := True\<rparr> \<and> which = 39 \<or>
     d = - 1 \<and> opts = plain_options\<lparr>opt_selectText := True\<rparr> \<and> which = 9 \<and> ''shift'' \<in> held \<or>
     d = 0 \<and> opts = plain_options\<lparr>skipToFacet := True, opt_selectText := True\<rparr> \<and> which = 9 \<and> ''shift'' \<notin> held"
  unfolding input_keydown_def Let_def KEYS_simps by (simp split: if_split_asm)

lemma facet_asks:
  "FocusNext d opts \<in> set (facet_keydown held is_keydown which e) \<Longrightarrow>
     d = - 1 \<and> opts = plain_options \<and> which \<noteq> 39 \<or>
     d = 1 \<and> opts = plain_options \<and> which = 39 \<or>
     (d = - 1 \<or> d = 1) \<and> opts = plain_options\<lparr>skipToFacet := True, opt_selectText := True\<rparr> \<and> which = 9"
  unfolding facet_keydown_def Let_def KEYS_simps by (simp split: if_split_asm)

lemma next_views_asks:
  "r \<in> set (next_views n held allSelected which v e) \<Longrightarrow>
     \<exists>d opts. FocusNext d opts \<in> set (view_keydown n held allSelected which v e) \<and> r = focusNextFacet n v d opts"
proof -
  assume "r \<in> set (next_views n held allSelected which v e)"
  then obtain a where "a \<in> set (view_keydown n held allSelected which v e)"
      "r \<in> set (case a of FocusNext d opts \<Rightarrow> [focusNextFacet n v d opts] | _ \<Rightarrow> [])"
    by (auto simp: next_views_def)
  then show ?thesis by (cases a) auto
qed

text \<open>The order of the views on the page.\<close>

fun rank :: "view \<Rightarrow> nat" where
  "rank (InputView i) = 2 * i"
| "rank (FacetView i) = Suc (2 * i)"

lemma next_views_input:
  assumes "i \<le> n" "r \<in> set (next_views n held allSelected which (InputView i) e)"
  shows "(r = Inl TypeError \<longleftrightarrow> i = 0 \<and> ''shift'' \<in> held \<and> which = 9) \<and> (\<forall>w sel b. r = Inr (Some (w, sel), b) \<longrightarrow> view_in n w \<and>
    (which = 39 \<longrightarrow> rank w = min (Suc (2 * i)) (2 * n)) \<and> (which = 37 \<longrightarrow> Suc (rank w) = 2 * i))"
proof -
  obtain d opts where "FocusNext d opts \<in> set (input_keydown n held allSelected which e)" and r: "r = focusNextFacet n (InputView i) d opts"
    using next_views_asks [OF assms(2)] by (auto simp: view_keydown_def)
  from input_asks [OF this(1)] assms(1) show ?thesis unfolding r by (elim disjE conjE) (auto simp: focus_input)
qed

lemma next_views_facet:
  assumes "i < n" "r \<in> set (next_views n held allSelected which (FacetView i) e)"
  shows "r \<noteq> Inl TypeError \<and> (\<forall>w sel b. r = Inr (Some (w, sel), b) \<longrightarrow> view_in n w \<and>
    (which = 39 \<longrightarrow> rank w = Suc (Suc (2 * i))) \<and> (which = 37 \<longrightarrow> rank w = 2 * i))"
proof -
  obtain d opts where "FocusNext d opts \<in> set (facet_keydown held True which e)" and r: "r = focusNextFacet n (FacetView i) d opts"
    using next_views_asks [OF assms(2)] by (auto simp: view_keydown_def)
  from facet_asks [OF this(1)] assms(1) show ?thesis unfolding r by (elim disjE conjE) (auto simp: focus_facet)
qed

text \<open>
  The keys of a box with facets never fail and lead to a view of the box, with one
  exception: shift and the tabulator in the first field, where the view before it is asked to
  select its text although there is none.
\<close>

theorem keys_find_views:
  assumes "view_in n v" "r \<in> set (next_views n held allSelected which v e)"
  shows "(r = Inl TypeError \<longleftrightarrow> v = InputView 0 \<and> ''shift'' \<in> held \<and> KEYS which = Some ''tab'') \<and>
    (\<forall>w sel b. r = Inr (Some (w, sel), b) \<longrightarrow> view_in n w)"
proof (cases v)
  case (FacetView i)
  then show ?thesis using next_views_facet [of i n r held allSelected which e] assms by simp
next
  case (InputView i)
  then show ?thesis using next_views_input [of i n r held allSelected which e] assms by auto
qed

lemma keys_find_views_witness:
  "next_views 2 {''shift''} False 9 (InputView 0) \<lparr>edit_text = [], cursor = 0, selection_length = 0, is_selected = False\<rparr> = [Inl TypeError]"
proof -
  let ?e = "\<lparr>edit_text = [], cursor = 0, selection_length = 0, is_selected = False\<rparr>"
  obtain r where r: "next_views 2 {''shift''} False 9 (InputView 0) ?e = [r]"
    by (simp add: next_views_def view_keydown_def input_keydown_def)
  have "view_in 2 (InputView 0)" "r \<in> set (next_views 2 {''shift''} False 9 (InputView 0) ?e)" by (simp_all add: r)
  from keys_find_views [OF this] r show ?thesis by simp
qed

text \<open>
  The arrow keys walk through the views in the order in which they stand on the page: from a
  view with the cursor at its end the right arrow leads to the view behind it, and the left
  arrow, with the cursor at its beginning, to the one before it. A facet is walked through in
  two steps, as it is selected first.
\<close>

theorem arrows_walk:
  assumes "view_in n v" "r \<in> set (next_views n held allSelected which v e)" "r = Inr (Some (w, sel), b)"
  shows "(which = 39 \<longrightarrow> rank w = min (Suc (rank v)) (2 * n)) \<and> (which = 37 \<longrightarrow> Suc (rank w) = rank v)"
proof (cases v)
  case (FacetView i)
  then show ?thesis using next_views_facet [of i n r held allSelected which e] assms by simp
next
  case (InputView i)
  then show ?thesis using next_views_input [of i n r held allSelected which e] assms by simp
qed

lemma arrows_walk_witness:
  "next_views 1 {} False 39 (InputView 0) \<lparr>edit_text = ''a'', cursor = 1, selection_length = 0, is_selected = False\<rparr> =
     [Inr (Some (FacetView 0, True), True)] \<and> rank (FacetView 0) = min (Suc (rank (InputView 0))) 2"
proof -
  let ?v = "next_views 1 {} False 39 (InputView 0) \<lparr>edit_text = ''a'', cursor = 1, selection_length = 0, is_selected = False\<rparr>"
  have v: "?v = [Inr (Some (FacetView 0, True), True)]"
    by (simp add: next_views_def view_keydown_def input_keydown_def focus_simps)
  then show ?thesis
    using arrows_walk [of 1 "InputView 0" "Inr (Some (FacetView 0, True), True)" "{}" False 39 _ "FacetView 0" True True] by auto
qed

end
