(* ===== verification/SearchModes.thy ===== *)
theory SearchModes
  imports SearchFocus
begin

text \<open>
  \<open>visualsearch.js\<close>, which view of a search box is edited: the modes \<open>editing\<close> and \<open>selected\<close> of
  facets and fields, the focus, the timers that end an editing that has lost the focus, and
  the keys of the document that go to a selected facet. A view is known by a number. When a facet
  commits a changed text, the box makes all its views anew; a view that is no longer on the page
  has lost its handlers and cannot take the focus, but is still used by the code that holds it.
\<close>

subsection \<open>State\<close>

record view_state =
  editing :: bool
  selected :: bool
  canClose :: bool

datatype deferred = DisableEditLater nat | BindKeys nat | AddFocusLater

text \<open>
  The facet views and the fields that are on the page in their order, the state of all views, the
  text in the field of a facet, the facet of the query that it stands for, the values of
  the facets, the view with the focus, the flag \<open>allSelected\<close>, the class \<open>VS-focus\<close> of the box, and
  the facet that the keys and the clicks of the document go to.
\<close>

record box_views =
  facetViews :: "nat list"
  inputViews :: "nat list"
  is_field :: "nat \<Rightarrow> bool"
  view_of :: "nat \<Rightarrow> view_state"
  box_val :: "nat \<Rightarrow> string"
  model_of :: "nat \<Rightarrow> nat"
  facet_values :: "string list"
  focused :: "nat option"
  allSelected :: bool
  has_focus_class :: bool
  key_facet :: "nat option"
  click_facet :: "nat option"
  deferreds :: "deferred list"
  next_view :: nat

definition fresh_view :: view_state where
  "fresh_view = \<lparr>editing = False, selected = False, canClose = False\<rparr>"

definition update_view :: "nat \<Rightarrow> (view_state \<Rightarrow> view_state) \<Rightarrow> box_views \<Rightarrow> box_views" where
  "update_view v f s = s\<lparr>view_of := (view_of s)(v := f (view_of s v))\<rparr>"

definition on_page :: "nat \<Rightarrow> box_views \<Rightarrow> bool" where
  "on_page v s \<longleftrightarrow> v \<in> set (facetViews s) \<or> v \<in> set (inputViews s)"

definition active :: "box_views \<Rightarrow> nat \<Rightarrow> bool" where
  "active s v \<longleftrightarrow> editing (view_of s v) \<or> selected (view_of s v)"

text \<open>\<open>renderFacets\<close>: new views; what had the focus is gone.\<close>

definition render_views :: "box_views \<Rightarrow> box_views" where
  "render_views s =
     (let n = next_view s; k = length (facet_values s)
      in s\<lparr>facetViews := [n..<n + k], inputViews := [n + k..<n + k + Suc k],
           is_field := (\<lambda>v. if n \<le> v then n + k \<le> v else is_field s v),
           view_of := (\<lambda>v. if n \<le> v then fresh_view else view_of s v),
           box_val := (\<lambda>v. if n \<le> v \<and> v < n + k then facet_values s ! (v - n) else box_val s v),
           model_of := (\<lambda>v. if n \<le> v then v - n else model_of s v),
           focused := None, next_view := n + k + Suc k\<rparr>)"

subsection \<open>Focus\<close>

definition deferDisableEdit :: "nat \<Rightarrow> box_views \<Rightarrow> box_views" where
  "deferDisableEdit v s =
     (update_view v (\<lambda>w. w\<lparr>canClose := True\<rparr>) s)\<lparr>deferreds := deferreds s @ [DisableEditLater v]\<rparr>"

text \<open>The browser gives the focus to a view; the one that had it hears of it.\<close>

definition take_focus :: "nat \<Rightarrow> box_views \<Rightarrow> box_views" where
  "take_focus v s =
     (if \<not> on_page v s \<or> focused s = Some v then s
      else (case focused s of None \<Rightarrow> s | Some u \<Rightarrow> deferDisableEdit u s)\<lparr>focused := Some v\<rparr>)"

text \<open>\<open>box.blur()\<close>: the handlers run whether or not the view has the focus.\<close>

definition blur_box :: "nat \<Rightarrow> box_views \<Rightarrow> box_views" where
  "blur_box v s =
     (if on_page v s then (deferDisableEdit v s)\<lparr>focused := (if focused s = Some v then None else focused s)\<rparr> else s)"

definition box_addFocus :: "box_views \<Rightarrow> box_views" where
  "box_addFocus s = s\<lparr>has_focus_class := True\<rparr>"

definition box_removeFocus :: "box_views \<Rightarrow> box_views" where
  "box_removeFocus s =
     (if \<exists>v\<in>set (facetViews s @ inputViews s). focused s = Some v then s else s\<lparr>has_focus_class := False\<rparr>)"

subsection \<open>Leaving a view\<close>

text \<open>The facet commits its text if it is a new one and not empty.\<close>

definition commits :: "nat \<Rightarrow> box_views \<Rightarrow> bool" where
  "commits v s \<longleftrightarrow> trim (box_val s v) \<noteq> facet_values s ! model_of s v \<and> trim (box_val s v) \<noteq> []"

definition commit_text :: "nat \<Rightarrow> box_views \<Rightarrow> box_views" where
  "commit_text v s =
     (if commits v s then render_views (s\<lparr>facet_values := (facet_values s)[model_of s v := trim (box_val s v)]\<rparr>) else s)"

definition facet_disableEdit :: "nat \<Rightarrow> box_views \<Rightarrow> box_views" where
  "facet_disableEdit v s =
     (let s = commit_text v s;
          s = update_view v (\<lambda>w. w\<lparr>canClose := False\<rparr>) s;
          s = blur_box v (take_focus v s);
          s = update_view v (\<lambda>w. w\<lparr>editing := False\<rparr>) s
      in box_removeFocus s)"

definition unbind_facet :: "nat \<Rightarrow> box_views \<Rightarrow> box_views" where
  "unbind_facet v s =
     s\<lparr>key_facet := (if key_facet s = Some v then None else key_facet s),
       click_facet := (if click_facet s = Some v then None else click_facet s)\<rparr>"

definition deselectFacet :: "nat \<Rightarrow> box_views \<Rightarrow> box_views" where
  "deselectFacet v s =
     unbind_facet v (if selected (view_of s v) then box_removeFocus (update_view v (\<lambda>w. w\<lparr>selected := False\<rparr>) s) else s)"

definition input_removeFocus :: "nat \<Rightarrow> box_views \<Rightarrow> box_views" where
  "input_removeFocus v s =
     update_view v (\<lambda>w. w\<lparr>editing := False, selected := False\<rparr>)
       (box_removeFocus (update_view v (\<lambda>w. w\<lparr>canClose := False\<rparr>) s))"

definition input_disableEdit :: "nat \<Rightarrow> box_views \<Rightarrow> box_views" where
  "input_disableEdit v s = input_removeFocus v (blur_box v s)"

definition leave_input :: "nat option \<Rightarrow> box_views \<Rightarrow> nat \<Rightarrow> box_views" where
  "leave_input keepView s v = (if Some v \<noteq> keepView \<and> active s v then input_disableEdit v s else s)"

definition leave_facet :: "nat option \<Rightarrow> box_views \<Rightarrow> nat \<Rightarrow> box_views" where
  "leave_facet keepView s v =
     (if Some v \<noteq> keepView \<and> active s v then deselectFacet v (facet_disableEdit v s) else s)"

definition disableFacets :: "nat option \<Rightarrow> box_views \<Rightarrow> box_views" where
  "disableFacets keepView s =
     (let s = foldl (leave_input keepView) s (inputViews s);
          s = foldl (leave_facet keepView) s (facetViews s)
      in box_removeFocus (s\<lparr>allSelected := False\<rparr>))"

subsection \<open>Entering a view\<close>

definition input_addFocus :: "nat \<Rightarrow> box_views \<Rightarrow> box_views" where
  "input_addFocus v s =
     (let s = update_view v (\<lambda>w. w\<lparr>canClose := False\<rparr>) s;
          s = (if \<not> allSelected s then disableFacets (Some v) s else s)
      in update_view v (\<lambda>w. w\<lparr>editing := True, selected := False\<rparr>) (box_addFocus s))"

text \<open>
  \<open>box.focus()\<close> of a field runs its handler also when it has the focus, a selection of its
  text only when it takes the focus.
\<close>

definition input_focus :: "nat \<Rightarrow> box_views \<Rightarrow> box_views" where
  "input_focus v s = (if on_page v s then input_addFocus v (take_focus v s) else s)"

definition input_select_range :: "nat \<Rightarrow> box_views \<Rightarrow> box_views" where
  "input_select_range v s = (if on_page v s \<and> focused s \<noteq> Some v then input_addFocus v (take_focus v s) else s)"

definition input_selectText :: "nat \<Rightarrow> box_views \<Rightarrow> box_views" where
  "input_selectText v s =
     (let s = input_select_range v s
      in if \<not> allSelected s then input_focus v s else update_view v (\<lambda>w. w\<lparr>selected := True\<rparr>) s)"

definition input_enableEdit :: "nat \<Rightarrow> bool \<Rightarrow> box_views \<Rightarrow> box_views" where
  "input_enableEdit v selectText s =
     (let s = input_addFocus v s;
          s = (if selectText then input_selectText v s else s)
      in input_focus v s)"

definition facet_enableEdit :: "nat \<Rightarrow> box_views \<Rightarrow> box_views" where
  "facet_enableEdit v s =
     (let s = (if \<not> editing (view_of s v)
               then (let s = deselectFacet v (update_view v (\<lambda>w. w\<lparr>editing := True\<rparr>) s)
                     in if box_val s v = [] then s\<lparr>box_val := (box_val s)(v := facet_values s ! model_of s v)\<rparr> else s)
               else s);
          s = update_view v (\<lambda>w. w\<lparr>canClose := False\<rparr>) s;
          s = box_addFocus (disableFacets (Some v) s);
          s = s\<lparr>deferreds := deferreds s @ [AddFocusLater]\<rparr>
      in take_focus v s)"

definition selectFacet :: "nat \<Rightarrow> bool \<Rightarrow> box_views \<Rightarrow> box_views" where
  "selectFacet v by_event s =
     (let all = allSelected s
      in if selected (view_of s v) then s
         else (let s = (if focused s = Some v then blur_box v s else s);
                   s = update_view v (\<lambda>w. w\<lparr>canClose := False, selected := True, editing := False\<rparr>) s
               in if \<not> all \<or> by_event
                  then (let s = unbind_facet v s;
                            s = s\<lparr>deferreds := deferreds s @ [BindKeys v]\<rparr>
                        in box_addFocus (disableFacets (Some v) s))
                  else s))"

definition selectAllFacets :: "box_views \<Rightarrow> box_views" where
  "selectAllFacets s =
     (let s = s\<lparr>allSelected := True\<rparr>;
          s = foldl (\<lambda>s v. selectFacet v False s) s (facetViews s)
      in foldl (\<lambda>s v. input_selectText v s) s (inputViews s))"

subsection \<open>What was put off\<close>

definition run_deferred :: "deferred \<Rightarrow> box_views \<Rightarrow> box_views" where
  "run_deferred d s =
     (case d of
        AddFocusLater \<Rightarrow> box_addFocus s
      | BindKeys v \<Rightarrow> s\<lparr>key_facet := Some v, click_facet := Some v\<rparr>
      | DisableEditLater v \<Rightarrow>
          (if canClose (view_of s v) \<and> focused s \<noteq> Some v \<and> editing (view_of s v)
           then (if is_field s v then input_disableEdit v s
                 else if selected (view_of s v) then s else facet_disableEdit v s)
           else s))"

text \<open>Everything that can happen to the views: clicks, keys, typing, the focus going elsewhere, timers.\<close>

inductive view_step :: "box_views \<Rightarrow> box_views \<Rightarrow> bool" where
  click_value: "v \<in> set (facetViews s) \<Longrightarrow> view_step s (facet_enableEdit v s)"
| click_category: "v \<in> set (facetViews s) \<Longrightarrow> view_step s (selectFacet v True s)"
| edit_field: "v \<in> set (inputViews s) \<Longrightarrow> view_step s (input_enableEdit v t s)"
| click_field: "v \<in> set (inputViews s) \<Longrightarrow> view_step s (input_select_range v s)"
| focus_facet: "v \<in> set (facetViews s) \<Longrightarrow> view_step s (take_focus v s)"
| focus_leaves: "focused s = Some v \<Longrightarrow> view_step s (blur_box v s)"
| type_value: "v \<in> set (facetViews s) \<Longrightarrow> view_step s (s\<lparr>box_val := (box_val s)(v := txt)\<rparr>)"
| finish_facet: "v \<in> set (facetViews s) \<Longrightarrow> view_step s (facet_disableEdit v s)"
| deselect: "view_step s (deselectFacet v s)"
| select_all: "view_step s (selectAllFacets s)"
| deselect_all: "view_step s (disableFacets None s)"
| render: "view_step s (render_views s)"
| later: "d \<in> set (deferreds s) \<Longrightarrow> view_step s (run_deferred d (s\<lparr>deferreds := remove1 d (deferreds s)\<rparr>))"

inductive_cases view_stepE: "view_step s s'"

text \<open>A box with these values that was just shown.\<close>

definition shown_box :: "string list \<Rightarrow> box_views" where
  "shown_box vs = render_views \<lparr>facetViews = [], inputViews = [], is_field = \<lambda>_. False, view_of = \<lambda>_. fresh_view, box_val = \<lambda>_. [],
     model_of = \<lambda>_. 0, facet_values = vs, focused = None, allSelected = False, has_focus_class = False, key_facet = None,
     click_facet = None, deferreds = [], next_view = 0\<rparr>"

subsection \<open>Views that are edited or selected\<close>

definition actives :: "box_views \<Rightarrow> nat set" where
  "actives s = {v. on_page v s \<and> active s v}"

lemma update_simps [simp]:
  "facetViews (update_view v f s) = facetViews s" "inputViews (update_view v f s) = inputViews s"
  "allSelected (update_view v f s) = allSelected s" "focused (update_view v f s) = focused s"
  "view_of (update_view v f s) = (view_of s)(v := f (view_of s v))" "facet_values (update_view v f s) = facet_values s"
  "box_val (update_view v f s) = box_val s" "model_of (update_view v f s) = model_of s" "next_view (update_view v f s) = next_view s"
  "has_focus_class (update_view v f s) = has_focus_class s" "deferreds (update_view v f s) = deferreds s" "is_field (update_view v f s) = is_field s"
  by (simp_all add: update_view_def)

lemma render_none: "actives (render_views s) = {}"
  by (auto simp: actives_def on_page_def active_def render_views_def Let_def fresh_view_def)

lemma actives_same:
  assumes "facetViews s' = facetViews s" "inputViews s' = inputViews s" "\<And>v. active s' v = active s v"
  shows "actives s' = actives s"
  using assms by (auto simp: actives_def on_page_def)

lemma defer_same: "actives (deferDisableEdit v s) = actives s" "allSelected (deferDisableEdit v s) = allSelected s"
  by (rule actives_same) (simp_all add: deferDisableEdit_def active_def)

lemma focus_same:
  "actives (take_focus v s) = actives s" "actives (blur_box v s) = actives s"
  "actives (box_addFocus s) = actives s" "actives (box_removeFocus s) = actives s" "actives (unbind_facet v s) = actives s"
  "allSelected (take_focus v s) = allSelected s" "allSelected (blur_box v s) = allSelected s"
  "allSelected (box_addFocus s) = allSelected s" "allSelected (box_removeFocus s) = allSelected s" "allSelected (unbind_facet v s) = allSelected s"
  by (rule actives_same; simp add: take_focus_def blur_box_def deferDisableEdit_def box_addFocus_def box_removeFocus_def unbind_facet_def active_def split: option.split)+
    (simp_all add: take_focus_def blur_box_def deferDisableEdit_def box_addFocus_def box_removeFocus_def unbind_facet_def split: option.split)

lemma update_actives:
  "(\<And>w. editing (f w) \<or> selected (f w) \<Longrightarrow> editing w \<or> selected w) \<Longrightarrow> actives (update_view v f s) \<subseteq> actives s"
  "actives (update_view v f s) \<subseteq> insert v (actives s)"
  "\<not> editing (f (view_of s v)) \<and> \<not> selected (f (view_of s v)) \<Longrightarrow> actives (update_view v f s) = actives s - {v}"
  by (auto simp: actives_def on_page_def active_def)

lemma render_all: "allSelected (render_views s) = allSelected s"
  by (simp add: render_views_def Let_def)

lemma commit_actives: "actives (commit_text v s) \<subseteq> actives s" "allSelected (commit_text v s) = allSelected s"
  by (simp_all add: commit_text_def render_none render_all)

lemma weaken_actives:
  "actives (update_view v (\<lambda>w. w\<lparr>canClose := b\<rparr>) s) = actives s" "actives (update_view v (\<lambda>w. w\<lparr>editing := False\<rparr>) s) \<subseteq> actives s"
  "actives (update_view v (\<lambda>w. w\<lparr>selected := False\<rparr>) s) \<subseteq> actives s"
  by (auto simp: actives_def on_page_def active_def)

lemma facet_left:
  "actives (facet_disableEdit v s) \<subseteq> actives s" "allSelected (facet_disableEdit v s) = allSelected s"
  "\<not> editing (view_of (facet_disableEdit v s) v)"
proof -
  define t where "t = blur_box v (take_focus v (update_view v (\<lambda>w. w\<lparr>canClose := False\<rparr>) (commit_text v s)))"
  have e: "facet_disableEdit v s = box_removeFocus (update_view v (\<lambda>w. w\<lparr>editing := False\<rparr>) t)"
    by (simp add: facet_disableEdit_def t_def Let_def)
  have "actives t = actives (commit_text v s)" by (simp add: t_def focus_same weaken_actives)
  then show "actives (facet_disableEdit v s) \<subseteq> actives s"
    using commit_actives(1) [of v s] weaken_actives(2) [of v t] by (auto simp: e focus_same)
  show "allSelected (facet_disableEdit v s) = allSelected s" by (simp add: e t_def focus_same commit_actives)
  show "\<not> editing (view_of (facet_disableEdit v s) v)" by (simp add: e box_removeFocus_def)
qed

lemma facet_deselected:
  "actives (deselectFacet v s) \<subseteq> actives s" "allSelected (deselectFacet v s) = allSelected s"
  "\<not> selected (view_of (deselectFacet v s) v)" "editing (view_of (deselectFacet v s) v) = editing (view_of s v)"
proof -
  show "actives (deselectFacet v s) \<subseteq> actives s" by (simp add: deselectFacet_def focus_same weaken_actives)
qed (simp_all add: deselectFacet_def focus_same unbind_facet_def box_removeFocus_def)

lemma input_left:
  "actives (input_disableEdit v s) \<subseteq> actives s - {v}" "allSelected (input_disableEdit v s) = allSelected s"
proof -
  show "actives (input_disableEdit v s) \<subseteq> actives s - {v}"
    by (simp add: input_disableEdit_def input_removeFocus_def update_actives(3) focus_same weaken_actives)
qed (simp_all add: input_disableEdit_def input_removeFocus_def focus_same)

lemma left_facet: "actives (leave_facet k s v) \<subseteq> actives s - {u. u = v \<and> Some u \<noteq> k}"
proof -
  let ?t = "deselectFacet v (facet_disableEdit v s)"
  have "actives ?t \<subseteq> actives s" using facet_deselected(1) facet_left(1) by (rule subset_trans)
  moreover have "v \<notin> actives ?t" by (simp add: actives_def active_def facet_deselected facet_left)
  ultimately show ?thesis by (auto simp: leave_facet_def actives_def active_def)
qed

lemma left_input: "actives (leave_input k s v) \<subseteq> actives s - {u. u = v \<and> Some u \<noteq> k}"
  using input_left(1) [of v s] by (auto simp: leave_input_def actives_def)

lemma leave_loop:
  assumes "\<And>s v. actives (f s v) \<subseteq> actives s - {u. u = v \<and> Some u \<noteq> k}"
  shows "actives (foldl f s vs) \<subseteq> actives s - {u. u \<in> set vs \<and> Some u \<noteq> k}"
proof (induction vs arbitrary: s)
  case (Cons v vs)
  have "actives (foldl f (f s v) vs) \<subseteq> actives (f s v) - {u. u \<in> set vs \<and> Some u \<noteq> k}" by (rule Cons.IH)
  with assms [of s v] show ?case by auto
qed simp

text \<open>After the other views were left, only the one that is kept can be edited or selected.\<close>

lemma leave_input_views [simp]:
  "facetViews (leave_input k s v) = facetViews s" "inputViews (leave_input k s v) = inputViews s"
  by (simp_all add: leave_input_def input_disableEdit_def input_removeFocus_def blur_box_def deferDisableEdit_def box_removeFocus_def)

lemma input_loop_views:
  "facetViews (foldl (leave_input k) s vs) = facetViews s" "inputViews (foldl (leave_input k) s vs) = inputViews s"
  by (induction vs arbitrary: s) simp_all

lemma all_left: "actives (disableFacets k s) \<subseteq> {v. Some v = k}" "allSelected (disableFacets k s) = False"
proof -
  define s1 where "s1 = foldl (leave_input k) s (inputViews s)"
  define s2 where "s2 = foldl (leave_facet k) s1 (facetViews s1)"
  have "actives s1 \<subseteq> actives s - {u. u \<in> set (inputViews s) \<and> Some u \<noteq> k}"
    unfolding s1_def by (rule leave_loop [OF left_input])
  moreover have "actives s2 \<subseteq> actives s1 - {u. u \<in> set (facetViews s1) \<and> Some u \<noteq> k}"
    unfolding s2_def by (rule leave_loop [OF left_facet])
  moreover have "facetViews s1 = facetViews s" by (simp add: s1_def input_loop_views)
  ultimately have "actives s2 \<subseteq> {v. Some v = k}" by (auto simp: actives_def on_page_def)
  moreover have "actives (s2\<lparr>allSelected := False\<rparr>) = actives s2" by (rule actives_same) (simp_all add: active_def)
  ultimately show "actives (disableFacets k s) \<subseteq> {v. Some v = k}"
    by (simp add: disableFacets_def Let_def s1_def [symmetric] s2_def [symmetric] focus_same)
qed (simp add: disableFacets_def Let_def focus_same)

definition only_one :: "nat \<Rightarrow> box_views \<Rightarrow> bool" where
  "only_one v s \<longleftrightarrow> allSelected s \<or> actives s \<subseteq> {v}"

lemma addFocus_one: "only_one v (input_addFocus v s)"
proof -
  have a: "only_one v (update_view v f (box_addFocus t))" if "only_one v t" for t f
    using that update_actives(2) [of v f "box_addFocus t"] by (auto simp: only_one_def focus_same)
  have b: "only_one v (if \<not> allSelected t then disableFacets (Some v) t else t)" for t
    using all_left [of "Some v" t] by (auto simp: only_one_def)
  show ?thesis unfolding input_addFocus_def Let_def by (rule a, rule b)
qed

lemma input_focus_one: "only_one v s \<Longrightarrow> only_one v (input_focus v s)" "only_one v s \<Longrightarrow> only_one v (input_select_range v s)"
  by (simp_all add: input_focus_def input_select_range_def addFocus_one)

lemma selectText_one: "only_one v s \<Longrightarrow> only_one v (input_selectText v s)"
proof -
  assume "only_one v s"
  then have o: "only_one v (input_select_range v s)" by (rule input_focus_one)
  then have "only_one v (update_view v f (input_select_range v s))" for f
    using update_actives(2) [of v f "input_select_range v s"] by (auto simp: only_one_def)
  with o show ?thesis by (simp add: input_selectText_def Let_def input_focus_one)
qed

lemma input_enableEdit_one: "only_one v (input_enableEdit v t s)"
  by (simp add: input_enableEdit_def Let_def input_focus_one selectText_one addFocus_one)

lemma facet_enableEdit_one: "only_one v (facet_enableEdit v s)"
proof -
  have "only_one v (take_focus v ((box_addFocus (disableFacets (Some v) t))\<lparr>deferreds := ds\<rparr>))" for t ds
  proof -
    have "actives ((box_addFocus (disableFacets (Some v) t))\<lparr>deferreds := ds\<rparr>) = actives (disableFacets (Some v) t)"
      by (rule actives_same) (simp_all add: active_def box_addFocus_def)
    then show ?thesis using all_left(1) [of "Some v" t] by (auto simp: only_one_def focus_same)
  qed
  then show ?thesis unfolding facet_enableEdit_def Let_def by (simp only:)
qed

lemma selectFacet_one: "only_one u s \<Longrightarrow> \<exists>u. only_one u (selectFacet v True s)"
  using all_left [of "Some v"] by (fastforce simp: selectFacet_def Let_def only_one_def focus_same)

lemma all_stays: "allSelected s \<Longrightarrow> allSelected (selectFacet v False s)" "allSelected s \<Longrightarrow> allSelected (input_selectText v s)"
  by (simp_all add: selectFacet_def Let_def focus_same input_selectText_def input_select_range_def input_addFocus_def)

lemma select_all_all: "allSelected (selectAllFacets s)"
proof -
  have f: "allSelected (foldl (\<lambda>s v. selectFacet v False s) s vs)" if "allSelected s" for s vs
    using that by (induction vs arbitrary: s) (simp_all add: all_stays)
  have i: "allSelected (foldl (\<lambda>s v. input_selectText v s) s vs)" if "allSelected s" for s vs
    using that by (induction vs arbitrary: s) (simp_all add: all_stays)
  show ?thesis by (simp add: selectAllFacets_def Let_def f i)
qed

lemma shrink_one: "only_one u s \<Longrightarrow> actives s' \<subseteq> actives s \<Longrightarrow> allSelected s' = allSelected s \<Longrightarrow> only_one u s'"
  by (auto simp: only_one_def)

lemma deferred_one: "only_one u s \<Longrightarrow> only_one u (run_deferred d s)"
proof -
  assume o: "only_one u s"
  have "actives (s\<lparr>key_facet := Some v, click_facet := Some v\<rparr>) = actives s" for v by (rule actives_same) (simp_all add: active_def)
  with o have "only_one u (s\<lparr>key_facet := Some v, click_facet := Some v\<rparr>)" for v by (simp add: only_one_def)
  moreover have "only_one u (box_addFocus s)" using o by (simp add: only_one_def focus_same)
  moreover have "only_one u (input_disableEdit v s)" "only_one u (facet_disableEdit v s)" for v
    using shrink_one [OF o] input_left [of v s] facet_left [of v s] by blast+
  ultimately show ?thesis using o by (cases d) (simp_all add: run_deferred_def)
qed

lemma view_step_one: "view_step s s' \<Longrightarrow> only_one u s \<Longrightarrow> \<exists>u. only_one u s'"
proof (induction rule: view_step.induct)
  case (type_value v s w)
  moreover have "actives (s\<lparr>box_val := (box_val s)(v := w)\<rparr>) = actives s" by (rule actives_same) (simp_all add: active_def)
  ultimately show ?case by (auto simp: only_one_def)
next
  case (click_field v s)
  then show ?case using addFocus_one by (auto simp: input_select_range_def)
next
  case (deselect_all s)
  then show ?case using all_left [of None s] by (auto simp: only_one_def)
next
  case (render s)
  then show ?case by (auto simp: only_one_def render_none)
next
  case (later d s)
  have "actives (s\<lparr>deferreds := remove1 d (deferreds s)\<rparr>) = actives s" by (rule actives_same) (simp_all add: active_def)
  then have "only_one u (s\<lparr>deferreds := remove1 d (deferreds s)\<rparr>)" using later(2) by (simp add: only_one_def)
  from deferred_one [OF this] show ?case by blast
next
  case (select_all s)
  then show ?case using select_all_all by (auto simp: only_one_def)
next
  case (focus_facet v s)
  then show ?case by (auto simp: only_one_def focus_same)
next
  case (focus_leaves s v)
  then show ?case by (auto simp: only_one_def focus_same)
next
  case (click_value v s)
  show ?case using facet_enableEdit_one by blast
next
  case (click_category v s)
  then show ?case using selectFacet_one by blast
next
  case (edit_field v s t)
  show ?case using input_enableEdit_one by blast
next
  case (finish_facet v s)
  then show ?case using shrink_one [OF _ facet_left(1,2)] by blast
next
  case (deselect s v)
  then show ?case using shrink_one [OF _ facet_deselected(1,2)] by blast
qed

text \<open>
  C15. In every state that the views of a box can reach, at most one view on the page is edited or
  selected, unless all of them have been selected.
\<close>

theorem one_view_active:
  "view_step\<^sup>*\<^sup>* (shown_box vs) s \<Longrightarrow> \<not> allSelected s \<Longrightarrow> \<exists>u. \<forall>v. on_page v s \<and> active s v \<longrightarrow> v = u"
proof -
  assume r: "view_step\<^sup>*\<^sup>* (shown_box vs) s" and n: "\<not> allSelected s"
  from r have "\<exists>u. only_one u s"
  proof (induction rule: rtranclp_induct)
    case base
    then show ?case by (simp add: shown_box_def only_one_def render_none)
  next
    case (step s t)
    then show ?case using view_step_one by blast
  qed
  with n show ?thesis by (auto simp: only_one_def actives_def)
qed


lemma one_view_active_witness:
  "let s = facet_enableEdit 0 (shown_box [''7'', ''A'']) in actives s = {0}"
proof -
  define s where "s = facet_enableEdit 0 (shown_box [''7'', ''A''])"
  have "view_step (shown_box [''7'', ''A'']) s" unfolding s_def
    by (rule view_step.click_value) (simp add: shown_box_def render_views_def)
  then have "view_step\<^sup>*\<^sup>* (shown_box [''7'', ''A'']) s" by (rule r_into_rtranclp)
  moreover have "\<not> allSelected s" unfolding s_def by code_simp
  moreover have "on_page 0 s" unfolding s_def by code_simp
  moreover have "active s 0" unfolding s_def by code_simp
  ultimately have "\<forall>v. on_page v s \<and> active s v \<longrightarrow> v = 0" using one_view_active by metis
  then show ?thesis using \<open>on_page 0 s\<close> \<open>active s 0\<close> unfolding s_def [symmetric] Let_def by (auto simp: actives_def)
qed

subsection \<open>From one view to the next\<close>

lemma idle_inputs: "\<forall>w\<in>set vs. Some w \<noteq> k \<longrightarrow> \<not> active s w \<Longrightarrow> foldl (leave_input k) s vs = s"
  by (induction vs) (auto simp: leave_input_def)

lemma idle_facets: "\<forall>w\<in>set vs. Some w \<noteq> k \<longrightarrow> \<not> active s w \<Longrightarrow> foldl (leave_facet k) s vs = s"
  by (induction vs) (auto simp: leave_facet_def)

definition ids_ok :: "box_views \<Rightarrow> bool" where
  "ids_ok s \<longleftrightarrow> (\<forall>w. on_page w s \<longrightarrow> w < next_view s)"

lemma disabled_view:
  "w < next_view s \<Longrightarrow> active (deselectFacet u (facet_disableEdit u s)) w = (w \<noteq> u \<and> active s w)"
  by (simp add: active_def deselectFacet_def facet_disableEdit_def Let_def unbind_facet_def box_removeFocus_def blur_box_def take_focus_def
      deferDisableEdit_def commit_text_def render_views_def split: option.split)

lemma one_left:
  assumes "ids_ok s" "u \<in> set (facetViews s)" "u \<noteq> v" "active s u" "\<forall>w. on_page w s \<and> active s w \<longrightarrow> w = u \<or> w = v"
    "u \<notin> set (inputViews s)"
  shows "disableFacets (Some v) s = box_removeFocus ((deselectFacet u (facet_disableEdit u s))\<lparr>allSelected := False\<rparr>)"
proof -
  have i: "foldl (leave_input (Some v)) s (inputViews s) = s"
    using assms(5,6) by (intro idle_inputs) (auto simp: on_page_def)
  obtain as bs where p: "facetViews s = as @ u # bs" "u \<notin> set as" using split_list_first [OF assms(2)] by blast
  let ?t = "deselectFacet u (facet_disableEdit u s)"
  have "foldl (leave_facet (Some v)) s as = s" using assms(5) p by (intro idle_facets) (auto simp: on_page_def)
  moreover have "leave_facet (Some v) s u = ?t" using assms(3,4) by (simp add: leave_facet_def)
  moreover have "foldl (leave_facet (Some v)) ?t bs = ?t"
  proof (intro idle_facets ballI impI)
    fix w assume w: "w \<in> set bs" "Some w \<noteq> Some v"
    then have "on_page w s" using p by (simp add: on_page_def)
    then have "w < next_view s" using assms(1) by (simp add: ids_ok_def)
    then show "\<not> active ?t w" using disabled_view [of w s u] \<open>on_page w s\<close> assms(5) w by auto
  qed
  ultimately have "foldl (leave_facet (Some v)) s (facetViews s) = ?t" unfolding p by simp
  then show ?thesis by (simp add: disableFacets_def Let_def i)
qed

lemma left_committed:
  assumes "commits u s" "ids_ok s" "on_page u s"
  shows "let t = deselectFacet u (facet_disableEdit u s) in
    facet_values t = (facet_values s)[model_of s u := trim (box_val s u)] \<and> focused t = None \<and>
    (\<forall>w. on_page w t \<longrightarrow> next_view s \<le> w)"
proof -
  have u: "u < next_view s" using assms(2,3) by (simp add: ids_ok_def)
  define r where "r = render_views (s\<lparr>facet_values := (facet_values s)[model_of s u := trim (box_val s u)]\<rparr>)"
  have r: "focused r = None" "\<not> on_page u r" "facet_values r = (facet_values s)[model_of s u := trim (box_val s u)]"
    "\<forall>w. on_page w r \<longrightarrow> next_view s \<le> w"
    using u by (auto simp: r_def render_views_def Let_def on_page_def)
  have "facet_disableEdit u s = box_removeFocus (update_view u (\<lambda>w. w\<lparr>editing := False\<rparr>) (update_view u (\<lambda>w. w\<lparr>canClose := False\<rparr>) r))"
    using assms(1) r(1,2) by (simp add: facet_disableEdit_def commit_text_def r_def [symmetric] take_focus_def blur_box_def on_page_def)
  then show ?thesis using r by (simp add: Let_def deselectFacet_def box_removeFocus_def unbind_facet_def on_page_def)
qed

lemma left_clean:
  assumes "\<not> commits u s" "on_page u s"
  shows "let t = deselectFacet u (facet_disableEdit u s) in
    facet_values t = facet_values s \<and> focused t = None \<and> facetViews t = facetViews s \<and> inputViews t = inputViews s"
  using assms by (auto simp: Let_def facet_disableEdit_def commit_text_def deselectFacet_def unbind_facet_def box_removeFocus_def blur_box_def take_focus_def
      deferDisableEdit_def on_page_def split: option.split)

text \<open>
  C16. A click on the value of a facet while another one is being edited: if the text of that one is
  as it was, the editing and the focus move to the facet that was clicked. If the text has changed,
  it is committed, but the click is lost: all views are made anew, none of them is edited and none
  has the focus, although the box is shown as if it had it.
\<close>

theorem facet_click_moves_or_is_lost:
  assumes "ids_ok s" "{u, v} \<subseteq> set (facetViews s)" "u \<noteq> v" "set (facetViews s) \<inter> set (inputViews s) = {}" "actives s = {u}"
    "s' = facet_enableEdit v s"
  shows "has_focus_class s' \<and>
    (if commits u s
     then facet_values s' = (facet_values s)[model_of s u := trim (box_val s u)] \<and> actives s' = {} \<and> focused s' = None
     else facet_values s' = facet_values s \<and> actives s' = {v} \<and> focused s' = Some v)"
proof -
  have v: "\<not> editing (view_of s v)" "\<not> selected (view_of s v)" using assms(2,3,5) by (auto simp: actives_def active_def on_page_def)
  define s1 where "s1 = update_view v (\<lambda>w. w\<lparr>canClose := False\<rparr>)
    (let t = unbind_facet v (update_view v (\<lambda>w. w\<lparr>editing := True\<rparr>) s)
     in if box_val s v = [] then t\<lparr>box_val := (box_val t)(v := facet_values t ! model_of t v)\<rparr> else t)"
  have s1: "facetViews s1 = facetViews s" "inputViews s1 = inputViews s" "facet_values s1 = facet_values s" "next_view s1 = next_view s"
    "model_of s1 = model_of s" "box_val s1 u = box_val s u" "active s1 w \<longleftrightarrow> w = v \<or> active s w" for w
    using assms(3) by (auto simp: s1_def Let_def unbind_facet_def active_def)
  have c: "commits u s1 = commits u s" by (simp add: commits_def s1)
  have ids: "ids_ok s1" using assms(1) by (simp add: ids_ok_def on_page_def s1)
  have s': "s' = take_focus v ((box_addFocus (disableFacets (Some v) s1))\<lparr>deferreds := deferreds (disableFacets (Some v) s1) @ [AddFocusLater]\<rparr>)"
    using v by (simp add: assms(6) facet_enableEdit_def s1_def Let_def deselectFacet_def unbind_facet_def box_addFocus_def)
  define t where "t = deselectFacet u (facet_disableEdit u s1)"
  have d: "disableFacets (Some v) s1 = box_removeFocus (t\<lparr>allSelected := False\<rparr>)" unfolding t_def
    using assms(2-5) s1 ids by (intro one_left) (auto simp: actives_def on_page_def)
  have vn: "v < next_view s1" using assms(1,2) by (simp add: ids_ok_def on_page_def s1)
  have tv: "active t v" using disabled_view [OF vn, of u] assms(3) s1(7) by (simp add: t_def)
  have a: "actives s' = actives (disableFacets (Some v) s1)"
  proof -
    have "actives (x\<lparr>deferreds := y\<rparr>) = actives x" for x :: box_views and y by (rule actives_same) (simp_all add: active_def)
    then show ?thesis by (simp add: s' focus_same)
  qed
  show ?thesis
  proof (cases "commits u s")
    case True
    have "on_page u s1" using assms(2) by (simp add: on_page_def s1)
    note l = left_committed [OF True [folded c] ids this, folded t_def, unfolded Let_def]
    have "\<not> on_page v t" using l vn by (meson leD)
    then have f: "has_focus_class s' \<and> facet_values s' = (facet_values s)[model_of s u := trim (box_val s u)] \<and> focused s' = None"
      using l s1 by (simp add: s' d take_focus_def on_page_def box_addFocus_def box_removeFocus_def)
    have "actives s' = {}" using \<open>\<not> on_page v t\<close> all_left(1) [of "Some v" s1] unfolding a d
      by (auto simp: actives_def on_page_def box_removeFocus_def)
    with f True show ?thesis by simp
  next
    case False
    have "on_page u s1" using assms(2) by (simp add: on_page_def s1)
    note l = left_clean [OF False [folded c] this, folded t_def, unfolded Let_def]
    then have v: "on_page v t" using assms(2) by (simp add: on_page_def s1)
    then have f: "has_focus_class s' \<and> facet_values s' = facet_values s \<and> focused s' = Some v" using l s1
      by (simp add: s' d take_focus_def on_page_def box_addFocus_def box_removeFocus_def)
    have "actives s' = {v}" using all_left(1) [of "Some v" s1] tv v unfolding a d
      by (auto simp: actives_def on_page_def box_removeFocus_def active_def)
    with f False show ?thesis by simp
  qed
qed

text \<open>
  A click into a field while a facet is being edited does not last: the facet takes the focus
  back to put its cursor at the beginning and then gives it up, so the field is edited without the
  focus, and its own timer, which this has started, ends the editing.
\<close>

theorem field_click_does_not_last:
  assumes "ids_ok s" "u \<in> set (facetViews s)" "v \<in> set (inputViews s)" "is_field s v" "set (facetViews s) \<inter> set (inputViews s) = {}"
    "actives s = {u}" "focused s = Some u" "\<not> allSelected s" "\<not> commits u s" "s' = input_select_range v s"
  shows "editing (view_of s' v) \<and> focused s' = None \<and> DisableEditLater v \<in> set (deferreds s') \<and>
    \<not> editing (view_of (run_deferred (DisableEditLater v) s') v)"
proof -
  have uv: "u \<noteq> v" "on_page v s" "on_page u s" using assms(2,3,5) by (auto simp: on_page_def)
  define s1 where "s1 = update_view v (\<lambda>w. w\<lparr>canClose := False\<rparr>) (take_focus v s)"
  have s1: "facetViews s1 = facetViews s" "inputViews s1 = inputViews s" "facet_values s1 = facet_values s" "next_view s1 = next_view s"
    "model_of s1 = model_of s" "box_val s1 = box_val s" "focused s1 = Some v" "is_field s1 = is_field s" "active s1 w = active s w" for w
    using assms(7) uv by (auto simp: s1_def take_focus_def deferDisableEdit_def active_def)
  have all: "\<not> allSelected s1" using assms(8) by (simp add: s1_def focus_same)
  define t where "t = deselectFacet u (facet_disableEdit u s1)"
  have d: "disableFacets (Some v) s1 = box_removeFocus (t\<lparr>allSelected := False\<rparr>)" unfolding t_def
    using assms(1-6) s1 uv by (intro one_left) (auto simp: actives_def on_page_def ids_ok_def)
  have c: "\<not> commits u s1" using assms(9) by (simp add: commits_def s1)
  then have t: "focused t = None" "DisableEditLater v \<in> set (deferreds t)" "canClose (view_of t v)" "is_field t = is_field s"
    using uv s1 by (auto simp: t_def facet_disableEdit_def commit_text_def Let_def deselectFacet_def unbind_facet_def box_removeFocus_def blur_box_def
      take_focus_def deferDisableEdit_def on_page_def)
  have s': "s' = update_view v (\<lambda>w. w\<lparr>editing := True, selected := False\<rparr>) (box_addFocus (disableFacets (Some v) s1))"
    using assms(7) uv all by (simp add: assms(10) input_select_range_def input_addFocus_def s1_def Let_def)
  have "editing (view_of s' v)" "focused s' = None" "DisableEditLater v \<in> set (deferreds s')" "canClose (view_of s' v)" "is_field s' v"
    using t assms(4) by (simp_all add: s' d box_addFocus_def box_removeFocus_def)
  then show ?thesis by (simp add: run_deferred_def input_disableEdit_def input_removeFocus_def)
qed

text \<open>
  A click on the category of a facet while another one with a changed text is being edited
  selects a view that is no longer on the page: nothing is shown as selected, but the keys of the
  document go to that view, and the key that deletes removes its facet.
\<close>

theorem keys_reach_lost_facet:
  assumes "ids_ok s" "{u, v} \<subseteq> set (facetViews s)" "u \<noteq> v" "set (facetViews s) \<inter> set (inputViews s) = {}" "actives s = {u}"
    "focused s = Some u" "commits u s" "s' = run_deferred (BindKeys v) (selectFacet v True s)" "is_selected e = selected (view_of s' v)"
  shows "actives s' = {} \<and> \<not> on_page v s' \<and> key_facet s' = Some v \<and> facet_keydown {} True 8 e = [RemoveFacet]"
proof -
  have v: "\<not> editing (view_of s v)" "\<not> selected (view_of s v)" using assms(2,3,5) by (auto simp: actives_def active_def on_page_def)
  define s1 where "s1 = (unbind_facet v (update_view v (\<lambda>w. w\<lparr>canClose := False, selected := True, editing := False\<rparr>) s))
    \<lparr>deferreds := deferreds s @ [BindKeys v]\<rparr>"
  have s1: "facetViews s1 = facetViews s" "inputViews s1 = inputViews s" "facet_values s1 = facet_values s" "next_view s1 = next_view s"
    "model_of s1 = model_of s" "box_val s1 = box_val s" "selected (view_of s1 v)" "active s1 w \<longleftrightarrow> w = v \<or> active s w" for w
    by (auto simp: s1_def unbind_facet_def active_def)
  have ids: "ids_ok s1" using assms(1) by (simp add: ids_ok_def on_page_def s1)
  define t where "t = deselectFacet u (facet_disableEdit u s1)"
  have d: "disableFacets (Some v) s1 = box_removeFocus (t\<lparr>allSelected := False\<rparr>)" unfolding t_def
    using assms(2-5) s1 ids by (intro one_left) (auto simp: actives_def on_page_def)
  have c: "commits u s1" using assms(7) by (simp add: commits_def s1)
  have "on_page u s1" using assms(2) by (simp add: on_page_def s1)
  note l = left_committed [OF c ids this, folded t_def, unfolded Let_def]
  have vn: "v < next_view s1" using assms(1,2) by (simp add: ids_ok_def on_page_def s1)
  have n: "\<not> on_page v t" using l vn by (meson leD)
  have s': "s' = (box_addFocus (disableFacets (Some v) s1))\<lparr>key_facet := Some v, click_facet := Some v\<rparr>"
    using v assms(3,6) by (simp add: assms(8) run_deferred_def selectFacet_def Let_def s1_def unbind_facet_def)
  have "selected (view_of t v)"
    using s1(7) assms(3) vn by (simp add: t_def deselectFacet_def facet_disableEdit_def Let_def unbind_facet_def box_removeFocus_def blur_box_def take_focus_def
      deferDisableEdit_def commit_text_def render_views_def split: option.split)
  then have "is_selected e" using assms(9) by (simp add: s' d box_addFocus_def box_removeFocus_def)
  then have k: "facet_keydown {} True 8 e = [RemoveFacet]" by (simp add: facet_keydown_def printable_def Let_def)
  have "actives s' = actives (disableFacets (Some v) s1)" unfolding s' by (rule trans [OF actives_same focus_same(3)]) (simp_all add: active_def)
  then have "actives s' = {}" using all_left(1) [of "Some v" s1] n by (auto simp: d actives_def on_page_def box_removeFocus_def)
  then show ?thesis using n k by (simp add: s' d on_page_def box_addFocus_def box_removeFocus_def)
qed

text \<open>What the theorems take for granted about the numbers of the views holds in every reachable state.\<close>

definition views_ok :: "box_views \<Rightarrow> bool" where
  "views_ok s \<longleftrightarrow> ids_ok s \<and> set (facetViews s) \<inter> set (inputViews s) = {} \<and> (\<forall>v\<in>set (inputViews s). is_field s v)"

lemma views_ok_same:
  "facetViews s' = facetViews s \<Longrightarrow> inputViews s' = inputViews s \<Longrightarrow> is_field s' = is_field s \<Longrightarrow> next_view s' = next_view s \<Longrightarrow>
    views_ok s' = views_ok s"
  by (simp add: views_ok_def ids_ok_def on_page_def)

lemma views_ok_simps [simp]:
  "views_ok (update_view v f s) = views_ok s" "views_ok (take_focus v s) = views_ok s" "views_ok (blur_box v s) = views_ok s"
  "views_ok (box_addFocus s) = views_ok s" "views_ok (box_removeFocus s) = views_ok s" "views_ok (unbind_facet v s) = views_ok s"
  "views_ok (s\<lparr>deferreds := ds\<rparr>) = views_ok s" "views_ok (s\<lparr>box_val := bv\<rparr>) = views_ok s" "views_ok (s\<lparr>allSelected := b\<rparr>) = views_ok s"
  "views_ok (s\<lparr>facet_values := fv\<rparr>) = views_ok s" "views_ok (s\<lparr>key_facet := x, click_facet := y\<rparr>) = views_ok s"
  by (rule views_ok_same; simp add: take_focus_def blur_box_def deferDisableEdit_def box_addFocus_def box_removeFocus_def unbind_facet_def split: option.split)+

lemma views_ok_render: "views_ok (render_views s)"
  by (auto simp: views_ok_def ids_ok_def on_page_def render_views_def Let_def)

lemma views_ok_facet: "views_ok s \<Longrightarrow> views_ok (facet_disableEdit v s)" "views_ok s \<Longrightarrow> views_ok (deselectFacet v s)"
    "views_ok s \<Longrightarrow> views_ok (input_disableEdit v s)"
  by (simp_all add: facet_disableEdit_def Let_def commit_text_def views_ok_render deselectFacet_def input_disableEdit_def input_removeFocus_def)

lemma views_ok_fold: "(\<And>s v. views_ok s \<Longrightarrow> views_ok (f s v)) \<Longrightarrow> views_ok s \<Longrightarrow> views_ok (foldl f s vs)"
  by (induction vs arbitrary: s) simp_all

lemma views_ok_disable: "views_ok s \<Longrightarrow> views_ok (disableFacets k s)"
  by (simp add: disableFacets_def Let_def views_ok_fold leave_facet_def leave_input_def views_ok_facet)

lemma views_ok_if: "views_ok s \<Longrightarrow> views_ok t \<Longrightarrow> views_ok (if b then s else t)"
  by simp

lemma views_ok_input: "views_ok s \<Longrightarrow> views_ok (input_addFocus v s)" "views_ok s \<Longrightarrow> views_ok (input_focus v s)"
    "views_ok s \<Longrightarrow> views_ok (input_select_range v s)"
  by (simp_all add: input_addFocus_def input_select_range_def input_focus_def Let_def views_ok_disable)

lemma views_ok_enter:
  "views_ok s \<Longrightarrow> views_ok (input_selectText v s)" "views_ok s \<Longrightarrow> views_ok (input_enableEdit v t s)"
proof -
  show a: "views_ok (input_selectText v s)" if "views_ok s" for s
    unfolding input_selectText_def Let_def using that views_ok_input(2,3) by (intro views_ok_if) simp_all
  show "views_ok (input_enableEdit v t s)" if "views_ok s"
    unfolding input_enableEdit_def Let_def using that by (intro views_ok_input views_ok_if a)
qed

lemma views_ok_select: "views_ok s \<Longrightarrow> views_ok (facet_enableEdit v s)" "views_ok s \<Longrightarrow> views_ok (selectFacet v b s)"
  unfolding facet_enableEdit_def selectFacet_def Let_def views_ok_simps
  by (intro views_ok_if views_ok_disable; simp add: views_ok_facet views_ok_disable)+

theorem reachable_views_ok: "view_step\<^sup>*\<^sup>* (shown_box vs) s \<Longrightarrow> views_ok s"
proof (induction rule: rtranclp_induct)
  case base
  then show ?case by (simp add: shown_box_def views_ok_render)
next
  case (step s t)
  from step(2,3) show ?case
    by (cases rule: view_step.cases)
      (simp_all add: views_ok_enter views_ok_input views_ok_select views_ok_facet views_ok_disable views_ok_render views_ok_fold selectAllFacets_def Let_def run_deferred_def split: deferred.split)
qed

lemma reachable_views_ok_witness: "views_ok (facet_enableEdit 0 (shown_box [''7'']))"
proof -
  have "view_step (shown_box [''7'']) (facet_enableEdit 0 (shown_box [''7'']))"
    by (rule view_step.click_value) (simp add: shown_box_def render_views_def)
  then show ?thesis by (rule reachable_views_ok [OF r_into_rtranclp])
qed

text \<open>A box whose first facet is being edited and has a text.\<close>

definition edited_box :: "string \<Rightarrow> box_views" where
  "edited_box t = (let s = shown_box [''7'', ''A''] in
     s\<lparr>view_of := (view_of s)(0 := fresh_view\<lparr>editing := True\<rparr>), box_val := (box_val s)(0 := t), focused := Some 0\<rparr>)"

lemma edited_simps [simp]:
  "facetViews (edited_box t) = [0, 1]" "inputViews (edited_box t) = [2, 3, 4]" "next_view (edited_box t) = 5" "focused (edited_box t) = Some 0"
  "facet_values (edited_box t) = [''7'', ''A'']" "box_val (edited_box t) 0 = t" "model_of (edited_box t) 0 = 0" "is_field (edited_box t) 3"
  "allSelected (edited_box t) = False"
  by (simp_all add: edited_box_def shown_box_def render_views_def Let_def upt_rec)

lemma edited_active: "actives (edited_box t) = {0}" "ids_ok (edited_box t)"
  by (auto simp: actives_def on_page_def active_def ids_ok_def) (auto simp: edited_box_def shown_box_def render_views_def Let_def fresh_view_def split: if_splits)

lemma edited_commits: "commits 0 (edited_box t) \<longleftrightarrow> trim t \<noteq> ''7'' \<and> trim t \<noteq> []"
  by (simp add: commits_def)

lemma facet_click_moves_or_is_lost_witness:
  "actives (facet_enableEdit 1 (edited_box ''7'')) = {1} \<and> actives (facet_enableEdit 1 (edited_box ''8'')) = {} \<and>
   facet_values (facet_enableEdit 1 (edited_box ''8'')) = [''8'', ''A'']"
proof -
  have t: "trim ''7'' = ''7''" "trim ''8'' = ''8''" by code_simp+
  from facet_click_moves_or_is_lost [OF edited_active(2), of 0 1 "''7''", OF _ _ _ edited_active(1) refl]
    facet_click_moves_or_is_lost [OF edited_active(2), of 0 1 "''8''", OF _ _ _ edited_active(1) refl]
  show ?thesis by (simp add: edited_commits t)
qed

lemma field_click_does_not_last_witness:
  "focused (input_select_range 3 (edited_box ''7'')) = None \<and> editing (view_of (input_select_range 3 (edited_box ''7'')) 3)"
proof -
  have t: "trim ''7'' = ''7''" by code_simp
  from field_click_does_not_last [OF edited_active(2), of 0 "''7''" 3, OF _ _ _ _ edited_active(1) _ _ _ refl]
  show ?thesis by (simp add: edited_commits t)
qed

lemma keys_reach_lost_facet_witness:
  "let s' = run_deferred (BindKeys 1) (selectFacet 1 True (edited_box ''8''))
   in key_facet s' = Some 1 \<and> \<not> on_page 1 s'"
proof -
  have t: "trim ''8'' = ''8''" by code_simp
  define s' where "s' = run_deferred (BindKeys 1) (selectFacet 1 True (edited_box ''8''))"
  from keys_reach_lost_facet [OF edited_active(2), of 0 1 "''8''", OF _ _ _ edited_active(1) _ _ s'_def,
      of "\<lparr>edit_text = [], cursor = 0, selection_length = 0, is_selected = selected (view_of s' 1)\<rparr>"]
  show ?thesis unfolding s'_def [symmetric] Let_def by (simp add: edited_commits t)
qed

end
