(* ===== verification/ClassNames.thy ===== *)
theory ClassNames
  imports SearchText "HOL-Library.Sublist"
begin

text \<open>
  The attribute \<open>class\<close> of an element: \<open>addClass\<close>, \<open>removeClass\<close>, \<open>toggleClass\<close> and \<open>hasClass\<close> of
  jQuery (\<open>dependencies.js\<close>), and \<open>setMode\<close> of the search box (\<open>visualsearch.js\<close>), which keeps the
  mode of a view as a class with the name of the mode and its group. All of them work on the text
  of the attribute; the lemmas read it as a list of classes, as a browser does.
\<close>

subsection \<open>Classes of an element\<close>

text \<open>\<open>value.match(/\\S+/g)\<close>\<close>

definition class_words :: "string \<Rightarrow> string list" where
  "class_words v = match_all (Many 1 (\<lambda>c. \<not> is_ws c)) None v"

definition rclass :: "string \<Rightarrow> string" where
  "rclass s = map (\<lambda>c. if c \<in> {CHR 0x09, CHR 0x0D, CHR 0x0A, CHR 0x0C} then CHR '' '' else c) s"

text \<open>A replacement of the first occurrence of a text.\<close>

fun replace_first :: "string \<Rightarrow> string \<Rightarrow> string \<Rightarrow> string" where
  "replace_first w t [] = (if w = [] then t else [])"
| "replace_first w t (c # s) =
     (if take (length w) (c # s) = w then t @ drop (length w) (c # s) else c # replace_first w t s)"

definition add_word :: "string \<Rightarrow> string \<Rightarrow> string" where
  "add_word cur clazz = (if sublist ('' '' @ clazz @ '' '') cur then cur else cur @ clazz @ '' '')"

definition addClass :: "string \<Rightarrow> string \<Rightarrow> string" where
  "addClass v className =
     (if v = [] then className
      else (let cur = (if className \<noteq> [] then rclass ('' '' @ className @ '' '') else '' '')
            in trim (foldl add_word cur (class_words v))))"

lemma length_replace_first: "sublist w s \<Longrightarrow> length (replace_first w t s) + length w = length s + length t"
proof (induction s)
  case (Cons c s)
  show ?case
  proof (cases "take (length w) (c # s) = w")
    case True
    then have "length w \<le> length (c # s)" by (metis length_take min.absorb_iff2 nat_le_linear min_def)
    then show ?thesis using True by simp
  next
    case False
    then have "\<not> prefix w (c # s)" by (metis prefix_def append_eq_conv_conj)
    then have "sublist w s" using Cons.prems by (simp add: sublist_Cons_right)
    then show ?thesis using Cons.IH False by simp
  qed
qed simp

function remove_word :: "string \<Rightarrow> string \<Rightarrow> string" where
  "remove_word cur clazz =
     (if sublist ('' '' @ clazz @ '' '') cur then remove_word (replace_first ('' '' @ clazz @ '' '') '' '' cur) clazz else cur)"
  by pat_completeness auto
termination
proof (relation "measure (\<lambda>(cur, clazz). length cur)")
  fix cur clazz :: string
  assume "sublist ('' '' @ clazz @ '' '') cur"
  from length_replace_first [OF this, of "'' ''"]
  show "((replace_first ('' '' @ clazz @ '' '') '' '' cur, clazz), (cur, clazz)) \<in> measure (\<lambda>(cur, clazz). length cur)" by simp
qed simp

declare remove_word.simps [simp del]

text \<open>Without an argument all classes are removed.\<close>

definition removeClass :: "string option \<Rightarrow> string \<Rightarrow> string" where
  "removeClass v className =
     (case v of
        None \<Rightarrow> []
      | Some v \<Rightarrow>
          (if v = [] then className
           else (let cur = (if className \<noteq> [] then rclass ('' '' @ className @ '' '') else [])
                 in if cur \<noteq> [] then trim (foldl remove_word cur (class_words v)) else className)))"

definition hasClass :: "string \<Rightarrow> string \<Rightarrow> bool" where
  "hasClass selector className \<longleftrightarrow> sublist ('' '' @ selector @ '' '') (rclass ('' '' @ className @ '' ''))"

definition toggleClass :: "string \<Rightarrow> bool option \<Rightarrow> string \<Rightarrow> string" where
  "toggleClass v stateVal className =
     (case stateVal of
        Some True \<Rightarrow> addClass v className
      | Some False \<Rightarrow> removeClass (Some v) className
      | None \<Rightarrow> foldl (\<lambda>cn w. if hasClass w cn then removeClass (Some w) cn else addClass w cn) className (class_words v))"

text \<open>Without a class: the whole attribute and the one that was stored for later.\<close>

definition toggle_all :: "bool option \<Rightarrow> string \<times> string option \<Rightarrow> string \<times> string option" where
  "toggle_all v st =
     (let (className, stored) = st;
          stored = (if className \<noteq> [] then Some className else stored)
      in (if className \<noteq> [] \<or> v = Some False then [] else (case stored of None \<Rightarrow> [] | Some s \<Rightarrow> s), stored))"

subsection \<open>Modes\<close>

primrec verbatim :: "string \<Rightarrow> regex" where
  "verbatim [] = Many 0 (\<lambda>c. False)"
| "verbatim (d # w) = Cat (One (\<lambda>c. c = d)) (verbatim w)"

definition mode_class :: "string \<Rightarrow> regex" where
  "mode_class grp = Cat (Many 1 is_word) (Cat (verbatim (CHR ''_'' # grp)) (Or (One is_ws) AtEnd))"

definition set_mode :: "string option \<Rightarrow> string \<Rightarrow> string \<Rightarrow> string" where
  "set_mode state grp className =
     (let mode = (case state of None \<Rightarrow> [] | Some s \<Rightarrow> s @ ''_'' @ grp)
      in replace_all (Cat (One is_ws) (One is_ws)) '' '' None (replace_all (mode_class grp) [] None className @ '' '' @ mode))"

subsection \<open>The text as a list\<close>

definition class_list :: "string \<Rightarrow> string list" where
  "class_list s = filter (\<lambda>t. t \<noteq> []) (split_on (CHR '' '') (rclass s))"

definition padded :: "string list \<Rightarrow> string" where
  "padded ts = concat (map (\<lambda>t. '' '' @ t) ts) @ '' ''"

lemma padded_simps [simp]: "padded [] = '' ''" "padded (t # ts) = '' '' @ t @ padded ts"
  by (simp_all add: padded_def)

lemma padded_snoc: "padded (ts @ [w]) = padded ts @ w @ '' ''"
  by (simp add: padded_def)

lemma padded_split: "padded (split_on (CHR '' '') s) = '' '' @ s @ '' ''"
proof (induction s)
  case (Cons c s)
  then show ?case by (cases "split_on (CHR '' '') s") auto
qed simp

lemma padded_Cons: "\<exists>r. padded ts = CHR '' '' # r"
  by (cases ts) auto

lemma same_part:
  assumes "c \<notin> set w" "c \<notin> set t"
  shows "prefix (w @ [c]) (t @ c # r) \<longleftrightarrow> w = t"
proof
  assume "prefix (w @ [c]) (t @ c # r)"
  then obtain q where "w @ c # q = t @ c # r" by (auto simp: prefix_def)
  then have "takeWhile (\<lambda>x. x \<noteq> c) (w @ c # q) = takeWhile (\<lambda>x. x \<noteq> c) (t @ c # r)" by simp
  moreover have "takeWhile (\<lambda>x. x \<noteq> c) (w @ c # q) = w" "takeWhile (\<lambda>x. x \<noteq> c) (t @ c # r) = t"
    using assms by (intro takeWhile_append_stop; fastforce)+
  ultimately show "w = t" by simp
qed simp

lemma skip_part: "c \<notin> set t \<Longrightarrow> sublist (c # w) (t @ r) \<longleftrightarrow> sublist (c # w) r"
  by (induction t) (auto simp: sublist_Cons_right)

lemma word_in_padded:
  assumes "CHR '' '' \<notin> set w" "\<forall>t\<in>set ts. CHR '' '' \<notin> set t"
  shows "sublist ('' '' @ w @ '' '') (padded ts) \<longleftrightarrow> w \<in> set ts"
  using assms(2)
proof (induction ts)
  case Nil
  then show ?case by (auto simp: sublist_Cons_right)
next
  case (Cons t ts)
  obtain r where r: "padded ts = CHR '' '' # r" using padded_Cons by blast
  have "sublist ('' '' @ w @ '' '') (padded (t # ts)) \<longleftrightarrow> prefix (w @ '' '') (t @ padded ts) \<or> sublist ('' '' @ w @ '' '') (padded ts)"
    using Cons.prems by (simp add: sublist_Cons_right skip_part)
  then show ?case using Cons same_part [of "CHR '' ''" w t r] assms(1) by (auto simp: r)
qed

lemma replace_skip: "c \<notin> set t \<Longrightarrow> replace_first (c # w) v (t @ r) = t @ replace_first (c # w) v r"
  by (induction t) auto

lemma replace_padded:
  assumes "CHR '' '' \<notin> set w" "\<forall>t\<in>set ts. CHR '' '' \<notin> set t" "w \<in> set ts"
  shows "replace_first ('' '' @ w @ '' '') '' '' (padded ts) = padded (remove1 w ts)"
  using assms(2,3)
proof (induction ts)
  case (Cons t ts)
  obtain r where r: "padded ts = CHR '' '' # r" using padded_Cons by blast
  have p: "take (Suc (length w)) (t @ padded ts) = w @ '' '' \<longleftrightarrow> w = t"
  proof -
    have "take (Suc (length w)) (t @ padded ts) = w @ '' '' \<longleftrightarrow> prefix (w @ '' '') (t @ padded ts)"
      by (metis append_eq_conv_conj length_append_singleton prefix_def)
    then show ?thesis using same_part [of "CHR '' ''" w t r] assms(1) Cons.prems(1) by (simp add: r)
  qed
  show ?case
  proof (cases "w = t")
    case True
    then show ?thesis using p by (simp add: r)
  next
    case False
    then have "replace_first ('' '' @ w @ '' '') '' '' (padded ts) = padded (remove1 w ts)" using Cons by simp
    then show ?thesis using False p Cons.prems(1) replace_skip [of "CHR '' ''" t "w @ '' ''" "'' ''" "padded ts"] by simp
  qed
qed simp

subsection \<open>Words\<close>

lemma take_takeWhile: "take (length (takeWhile P s)) s = takeWhile P s" "drop (length (takeWhile P s)) s = dropWhile P s"
  by (metis takeWhile_eq_take, metis dropWhile_eq_drop)

lemma runs_Many1: "takeWhile P s \<noteq> [] \<Longrightarrow> \<exists>ws. runs (Many 1 P) p s = (takeWhile P s, []) # ws"
proof -
  assume "takeWhile P s \<noteq> []"
  then have "rev [1..<Suc (length (takeWhile P s))] = length (takeWhile P s) # rev [1..<length (takeWhile P s)]"
    by (cases "takeWhile P s") simp_all
  then show ?thesis by (simp add: take_takeWhile del: upt_Suc)
qed

lemma exec_Many1: "exec (Many 1 P) p s =
  (let a = dropWhile (\<lambda>c. \<not> P c) s in if a = [] then None else Some (takeWhile (\<lambda>c. \<not> P c) s, takeWhile P a, [], dropWhile P a))"
proof (induction s arbitrary: p)
  case (Cons c s)
  show ?case
  proof (cases "P c")
    case True
    then obtain ws where "runs (Many 1 P) p (c # s) = (takeWhile P (c # s), []) # ws" using runs_Many1 [of P "c # s" p] by auto
    then show ?thesis using True exec_here take_takeWhile(2) [of P "c # s"] by (simp add: Let_def del: One_nat_def)
  next
    case False
    then have "runs (Many 1 P) p (c # s) = []" by simp
    then show ?thesis using Cons.IH [of "Some c"] False by (simp add: Let_def del: One_nat_def runs.simps split: option.split)
  qed
qed (simp add: Let_def)

function words :: "(char \<Rightarrow> bool) \<Rightarrow> string \<Rightarrow> string list" where
  "words P s = (let a = dropWhile (\<lambda>c. \<not> P c) s in if a = [] then [] else takeWhile P a # words P (dropWhile P a))"
  by pat_completeness auto
termination
proof (relation "measure (\<lambda>(P, s). length s)")
  fix P :: "char \<Rightarrow> bool" and s a
  assume a: "a = dropWhile (\<lambda>c. \<not> P c) s" "a \<noteq> []"
  then have "P (hd a)" using hd_dropWhile [of "\<lambda>c. \<not> P c" s] by simp
  then have "length (dropWhile P a) < length a" using a(2) by (cases a) (simp_all add: length_dropWhile_le le_imp_less_Suc)
  then show "((P, dropWhile P a), (P, s)) \<in> measure (\<lambda>(P, s). length s)"
    using a length_dropWhile_le [of "\<lambda>c. \<not> P c" s] by simp
qed simp

declare words.simps [simp del]

lemma match_words: "match_all (Many 1 P) p s = words P s"
proof (induction P s arbitrary: p rule: words.induct)
  case (1 P s)
  let ?a = "dropWhile (\<lambda>c. \<not> P c) s"
  show ?case
  proof (cases "?a = []")
    case False
    then have "takeWhile P ?a \<noteq> []" using hd_dropWhile [OF False] by (cases ?a) simp_all
    then show ?thesis using 1 [OF refl False] False
      by (simp add: match_all.simps [of "Many 1 P" p s] words.simps [of P s] exec_Many1 Let_def del: One_nat_def)
  qed (simp add: match_all.simps [of "Many 1 P" p s] words.simps [of P s] exec_Many1 Let_def del: One_nat_def)
qed

lemma words_parts: "w \<in> set (words P s) \<Longrightarrow> w \<noteq> [] \<and> (\<forall>c\<in>set w. P c)"
proof (induction P s rule: words.induct)
  case (1 P s)
  define a where "a = dropWhile (\<lambda>c. \<not> P c) s"
  have a: "a \<noteq> []" "w = takeWhile P a \<or> w \<in> set (words P (dropWhile P a))"
    using 1(2) unfolding words.simps [of P s] a_def [symmetric] by (simp_all add: Let_def split: if_splits)
  have "P (hd a)" using a(1) hd_dropWhile [of "\<lambda>c. \<not> P c" s] by (simp add: a_def)
  then have t: "takeWhile P a \<noteq> []" using a(1) by (cases a) simp_all
  from a(2) show ?case
  proof
    assume "w = takeWhile P a"
    moreover have "\<forall>c\<in>set (takeWhile P a). P c" by (metis set_takeWhileD)
    ultimately show ?case using t by simp
  next
    assume "w \<in> set (words P (dropWhile P a))"
    from 1(1) [OF a_def a(1) this] show ?case .
  qed
qed

lemma words_single: "w \<noteq> [] \<Longrightarrow> \<forall>c\<in>set w. P c \<Longrightarrow> words P w = [w]"
proof -
  assume w: "w \<noteq> []" "\<forall>c\<in>set w. P c"
  then have "dropWhile (\<lambda>c. \<not> P c) w = w" by (cases w) simp_all
  moreover have "takeWhile P w = w" using w by (simp add: takeWhile_eq_all_conv)
  moreover have "dropWhile P w = []" using w by (simp add: dropWhile_eq_Nil_conv)
  moreover have "words P [] = []" by (simp add: words.simps [of P "[]"])
  ultimately show ?thesis using w(1) unfolding words.simps [of P w] by (simp only: Let_def if_False)
qed

lemma class_words_eq: "class_words v = words (\<lambda>c. \<not> is_ws c) v"
  unfolding class_words_def by (rule match_words)

lemma class_words_parts:
  assumes "w \<in> set (class_words v)"
  shows "w \<noteq> []" "\<forall>c\<in>set w. \<not> is_ws c" "CHR '' '' \<notin> set w"
proof -
  show w: "w \<noteq> []" "\<forall>c\<in>set w. \<not> is_ws c" using words_parts assms unfolding class_words_eq by metis+
  have "is_ws (CHR '' '')" by (simp add: is_ws_def)
  then show "CHR '' '' \<notin> set w" using w(2) by blast
qed

lemma class_words_single: "w \<noteq> [] \<Longrightarrow> \<forall>c\<in>set w. \<not> is_ws c \<Longrightarrow> class_words w = [w]"
  unfolding class_words_eq by (rule words_single)

subsection \<open>Adding and removing\<close>

text \<open>No white space but what separates classes in a document.\<close>

definition plain_class :: "string \<Rightarrow> bool" where
  "plain_class s \<longleftrightarrow> (\<forall>c\<in>set s. is_ws c \<longrightarrow> c \<in> {CHR 0x09, CHR 0x0D, CHR 0x0A, CHR 0x0C, CHR '' ''})"

definition add_item :: "'a list \<Rightarrow> 'a \<Rightarrow> 'a list" where
  "add_item ts w = (if w \<in> set ts then ts else ts @ [w])"

lemma class_list_append: "class_list (s @ '' '' @ t) = class_list s @ class_list t"
  using split_on_append2 [of "CHR '' ''" "rclass s" "rclass t"] by (simp add: class_list_def rclass_def)

lemma class_list_Nil [simp]: "class_list [] = []"
  by (simp add: class_list_def rclass_def)

lemma class_list_word: "w \<noteq> [] \<Longrightarrow> \<forall>c\<in>set w. \<not> is_ws c \<Longrightarrow> class_list w = [w]"
proof -
  assume w: "w \<noteq> []" "\<forall>c\<in>set w. \<not> is_ws c"
  then have "rclass w = w" unfolding rclass_def by (intro map_idI) (auto simp: is_ws_def)
  moreover have "CHR '' '' \<notin> set w" using w(2) by (auto simp: is_ws_def)
  ultimately show ?thesis using w(1) by (simp add: class_list_def split_on_no_sep)
qed

lemma class_list_parts: "plain_class s \<Longrightarrow> w \<in> set (class_list s) \<Longrightarrow> w \<noteq> [] \<and> (\<forall>c\<in>set w. \<not> is_ws c)"
proof -
  assume s: "plain_class s" and w: "w \<in> set (class_list s)"
  then have "w \<in> set (split_on (CHR '' '') (rclass s))" by (simp add: class_list_def)
  then have "CHR '' '' \<notin> set w" "set w \<subseteq> set (rclass s)" by (rule split_parts, rule split_on_set)
  moreover have "c = CHR '' ''" if "c \<in> set (rclass s)" "is_ws c" for c
    using that s by (auto simp: rclass_def plain_class_def split: if_splits)
  ultimately show ?thesis using w by (auto simp: class_list_def)
qed

lemma class_list_padded:
  assumes "\<forall>t\<in>set ts. \<forall>c\<in>set t. \<not> is_ws c"
  shows "class_list (padded ts) = filter (\<lambda>t. t \<noteq> []) ts"
  using assms
proof (induction ts rule: rev_induct)
  case Nil
  then show ?case by (simp add: class_list_def rclass_def)
next
  case (snoc t ts)
  have "class_list (padded (ts @ [t])) = class_list (padded ts @ t) "
    using class_list_append [of "padded ts @ t" "[]"] by (simp add: padded_snoc)
  also have "\<dots> = class_list (padded ts) @ class_list t"
  proof -
    obtain u where "padded ts = u @ '' ''" by (simp add: padded_def)
    then show ?thesis using class_list_append [of u t] class_list_append [of u "[]"] by simp
  qed
  finally show ?case using snoc class_list_word [of t] by (cases "t = []") simp_all
qed

lemma class_list_trim: "\<forall>c\<in>set s. is_ws c \<longrightarrow> c = CHR '' '' \<Longrightarrow> class_list (trim s) = class_list s"
proof -
  have l: "class_list (dropWhile is_ws t) = class_list t" if "\<forall>c\<in>set t. is_ws c \<longrightarrow> c = CHR '' ''" for t
    using that
  proof (induction t)
    case (Cons c t)
    then show ?case using class_list_append [of "[]" t] by (cases "is_ws c") auto
  qed simp
  have r: "class_list (rev (dropWhile is_ws (rev t))) = class_list t" if "\<forall>c\<in>set t. is_ws c \<longrightarrow> c = CHR '' ''" for t
    using that
  proof (induction t rule: rev_induct)
    case (snoc c t)
    then show ?case using class_list_append [of t "[]"] by (cases "is_ws c") auto
  qed simp
  assume s: "\<forall>c\<in>set s. is_ws c \<longrightarrow> c = CHR '' ''"
  then have "\<forall>c\<in>set (dropWhile is_ws s). is_ws c \<longrightarrow> c = CHR '' ''" by (auto dest: set_dropWhileD)
  from r [OF this] l [OF s] show ?thesis by (simp add: trim_def trim_start_def)
qed

lemma padded_form:
  assumes "plain_class s"
  shows "\<exists>ts. (if s \<noteq> [] then rclass ('' '' @ s @ '' '') else '' '') = padded ts \<and>
    (\<forall>t\<in>set ts. \<forall>c\<in>set t. \<not> is_ws c) \<and> filter (\<lambda>t. t \<noteq> []) ts = class_list s"
proof (cases "s = []")
  case True
  then show ?thesis by (intro exI [of _ "[]"]) simp
next
  case False
  let ?ts = "split_on (CHR '' '') (rclass s)"
  have "rclass ('' '' @ s @ '' '') = padded ?ts" unfolding padded_split by (simp add: rclass_def)
  moreover have "\<forall>c\<in>set t. \<not> is_ws c" if "t \<in> set ?ts" for t
    using that class_list_parts [OF assms, of t] by (cases "t = []") (simp_all add: class_list_def)
  ultimately show ?thesis using False by (intro exI [of _ ?ts]) (simp add: class_list_def)
qed

lemma ws_free: "\<forall>t\<in>set ts. \<forall>c\<in>set t. \<not> is_ws c \<Longrightarrow> \<forall>t\<in>set ts. CHR '' '' \<notin> set t"
  by (auto simp: is_ws_def)

lemma add_words:
  assumes "\<forall>t\<in>set ts. \<forall>c\<in>set t. \<not> is_ws c" "\<forall>w\<in>set ws. \<forall>c\<in>set w. \<not> is_ws c"
  shows "foldl add_word (padded ts) ws = padded (foldl add_item ts ws) \<and> (\<forall>t\<in>set (foldl add_item ts ws). \<forall>c\<in>set t. \<not> is_ws c)"
  using assms
proof (induction ws arbitrary: ts)
  case (Cons w ws)
  have "add_word (padded ts) w = padded (add_item ts w)"
    using word_in_padded [of w ts] ws_free [of "[w]"] ws_free [OF Cons.prems(1)] Cons.prems(2) by (simp add: add_word_def add_item_def padded_snoc)
  moreover have "\<forall>t\<in>set (add_item ts w). \<forall>c\<in>set t. \<not> is_ws c" using Cons.prems by (simp add: add_item_def)
  ultimately show ?case using Cons.IH Cons.prems(2) by simp
qed simp

lemma remove_padded:
  assumes "\<forall>t\<in>set ts. CHR '' '' \<notin> set t" "CHR '' '' \<notin> set w"
  shows "remove_word (padded ts) w = padded (filter (\<lambda>t. t \<noteq> w) ts)"
  using assms(1)
proof (induction "length ts" arbitrary: ts rule: less_induct)
  case less
  show ?case
  proof (cases "w \<in> set ts")
    case True
    have f: "filter (\<lambda>t. t \<noteq> w) (remove1 w ts) = filter (\<lambda>t. t \<noteq> w) ts" by (induction ts) auto
    have "length (remove1 w ts) < length ts" using length_pos_if_in_set [OF True] True by (simp add: length_remove1)
    moreover have "\<forall>t\<in>set (remove1 w ts). CHR '' '' \<notin> set t" using less.prems set_remove1_subset [of w ts] by blast
    ultimately have "remove_word (padded (remove1 w ts)) w = padded (filter (\<lambda>t. t \<noteq> w) (remove1 w ts))" by (rule less.hyps)
    then show ?thesis
      using True word_in_padded [OF assms(2) less.prems] replace_padded [OF assms(2) less.prems True]
      unfolding f by (subst remove_word.simps) simp
  next
    case False
    then have "filter (\<lambda>t. t \<noteq> w) ts = ts" by (simp add: filter_id_conv) blast
    then show ?thesis using False word_in_padded [OF assms(2) less.prems] by (subst remove_word.simps) simp
  qed
qed

lemma remove_words:
  assumes "\<forall>t\<in>set ts. \<forall>c\<in>set t. \<not> is_ws c" "\<forall>w\<in>set ws. \<forall>c\<in>set w. \<not> is_ws c"
  shows "foldl remove_word (padded ts) ws = padded (filter (\<lambda>t. t \<notin> set ws) ts)"
  using assms
proof (induction ws arbitrary: ts)
  case (Cons w ws)
  have "remove_word (padded ts) w = padded (filter (\<lambda>t. t \<noteq> w) ts)"
    using ws_free [of "[w]"] Cons.prems by (intro remove_padded ws_free) auto
  moreover have "\<forall>t\<in>set (filter (\<lambda>t. t \<noteq> w) ts). \<forall>c\<in>set t. \<not> is_ws c" using Cons.prems by auto
  ultimately show ?case using Cons by (simp add: conj_commute)
qed simp

lemma trim_padded:
  assumes "\<forall>t\<in>set ts. \<forall>c\<in>set t. \<not> is_ws c"
  shows "class_list (trim (padded ts)) = filter (\<lambda>t. t \<noteq> []) ts"
proof -
  have "\<forall>c\<in>set (padded ts). is_ws c \<longrightarrow> c = CHR '' ''" using assms by (auto simp: padded_def)
  from class_list_trim [OF this] class_list_padded [OF assms] show ?thesis by simp
qed

lemma filter_add_items: "\<forall>w\<in>set ws. w \<noteq> [] \<Longrightarrow> filter (\<lambda>t. t \<noteq> []) (foldl add_item ts ws) = foldl add_item (filter (\<lambda>t. t \<noteq> []) ts) ws"
proof (induction ws arbitrary: ts)
  case (Cons w ws)
  then have "filter (\<lambda>t. t \<noteq> []) (add_item ts w) = add_item (filter (\<lambda>t. t \<noteq> []) ts) w" by (simp add: add_item_def)
  then show ?case using Cons by simp
qed simp

lemma class_list_add:
  assumes "plain_class s"
  shows "class_list (addClass v s) = foldl add_item (class_list s) (class_words v)"
proof (cases "v = []")
  case True
  then show ?thesis by (simp add: addClass_def class_words_eq words.simps [of _ "[]"])
next
  case False
  obtain ts where ts: "(if s \<noteq> [] then rclass ('' '' @ s @ '' '') else '' '') = padded ts"
      "\<forall>t\<in>set ts. \<forall>c\<in>set t. \<not> is_ws c" "filter (\<lambda>t. t \<noteq> []) ts = class_list s"
    using padded_form [OF assms] by blast
  have w: "\<forall>w\<in>set (class_words v). \<forall>c\<in>set w. \<not> is_ws c" "\<forall>w\<in>set (class_words v). w \<noteq> []" using class_words_parts by blast+
  show ?thesis
    using False add_words [OF ts(2) w(1)] filter_add_items [OF w(2), of ts]
    unfolding addClass_def Let_def ts(1) by (simp add: trim_padded ts(3))
qed

lemma class_list_remove:
  assumes "plain_class s"
  shows "class_list (removeClass (Some v) s) = filter (\<lambda>t. t \<notin> set (class_words v)) (class_list s)"
proof (cases "v = [] \<or> s = []")
  case True
  then show ?thesis by (auto simp: removeClass_def class_words_eq words.simps [of _ "[]"])
next
  case False
  obtain ts where ts: "rclass ('' '' @ s @ '' '') = padded ts"
      "\<forall>t\<in>set ts. \<forall>c\<in>set t. \<not> is_ws c" "filter (\<lambda>t. t \<noteq> []) ts = class_list s"
    using padded_form [OF assms] False by auto
  have w: "\<forall>w\<in>set (class_words v). \<forall>c\<in>set w. \<not> is_ws c" using class_words_parts by blast
  have f: "\<forall>t\<in>set (filter (\<lambda>t. t \<notin> set (class_words v)) ts). \<forall>c\<in>set t. \<not> is_ws c" using ts(2) by auto
  have "padded ts \<noteq> []" by (simp add: padded_def)
  then show ?thesis
    using False remove_words [OF ts(2) w] trim_padded [OF f] ts(3)
    unfolding removeClass_def option.case Let_def if_P [OF conjunct2 [OF False [unfolded de_Morgan_disj]]] ts(1)
    by (simp add: conj_commute filter_filter [symmetric])
qed

lemma has_class:
  assumes "plain_class s" "w \<noteq> []" "CHR '' '' \<notin> set w"
  shows "hasClass w s \<longleftrightarrow> w \<in> set (class_list s)"
proof -
  let ?ts = "split_on (CHR '' '') (rclass s)"
  have "rclass ('' '' @ s @ '' '') = padded ?ts" unfolding padded_split by (simp add: rclass_def)
  then show ?thesis
    using word_in_padded [OF assms(3), of ?ts] split_parts assms(2) by (auto simp: hasClass_def class_list_def)
qed

subsection \<open>Setting a mode\<close>

text \<open>A class that is a mode of the group.\<close>

definition in_group :: "string \<Rightarrow> string \<Rightarrow> bool" where
  "in_group grp t \<longleftrightarrow> suffix (''_'' @ grp) t \<and> Suc (length grp) < length t \<and> (\<forall>c\<in>set t. is_word c)"

lemma runs_verbatim: "runs (verbatim w) p s = (if take (length w) s = w then [(w, [])] else [])"
proof (induction w arbitrary: p s)
  case (Cons d w)
  show ?case by (cases s) (auto simp: Cons.IH)
next
  case Nil
  have "takeWhile (\<lambda>c. False) s = []" by (cases s) simp_all
  then show ?case by simp
qed

lemma runs_mode_end: "runs (Cat (verbatim w) (Or (One is_ws) AtEnd)) p s =
  (if take (length w) s = w then (case drop (length w) s of [] \<Rightarrow> [(w, [])] | c # t \<Rightarrow> if is_ws c then [(w @ [c], [])] else []) else [])"
  by (auto simp: runs_verbatim split: list.split)

lemma runs_repeat: "runs (Cat (Many n P) q) p s =
  concat (map (\<lambda>i. map (\<lambda>(m, g). (take i s @ m, g)) (runs q (before p (take i s)) (drop i s))) (rev [n..<Suc (length (takeWhile P s))]))"
  by (simp add: comp_def del: upt_Suc)

lemma longest_run:
  assumes "\<And>j. k < j \<Longrightarrow> j \<le> m \<Longrightarrow> f j = []" "n \<le> k" "k \<le> m"
  shows "concat (map f (rev [n..<Suc m])) = f k @ concat (map f (rev [n..<k]))"
  using assms(1,3)
proof (induction m)
  case 0
  then show ?case using assms(2) by simp
next
  case (Suc m)
  show ?case
  proof (cases "k = Suc m")
    case True
    then show ?thesis using assms(2) by simp
  next
    case False
    then have "f (Suc m) = []" "concat (map f (rev [n..<Suc m])) = f k @ concat (map f (rev [n..<k]))" using Suc by simp_all
    moreover have "n \<le> Suc m" using assms(2) Suc.prems(2) by simp
    ultimately show ?thesis by simp
  qed
qed

text \<open>A class of the group at the beginning of a text is matched with the blank behind it.\<close>

lemma word_not_ws: "is_word c \<Longrightarrow> \<not> is_ws c"
  by (auto simp: is_word_def is_ws_def Let_def)

lemma word_prefix:
  assumes "\<forall>c\<in>set w. is_word c" "take (length w) (d @ r) = w" "r = [] \<or> hd r = CHR '' ''"
  shows "length w \<le> length d \<and> take (length w) d = w"
proof -
  have l: "length w \<le> length d"
  proof (rule ccontr)
    assume n: "\<not> length w \<le> length d"
    have "length w \<le> length (d @ r)" using assms(2) by (metis length_take min.absorb_iff2 nat_le_linear min_def)
    then have "r \<noteq> []" using n by auto
    have "w ! length d = (d @ r) ! length d" using assms(2) n by (metis not_le nth_take)
    also have "\<dots> = CHR '' ''" using \<open>r \<noteq> []\<close> assms(3) by (simp add: nth_append hd_conv_nth)
    finally have "is_word (CHR '' '')" using assms(1) n nth_mem [of "length d" w] by simp
    then show False by (simp add: is_word_def)
  qed
  with assms(2) show ?thesis by simp
qed

lemma runs_mode:
  assumes "in_group grp t" "r = [] \<or> hd r = CHR '' ''"
  shows "\<exists>ws. runs (mode_class grp) p (t @ r) = (t @ take 1 r, []) # ws"
proof -
  obtain st where st: "t = st @ ''_'' @ grp" using assms(1) by (auto simp: in_group_def suffix_def)
  have w: "\<forall>c\<in>set t. is_word c" using assms(1) by (simp add: in_group_def)
  have r: "takeWhile is_word r = []" using assms(2) by (cases r) (auto simp: is_word_def)
  have tw: "takeWhile is_word (t @ r) = t" using w r by simp
  define f where "f i = map (\<lambda>(m, g). (take i (t @ r) @ m, g))
      (runs (Cat (verbatim (CHR ''_'' # grp)) (Or (One is_ws) AtEnd)) (before p (take i (t @ r))) (drop i (t @ r)))" for i
  have short: "f i = []" if i: "length st < i" "i \<le> length t" for i
  proof -
    have "take (length (CHR ''_'' # grp)) (drop i t @ r) \<noteq> CHR ''_'' # grp"
    proof
      assume a: "take (length (CHR ''_'' # grp)) (drop i t @ r) = CHR ''_'' # grp"
      have "\<forall>c\<in>set (CHR ''_'' # grp). is_word c" using w st by auto
      from conjunct1 [OF word_prefix [OF this a assms(2)]] show False using i st by simp
    qed
    moreover have "drop i (t @ r) = drop i t @ r" using i by simp
    ultimately show ?thesis unfolding f_def runs_mode_end by simp
  qed
  have here: "f (length st) = [(t @ take 1 r, [])]"
    unfolding f_def runs_mode_end st using assms(2) by (cases r) (simp_all add: is_ws_def)
  have "runs (mode_class grp) p (t @ r) = concat (map f (rev [1..<Suc (length t)]))"
    unfolding mode_class_def runs_repeat tw f_def ..
  also have "\<dots> = f (length st) @ concat (map f (rev [1..<length st]))"
    using short st assms(1) by (intro longest_run) (auto simp: in_group_def Suc_le_eq)
  finally show ?thesis unfolding here by simp
qed

lemma no_mode_here:
  assumes "\<not> suffix (''_'' @ grp) t" "\<forall>c\<in>set grp. is_word c" "\<forall>c\<in>set t. \<not> is_ws c" "r = [] \<or> hd r = CHR '' ''"
  shows "runs (mode_class grp) p (t @ r) = []"
proof -
  define f where "f i = map (\<lambda>(m, g). (take i (t @ r) @ m, g))
      (runs (Cat (verbatim (CHR ''_'' # grp)) (Or (One is_ws) AtEnd)) (before p (take i (t @ r))) (drop i (t @ r)))" for i
  have r: "takeWhile is_word r = []" using assms(4) by (cases r) (auto simp: is_word_def)
  have l: "length (takeWhile is_word (t @ r)) \<le> length t"
    using r length_takeWhile_le [of is_word t] by (cases "\<forall>c\<in>set t. is_word c") (auto simp: takeWhile_append)
  have "f i = []" if "i \<le> length t" for i
  proof (cases "take (length (CHR ''_'' # grp)) (drop i t @ r) = CHR ''_'' # grp")
    case True
    let ?u = "CHR ''_'' # grp"
    have "\<forall>c\<in>set ?u. is_word c" using assms(2) by (simp add: is_word_def)
    from word_prefix [OF this True assms(4)] have u: "length ?u \<le> length (drop i t)" "take (length ?u) (drop i t) = ?u" by simp_all
    let ?v = "drop (length ?u) (drop i t)"
    have "?v \<noteq> []"
    proof
      assume "?v = []"
      then have "drop i t = ?u" using u(2) by (metis append_Nil2 append_take_drop_id)
      then have "suffix ?u t" by (metis suffix_drop)
      with assms(1) show False by simp
    qed
    then obtain c v where cv: "?v = c # v" by (cases ?v) auto
    then have "c \<in> set t" by (metis in_set_dropD list.set_intros(1))
    moreover have "drop (length ?u) (drop i t @ r) = c # v @ r" using u(1) cv by simp
    moreover have "drop i (t @ r) = drop i t @ r" using that by simp
    ultimately show ?thesis using assms(3) True unfolding f_def runs_mode_end by simp
  next
    case False
    moreover have "drop i (t @ r) = drop i t @ r" using that by simp
    ultimately show ?thesis unfolding f_def runs_mode_end by simp
  qed
  moreover have "runs (mode_class grp) p (t @ r) = concat (map f (rev [1..<Suc (length (takeWhile is_word (t @ r)))]))"
    unfolding mode_class_def runs_repeat f_def ..
  ultimately show ?thesis using l by (auto simp: concat_eq_Nil_conv)
qed

text \<open>What is left of a list of classes, with its blanks, when the modes of a group are taken out.\<close>

fun strip :: "string \<Rightarrow> string list \<Rightarrow> string list" where
  "strip grp [] = []"
| "strip grp [t] = [if in_group grp t then [] else t]"
| "strip grp (t # u # ts) = (if in_group grp t then strip grp (u # ts) else t # strip grp (u # ts))"

definition tokens_ok :: "string \<Rightarrow> string list \<Rightarrow> bool" where
  "tokens_ok grp ts \<longleftrightarrow> (\<forall>t\<in>set ts. (\<forall>c\<in>set t. \<not> is_ws c) \<and> (suffix (''_'' @ grp) t \<longrightarrow> in_group grp t))"

lemma exec_skip:
  assumes "\<not> suffix (''_'' @ grp) t" "\<forall>c\<in>set grp. is_word c" "\<forall>c\<in>set t. \<not> is_ws c" "r = [] \<or> hd r = CHR '' ''"
  shows "exec (mode_class grp) p (t @ r) =
    (case exec (mode_class grp) (before p t) r of None \<Rightarrow> None | Some (b, m, g, a) \<Rightarrow> Some (t @ b, m, g, a))"
  using assms(1,3)
proof (induction t arbitrary: p)
  case Nil
  then show ?case by (simp add: before_def split: option.split)
next
  case (Cons c t)
  have "runs (mode_class grp) p ((c # t) @ r) = []" by (rule no_mode_here [OF Cons.prems(1) assms(2) Cons.prems(2) assms(4)])
  moreover have "\<not> suffix (''_'' @ grp) t" using Cons.prems(1) by (auto simp: suffix_Cons)
  ultimately show ?case using Cons.IH [of "Some c"] Cons.prems(2) by (simp add: before_Cons split: option.split)
qed

lemma exec_blank: "exec (mode_class grp) p (CHR '' '' # r) =
    (case exec (mode_class grp) (Some (CHR '' '')) r of None \<Rightarrow> None | Some (b, m, g, a) \<Rightarrow> Some (CHR '' '' # b, m, g, a))"
  by (simp add: mode_class_def is_word_def)

lemma replace_all_shift:
  assumes "exec r p (u @ s) = (case exec r q s of None \<Rightarrow> None | Some (b, m, g, a) \<Rightarrow> Some (u @ b, m, g, a))"
  shows "replace_all r t p (u @ s) = u @ replace_all r t q s"
  by (simp add: replace_all.simps [of r t p "u @ s"] replace_all.simps [of r t q s] assms split: option.split list.split)

lemma strip_not_Nil: "ts \<noteq> [] \<Longrightarrow> strip grp ts \<noteq> []"
  by (induction grp ts rule: strip.induct) auto

lemma runs_mode_Nil [simp]: "runs (mode_class grp) p [] = []"
  by (simp add: mode_class_def)

lemma replace_mode_Nil [simp]: "replace_all (mode_class grp) v p [] = []"
  by (simp add: replace_all.simps)

lemma replace_modes:
  assumes "tokens_ok grp ts" "\<forall>c\<in>set grp. is_word c"
  shows "replace_all (mode_class grp) [] p (join '' '' ts) = join '' '' (strip grp ts)"
  using assms
proof (induction grp ts arbitrary: p rule: strip.induct)
  case (1 grp)
  show ?case by simp
next
  case (2 grp t)
  show ?case
  proof (cases "in_group grp t")
    case True
    obtain ws where "runs (mode_class grp) p t = (t, []) # ws" using runs_mode [OF True, of "[]" p] by auto
    then have "exec (mode_class grp) p t = Some ([], t, [], [])" by (simp add: exec_here)
    moreover have "t \<noteq> []" using True by (auto simp: in_group_def)
    ultimately show ?thesis using True by (simp add: replace_all.simps [of _ _ p t])
  next
    case False
    then have "exec (mode_class grp) p t = None" using exec_skip [of grp t "[]" p] 2 by (simp add: tokens_ok_def)
    then show ?thesis using False by (simp add: replace_all.simps [of _ _ p t])
  qed
next
  case (3 grp t u ts)
  let ?r = "join '' '' (u # ts)"
  have ok: "tokens_ok grp (u # ts)" "\<forall>c\<in>set t. \<not> is_ws c" "suffix (''_'' @ grp) t \<longrightarrow> in_group grp t"
    using 3(3) by (simp_all add: tokens_ok_def)
  show ?case
  proof (cases "in_group grp t")
    case True
    obtain ws where "runs (mode_class grp) p (t @ '' '' @ ?r) = (t @ '' '', []) # ws" using runs_mode [OF True, of "'' '' @ ?r" p] by auto
    then have "exec (mode_class grp) p (t @ '' '' @ ?r) = Some ([], t @ '' '', [], ?r)" using exec_here by fastforce
    then have "replace_all (mode_class grp) [] p (t @ '' '' @ ?r) = replace_all (mode_class grp) [] (Some (CHR '' '')) ?r"
      by (subst replace_all.simps) simp
    then show ?thesis using 3(1) [OF True ok(1) 3(4)] True by simp
  next
    case False
    have "exec (mode_class grp) p ((t @ '' '') @ ?r) = (case exec (mode_class grp) (Some (CHR '' '')) ?r of
        None \<Rightarrow> None | Some (b, m, g, a) \<Rightarrow> Some ((t @ '' '') @ b, m, g, a))"
      using exec_skip [of grp t "'' '' @ ?r" p] False ok 3(4) by (simp add: exec_blank split: option.split del: join.simps exec.simps)
    from replace_all_shift [OF this] 3(2) [OF False ok(1) 3(4)] False
    show ?thesis by (simp add: join_Cons [OF strip_not_Nil] del: strip.simps(3)) (simp add: join_Cons strip_not_Nil)
  qed
qed

text \<open>Replacing two blanks by one leaves the list of classes as it is.\<close>

definition blanks_only :: "string \<Rightarrow> bool" where
  "blanks_only s \<longleftrightarrow> (\<forall>c\<in>set s. is_ws c \<longrightarrow> c = CHR '' '')"

lemma runs_two: "runs (Cat (One is_ws) (One is_ws)) p s = (case s of a # b # t \<Rightarrow> if is_ws a \<and> is_ws b then [([a, b], [])] else [] | _ \<Rightarrow> [])"
  by (auto split: list.split)

lemma squeeze: "blanks_only s \<Longrightarrow> class_list (replace_all (Cat (One is_ws) (One is_ws)) '' '' p s) = class_list s"
proof (induction "length s" arbitrary: p s rule: less_induct)
  case less
  let ?re = "Cat (One is_ws) (One is_ws)"
  show ?case
  proof (cases "exec ?re p s")
    case None
    then show ?thesis by (simp add: replace_all.simps [of _ _ p s])
  next
    case (Some x)
    obtain b m g a where x: "x = (b, m, g, a)" by (cases x)
    have parts: "s = b @ m @ a" using exec_parts Some x by metis
    have "(m, g) \<in> set (runs ?re (before p b) (m @ a))" using exec_some Some x by metis
    then obtain c d where m: "m = [c, d]" "is_ws c" "is_ws d" unfolding runs_two by (auto split: list.splits if_splits)
    then have "m = ''  ''" using less.prems parts by (simp add: blanks_only_def)
    moreover have "class_list (replace_all ?re '' '' (Some (CHR '' '')) a) = class_list a"
      using less.prems parts m(1) by (intro less.hyps) (simp_all add: blanks_only_def)
    ultimately show ?thesis
      using Some x parts class_list_append [of b] class_list_append [of "[]" a] class_list_append [of b "'' '' @ a"]
      by (subst replace_all.simps) simp
  qed
qed

lemma join_class_list: "\<forall>t\<in>set ts. \<forall>c\<in>set t. \<not> is_ws c \<Longrightarrow> class_list (join '' '' ts) = filter (\<lambda>t. t \<noteq> []) ts"
proof (induction ts)
  case (Cons t ts)
  show ?case
  proof (cases "ts = []")
    case True
    then show ?thesis using Cons.prems class_list_word [of t] by (cases "t = []") simp_all
  next
    case False
    then show ?thesis
      using Cons class_list_append [of t "join '' '' ts"] class_list_word [of t] by (cases "t = []") (simp_all add: join_Cons)
  qed
qed simp

lemma strip_parts: "set (strip grp ts) \<subseteq> insert [] (set ts)"
  by (induction grp ts rule: strip.induct) auto

lemma strip_filter: "filter (\<lambda>t. t \<noteq> []) (strip grp ts) = filter (\<lambda>t. \<not> in_group grp t) (filter (\<lambda>t. t \<noteq> []) ts)"
  by (induction grp ts rule: strip.induct) (auto simp: in_group_def)

lemma class_list_mode:
  assumes "blanks_only s" "\<forall>c\<in>set grp. is_word c" "\<forall>c\<in>set m. is_word c"
    "\<forall>t\<in>set (class_list s). suffix (''_'' @ grp) t \<longrightarrow> in_group grp t"
  shows "class_list (set_mode (Some m) grp s) = filter (\<lambda>t. \<not> in_group grp t) (class_list s) @ [m @ ''_'' @ grp]"
proof -
  let ?ts = "split_on (CHR '' '') s"
  have parts: "\<forall>t\<in>set ?ts. \<forall>c\<in>set t. \<not> is_ws c"
    using assms(1) split_on_set [of _ "CHR '' ''" s] split_parts [of _ "CHR '' ''" s] by (fastforce simp: blanks_only_def)
  have rs: "rclass s = s" unfolding rclass_def using assms(1) by (intro map_idI) (auto simp: blanks_only_def is_ws_def)
  then have cl: "class_list s = filter (\<lambda>t. t \<noteq> []) ?ts" by (simp add: class_list_def)
  have "tokens_ok grp ?ts" using parts assms(4) unfolding cl by (auto simp: tokens_ok_def)
  from replace_modes [OF this assms(2), of None]
  have r: "replace_all (mode_class grp) [] None s = join '' '' (strip grp ?ts)" by (simp add: split_join)
  have p2: "\<forall>t\<in>set (strip grp ?ts). \<forall>c\<in>set t. \<not> is_ws c" using parts strip_parts [of grp ?ts] by fastforce
  then have "blanks_only (join '' '' (strip grp ?ts))" using set_join [of "'' ''" "strip grp ?ts"] by (fastforce simp: blanks_only_def)
  moreover have md: "\<forall>c\<in>set (m @ ''_'' @ grp). \<not> is_ws c" using assms(2,3) word_not_ws by (auto simp: is_ws_def)
  ultimately have "blanks_only (join '' '' (strip grp ?ts) @ '' '' @ m @ ''_'' @ grp)" by (auto simp: blanks_only_def)
  from squeeze [OF this, of None] show ?thesis
    unfolding set_mode_def Let_def r option.case class_list_append join_class_list [OF p2] strip_filter cl
    using class_list_word [OF _ md] by simp
qed

subsection \<open>Modes of a view\<close>

text \<open>\<open>Backbone.View.prototype.setMode\<close>: the view remembers the modes that its element shows.\<close>

record mode_view =
  class_name :: string
  view_modes :: "string \<Rightarrow> string option"

definition setMode :: "string \<Rightarrow> string \<Rightarrow> mode_view \<Rightarrow> mode_view" where
  "setMode mode grp v =
     (if view_modes v grp = Some mode then v
      else v\<lparr>class_name := set_mode (Some mode) grp (class_name v), view_modes := (view_modes v)(grp := Some mode)\<rparr>)"

subsection \<open>Theorems\<close>

text \<open>Every part of a text of classes that is asked for and given is one word.\<close>

definition one_word :: "string \<Rightarrow> bool" where
  "one_word w \<longleftrightarrow> w \<noteq> [] \<and> (\<forall>c\<in>set w. \<not> is_ws c)"

lemma plain_words: "(\<forall>c\<in>set s. is_ws c \<longrightarrow> c = CHR '' '') \<Longrightarrow> plain_class s"
  by (auto simp: plain_class_def)

lemma one_word_facts: "one_word w \<Longrightarrow> w \<noteq> [] \<and> CHR '' '' \<notin> set w \<and> class_words w = [w]"
proof -
  assume w: "one_word w"
  have "is_ws (CHR '' '')" by (simp add: is_ws_def)
  then have "CHR '' '' \<notin> set w" using w unfolding one_word_def by blast
  with w class_words_single [of w] show ?thesis by (simp add: one_word_def)
qed

text \<open>
  C20. The operations on the text of the attribute are those on the list of classes that a browser
  reads from it: adding appends, in their order, the words that are not there yet, removing takes
  out all of them and nothing else, asking for a class finds it, and toggling one adds or removes it.
\<close>

theorem classes_as_list:
  assumes "plain_class s" "one_word w"
  shows "class_list (addClass v s) = foldl add_item (class_list s) (class_words v) \<and>
    class_list (removeClass (Some v) s) = filter (\<lambda>t. t \<notin> set (class_words v)) (class_list s) \<and>
    (hasClass w s \<longleftrightarrow> w \<in> set (class_list s)) \<and>
    class_list (toggleClass w None s) = (if w \<in> set (class_list s) then filter (\<lambda>t. t \<noteq> w) (class_list s) else class_list s @ [w])"
  using one_word_facts [OF assms(2)] has_class [OF assms(1), of w]
  by (simp add: class_list_add [OF assms(1)] class_list_remove [OF assms(1)] toggleClass_def add_item_def)

lemma classes_as_list_witness: "class_list (addClass ''b c'' ''a b'') = [''a'', ''b'', ''c''] \<and> hasClass ''b'' ''a b''"
proof -
  have "plain_class ''a b''" "one_word ''b''" by (simp_all add: plain_class_def one_word_def is_ws_def)
  note t = classes_as_list [OF this, of "''b c''"]
  have "class_list ''a b'' = [''a'', ''b'']" "class_words ''b c'' = [''b'', ''c'']" by code_simp+
  with t show ?thesis by (simp add: add_item_def)
qed

text \<open>The groups of modes that a view has: words, none of which ends like another.\<close>

definition groups_ok :: "string set \<Rightarrow> bool" where
  "groups_ok G \<longleftrightarrow> (\<forall>g\<in>G. \<forall>c\<in>set g. is_word c) \<and> (\<forall>g\<in>G. \<forall>h\<in>G. g \<noteq> h \<longrightarrow> \<not> suffix (''_'' @ g) (''_'' @ h))"

definition mode_name :: "string \<Rightarrow> bool" where
  "mode_name m \<longleftrightarrow> m \<noteq> [] \<and> (\<forall>c\<in>set m. is_word c)"

lemma word_underscore [simp]: "is_word (CHR ''_'')"
  by (simp add: is_word_def)

lemma mode_in_group: "mode_name m \<Longrightarrow> \<forall>c\<in>set g. is_word c \<Longrightarrow> in_group g (m @ ''_'' @ g)"
  by (simp add: in_group_def mode_name_def ball_Un suffix_appendI)

lemma group_unique:
  assumes "groups_ok G" "g \<in> G" "h \<in> G" "g \<noteq> h" "suffix (''_'' @ g) t"
  shows "\<not> suffix (''_'' @ h) t"
proof
  assume "suffix (''_'' @ h) t"
  with assms(5) have "suffix (''_'' @ h) (''_'' @ g) \<or> suffix (''_'' @ g) (''_'' @ h)" using suffix_same_cases by blast
  with assms(1-4) show False unfolding groups_ok_def by metis
qed

lemma set_replace_all: "set (replace_all r t p s) \<subseteq> set t \<union> set s"
proof (induction r t p s rule: replace_all.induct)
  case (1 r t p s)
  show ?case
  proof (cases "exec r p s")
    case None
    then show ?thesis by (simp add: replace_all.simps [of r t p s])
  next
    case (Some x)
    obtain b m g a where x: "x = (b, m, g, a)" by (cases x)
    note IH = 1 [OF Some [unfolded x] refl refl refl]
    have s: "s = b @ m @ a" using exec_parts Some x by metis
    have "replace_all r t p s = (if m \<noteq> [] then b @ t @ replace_all r t (Some (last m)) a
        else (case a of [] \<Rightarrow> b @ t | c # a' \<Rightarrow> b @ t @ c # replace_all r t (Some c) a'))"
      by (subst replace_all.simps) (simp add: Some x)
    then show ?thesis using IH s by (cases "m = []"; cases a) auto
  qed
qed

lemma set_mode_blanks: "blanks_only s \<Longrightarrow> \<forall>c\<in>set (m @ g). is_word c \<Longrightarrow> blanks_only (set_mode (Some m) g s)"
proof -
  assume s: "blanks_only s" and w: "\<forall>c\<in>set (m @ g). is_word c"
  have "set (set_mode (Some m) g s) \<subseteq> {CHR '' '', CHR ''_''} \<union> set (m @ g) \<union> set s"
    using set_replace_all [of "Cat (One is_ws) (One is_ws)" "'' ''" None "replace_all (mode_class g) [] None s @ '' '' @ m @ ''_'' @ g"]
      set_replace_all [of "mode_class g" "[]" None s]
    by (auto simp: set_mode_def)
  moreover have "\<not> is_ws c" if "c \<in> {CHR ''_''} \<union> set (m @ g)" for c using that w word_not_ws word_underscore by blast
  ultimately show ?thesis using s unfolding blanks_only_def by blast
qed

text \<open>What the attribute of a view shows: its own classes and for every group the mode that the view remembers.\<close>

definition mode_classes :: "string set \<Rightarrow> string list \<Rightarrow> mode_view \<Rightarrow> bool" where
  "mode_classes G base v \<longleftrightarrow> blanks_only (class_name v) \<and>
     filter (\<lambda>t. \<forall>g\<in>G. \<not> in_group g t) (class_list (class_name v)) = base \<and>
     (\<forall>g\<in>G. (\<forall>t\<in>set (class_list (class_name v)). suffix (''_'' @ g) t \<longrightarrow> in_group g t) \<and>
       filter (in_group g) (class_list (class_name v)) = (case view_modes v g of None \<Rightarrow> [] | Some m \<Rightarrow> [m @ ''_'' @ g]))"

lemma setMode_classes:
  assumes G: "groups_ok G" "g \<in> G" and m: "mode_name m" and v: "mode_classes G base v"
  shows "mode_classes G base (setMode m g v)"
proof (cases "view_modes v g = Some m")
  case True
  with v show ?thesis by (simp add: setMode_def)
next
  case False
  let ?cl = "class_list (class_name v)" and ?m = "m @ ''_'' @ g"
  have gw: "\<forall>c\<in>set g. is_word c" using G by (simp add: groups_ok_def)
  have mw: "\<forall>c\<in>set m. is_word c" using m by (simp add: mode_name_def)
  have v': "blanks_only (class_name v)" "\<forall>t\<in>set ?cl. suffix (''_'' @ g) t \<longrightarrow> in_group g t"
    using v G(2) by (simp_all add: mode_classes_def)
  have c: "class_list (set_mode (Some m) g (class_name v)) = filter (\<lambda>t. \<not> in_group g t) ?cl @ [?m]"
    by (rule class_list_mode [OF v'(1) gw mw v'(2)])
  have i: "in_group g ?m" by (rule mode_in_group [OF m gw])
  have o: "\<not> suffix (''_'' @ h) ?m" "\<not> in_group h ?m" if "h \<in> G" "h \<noteq> g" for h
    using group_unique [OF G that(1) that(2) [symmetric], of ?m] i by (auto simp: in_group_def)
  have b: "blanks_only (set_mode (Some m) g (class_name v))" using v'(1) gw mw by (intro set_mode_blanks) auto
  have "filter (\<lambda>t. \<forall>h\<in>G. \<not> in_group h t) (filter (\<lambda>t. \<not> in_group g t) ?cl @ [?m]) = base"
    using v G(2) i by (auto simp: mode_classes_def intro!: filter_cong)
  moreover have "filter (in_group h) (filter (\<lambda>t. \<not> in_group g t) ?cl) = filter (in_group h) ?cl" if "h \<in> G" "h \<noteq> g" for h
    using group_unique [OF G(1) that(1) G(2) that(2)] by (auto simp: in_group_def intro!: filter_cong)
  ultimately show ?thesis
    using False b c v i o by (auto simp: mode_classes_def setMode_def)
qed

text \<open>
  C21. The attribute of a view shows its modes: whatever modes are set, in whatever order, the
  element keeps its own classes and has for every group just the one class of the mode that the
  view remembers, or none when no mode of the group was set.
\<close>

theorem modes_are_classes:
  assumes "groups_ok G" "\<forall>(m, g)\<in>set calls. mode_name m \<and> g \<in> G"
    "blanks_only base" "\<forall>t\<in>set (class_list base). \<forall>g\<in>G. \<not> suffix (''_'' @ g) t"
    "v = foldl (\<lambda>v (m, g). setMode m g v) \<lparr>class_name = base, view_modes = \<lambda>_. None\<rparr> calls"
  shows "filter (\<lambda>t. \<forall>g\<in>G. \<not> in_group g t) (class_list (class_name v)) = class_list base \<and>
    (\<forall>g\<in>G. filter (in_group g) (class_list (class_name v)) = (case view_modes v g of None \<Rightarrow> [] | Some m \<Rightarrow> [m @ ''_'' @ g]))"
proof -
  have step: "mode_classes G (class_list base) (foldl (\<lambda>v (m, g). setMode m g v) u calls)" if "mode_classes G (class_list base) u" for u
    using assms(2) that
  proof (induction calls arbitrary: u)
    case (Cons c calls)
    then show ?case using setMode_classes [OF assms(1)] by (cases c) simp
  qed simp
  have "mode_classes G (class_list base) \<lparr>class_name = base, view_modes = \<lambda>_. None\<rparr>"
  proof -
    have "\<forall>t\<in>set (class_list base). \<forall>g\<in>G. \<not> in_group g t" using assms(4) unfolding in_group_def by blast
    then have "filter (\<lambda>t. \<forall>g\<in>G. \<not> in_group g t) (class_list base) = class_list base"
      "\<forall>g\<in>G. filter (in_group g) (class_list base) = []" by (simp_all add: filter_id_conv filter_empty_conv)
    then show ?thesis using assms(3,4) by (simp add: mode_classes_def)
  qed
  from step [OF this] have "mode_classes G (class_list base) v" unfolding assms(5) .
  then show ?thesis unfolding mode_classes_def by blast
qed

lemma modes_are_classes_witness:
  "let v = foldl (\<lambda>v (m, g). setMode m g v) \<lparr>class_name = ''search_facet'', view_modes = \<lambda>_. None\<rparr>
       [(''not'', ''editing''), (''not'', ''selected''), (''is'', ''editing'')]
   in filter (in_group ''editing'') (class_list (class_name v)) = [''is_editing''] \<and>
      filter (in_group ''selected'') (class_list (class_name v)) = [''not_selected'']"
proof -
  define v where "v = foldl (\<lambda>v (m, g). setMode m g v) \<lparr>class_name = ''search_facet'', view_modes = \<lambda>_. None\<rparr>
       [(''not'', ''editing''), (''not'', ''selected''), (''is'', ''editing'')]"
  have "groups_ok {''editing'', ''selected''}" by (simp add: groups_ok_def is_word_def suffix_to_prefix)
  moreover have "blanks_only ''search_facet''" by (simp add: blanks_only_def is_ws_def)
  moreover have "class_list ''search_facet'' = [''search_facet'']" by code_simp
  moreover have "\<not> suffix ''_editing'' ''search_facet''" "\<not> suffix ''_selected'' ''search_facet''" by code_simp+
  moreover have "mode_name ''is''" "mode_name ''not''" by code_simp+
  ultimately have "\<forall>g\<in>{''editing'', ''selected''}. filter (in_group g) (class_list (class_name v)) =
      (case view_modes v g of None \<Rightarrow> [] | Some m \<Rightarrow> [m @ ''_'' @ g])"
    by (intro conjunct2 [OF modes_are_classes [OF _ _ _ _ v_def]]) auto
  moreover have "view_modes v ''editing'' = Some ''is''" "view_modes v ''selected'' = Some ''not''" by (simp_all add: v_def setMode_def)
  ultimately show ?thesis unfolding v_def [symmetric] Let_def by simp
qed

end
