(* ===== verification/JqEvents.thy ===== *)
theory JqEvents
  imports ClassNames "HOL-Library.Char_ord" "HOL-Library.List_Lexorder" "HOL-Library.AList"
begin

text \<open>
  \<open>dependencies.js\<close>, \<open>jQuery.event\<close>: the handlers of an element by the type of the event, with name
  spaces and selectors (\<open>add\<close>, \<open>remove\<close>), which of them an event reaches and in what order
  (\<open>handlers\<close>, \<open>dispatch\<close>), and its way up the document (\<open>trigger\<close>), during which the functions called may bind and
  unbind others. The search box binds and unbinds
  its handlers by their name spaces. A function is known by its number (\<open>guid\<close>); the names of
  a name space are made of word characters, as all that the page uses are, so that they stand for
  themselves in the expression they are matched with.
\<close>

subsection \<open>State\<close>

record handle_obj =
  ho_origType :: string
  ho_guid :: nat
  ho_selector :: "string option"
  ho_namespace :: string

text \<open>\<open>events\<close> of an element: for every type the handlers and \<open>delegateCount\<close>.\<close>

type_synonym event_table = "(string \<times> handle_obj list \<times> nat) list"

subsection \<open>Types of events\<close>

definition delegateType :: "string \<Rightarrow> string option" where
  "delegateType = map_of [(''focus'', ''focusin''), (''blur'', ''focusout''), (''mouseenter'', ''mouseover''), (''mouseleave'', ''mouseout'')]"

definition bindType :: "string \<Rightarrow> string option" where
  "bindType = map_of [(''mouseenter'', ''mouseover''), (''mouseleave'', ''mouseout'')]"

text \<open>A selector that is not there or empty counts as none.\<close>

fun given :: "string option \<Rightarrow> bool" where
  "given None = False"
| "given (Some s) = (s \<noteq> [])"

definition table_type :: "string \<Rightarrow> string option \<Rightarrow> string" where
  "table_type t selector = (case if given selector then delegateType t else bindType t of None \<Rightarrow> t | Some u \<Rightarrow> u)"

text \<open>\<open>rtypenamespace\<close>: the type and what follows its first dot; a dot at the end does not match.\<close>

definition type_namespace :: "string \<Rightarrow> (string \<times> string option) option" where
  "type_namespace w =
     (case dropWhile (\<lambda>c. c \<noteq> CHR ''.'') w of
        [] \<Rightarrow> Some (w, None)
      | d # ns \<Rightarrow> if ns = [] then None else Some (takeWhile (\<lambda>c. c \<noteq> CHR ''.'') w, Some ns))"

definition namespaces :: "string option \<Rightarrow> string list" where
  "namespaces ns = sort (split_on (CHR ''.'') (case ns of None \<Rightarrow> [] | Some s \<Rightarrow> s))"

text \<open>\<open>types.match(rnotwhite) || [""]\<close>\<close>

definition type_words :: "string \<Rightarrow> string list" where
  "type_words types = (if class_words types = [] then [[]] else class_words types)"

subsection \<open>Adding\<close>

definition add_handler :: "string \<Rightarrow> nat \<Rightarrow> string option \<Rightarrow> event_table \<Rightarrow> event_table" where
  "add_handler w guid selector events =
     (case type_namespace w of
        None \<Rightarrow> events
      | Some (t, ns) \<Rightarrow>
          if t = [] then events
          else (let h = \<lparr>ho_origType = t, ho_guid = guid, ho_selector = selector, ho_namespace = join ''.'' (namespaces ns)\<rparr>;
                    (handlers, delegateCount) = (case map_of events (table_type t selector) of None \<Rightarrow> ([], 0) | Some e \<Rightarrow> e)
                in AList.update (table_type t selector)
                     (if given selector then (take delegateCount handlers @ h # drop delegateCount handlers, Suc delegateCount)
                      else (handlers @ [h], delegateCount)) events))"

definition event_add :: "string \<Rightarrow> nat \<Rightarrow> string option \<Rightarrow> event_table \<Rightarrow> event_table" where
  "event_add types guid selector events = foldr (\<lambda>w events. add_handler w guid selector events) (type_words types) events"

subsection \<open>Removing\<close>

text \<open>The expression for the names asked for: in their order, with any others between them.\<close>

definition any_or_none :: regex where
  "any_or_none = Or (Cat (Many 0 (\<lambda>c. c \<noteq> CHR 0x0A \<and> c \<noteq> CHR 0x0D)) (One (\<lambda>c. c = CHR ''.''))) (Many 0 (\<lambda>c. False))"

fun names_regex :: "string list \<Rightarrow> regex" where
  "names_regex [] = Group (Or (One (\<lambda>c. c = CHR ''.'')) AtEnd)"
| "names_regex [w] = Cat (verbatim w) (Group (Or (One (\<lambda>c. c = CHR ''.'')) AtEnd))"
| "names_regex (w # v # ws) = Cat (verbatim w) (Cat (One (\<lambda>c. c = CHR ''.'')) (Cat any_or_none (names_regex (v # ws))))"

definition namespace_regex :: "string list \<Rightarrow> regex" where
  "namespace_regex ws = Cat (Group (Or AtStart (One (\<lambda>c. c = CHR ''.'')))) (names_regex ws)"

definition is_removed :: "bool \<Rightarrow> string \<Rightarrow> string option \<Rightarrow> nat option \<Rightarrow> string option \<Rightarrow> handle_obj \<Rightarrow> bool" where
  "is_removed mapped t ns guid selector h \<longleftrightarrow>
     (mapped \<or> t = ho_origType h) \<and> (guid = None \<or> guid = Some (ho_guid h)) \<and>
     (ns = None \<or> test (namespace_regex (namespaces ns)) (ho_namespace h)) \<and>
     (\<not> given selector \<or> selector = ho_selector h \<or> (selector = Some ''**'' \<and> given (ho_selector h)))"

definition remove_handlers :: "bool \<Rightarrow> string \<Rightarrow> string option \<Rightarrow> nat option \<Rightarrow> string option \<Rightarrow> event_table \<Rightarrow> event_table" where
  "remove_handlers mapped t ns guid selector events =
     (let ty = table_type t selector
      in case map_of events ty of
           None \<Rightarrow> events
         | Some (handlers, delegateCount) \<Rightarrow>
             (let rest = filter (\<lambda>h. \<not> is_removed mapped t ns guid selector h) handlers;
                  gone = filter (is_removed mapped t ns guid selector) handlers
              in if handlers \<noteq> [] \<and> rest = [] then AList.delete ty events
                 else AList.update ty (rest, delegateCount - length (filter (\<lambda>h. given (ho_selector h)) gone)) events))"

text \<open>
  Without a type all types are visited, each by a call with the type before what was asked for. The
  number is the depth of calls that the browser allows; None is its error when they go too deep.
\<close>

fun unbind_word :: "nat \<Rightarrow> bool \<Rightarrow> nat option \<Rightarrow> string option \<Rightarrow> string \<Rightarrow> event_table \<Rightarrow> event_table option" where
  "unbind_word 0 mapped guid selector w events = None"
| "unbind_word (Suc n) mapped guid selector w events =
     (let found = (case type_namespace w of None \<Rightarrow> None | Some (t, ns) \<Rightarrow> if t = [] then None else Some (t, ns))
      in case found of
           Some (t, ns) \<Rightarrow> Some (remove_handlers mapped t ns guid selector events)
         | None \<Rightarrow> fold (\<lambda>ty r. Option.bind r (unbind_word n True guid selector (ty @ w))) (map fst events) (Some events))"

definition event_remove :: "nat \<Rightarrow> string \<Rightarrow> nat option \<Rightarrow> string option \<Rightarrow> event_table \<Rightarrow> event_table option" where
  "event_remove depth types guid selector events =
     foldr (\<lambda>w r. Option.bind r (unbind_word depth False guid selector w)) (type_words types) (Some events)"

subsection \<open>Events on their way\<close>

text \<open>
  The document: what contains an element, from the inside out, what is disabled, which elements a selector finds below
  another, and what is bound to each. The functions called may change all of this, and what else they keep, while the
  event is on its way: \<open>look\<close> is the document in a state of the page.
\<close>

record 'e page =
  ancestors :: "'e \<Rightarrow> 'e list"
  is_element :: "'e \<Rightarrow> bool"
  is_disabled :: "'e \<Rightarrow> bool"
  finds :: "'e \<Rightarrow> string \<Rightarrow> 'e \<Rightarrow> bool"
  tables :: "'e \<Rightarrow> event_table"

record 'e event =
  event_type :: string
  event_target :: 'e
  event_button :: bool
  event_related :: "'e option"
  event_namespaces :: "string list"

definition delegated :: "'e page \<Rightarrow> 'e event \<Rightarrow> 'e \<Rightarrow> handle_obj list \<Rightarrow> ('e \<times> handle_obj list) list" where
  "delegated p ev this hs =
     filter (\<lambda>(cur, ms). ms \<noteq> [])
       (map (\<lambda>cur. (cur, if is_element p cur \<and> (\<not> is_disabled p cur \<or> event_type ev \<noteq> ''click'')
                          then filter (\<lambda>h. finds p this (the (ho_selector h)) cur) hs else []))
         (takeWhile (\<lambda>cur. cur \<noteq> this) (event_target ev # ancestors p (event_target ev))))"

definition handler_queue :: "'e page \<Rightarrow> 'e event \<Rightarrow> 'e \<Rightarrow> handle_obj list \<times> nat \<Rightarrow> ('e \<times> handle_obj list) list" where
  "handler_queue p ev this handlers =
     (let (hs, delegateCount) = handlers
      in (if delegateCount > 0 \<and> (\<not> event_button ev \<or> event_type ev \<noteq> ''click'') then delegated p ev this (take delegateCount hs) else []) @
         (if delegateCount < length hs then [(this, drop delegateCount hs)] else []))"

text \<open>What a handler does to the event.\<close>

record effect =
  returns_false :: bool
  stops :: bool
  stops_at_once :: bool
  prevents :: bool

record flags =
  propagationStopped :: bool
  immediateStopped :: bool
  defaultPrevented :: bool

definition after_handler :: "effect \<Rightarrow> flags \<Rightarrow> flags" where
  "after_handler out fl =
     \<lparr>propagationStopped = (propagationStopped fl \<or> stops out \<or> stops_at_once out \<or> returns_false out),
      immediateStopped = (immediateStopped fl \<or> stops_at_once out),
      defaultPrevented = (defaultPrevented fl \<or> prevents out \<or> returns_false out)\<rparr>"

definition namespace_ok :: "'e event \<Rightarrow> handle_obj \<Rightarrow> bool" where
  "namespace_ok ev h \<longleftrightarrow> join ''.'' (event_namespaces ev) = [] \<or> test (namespace_regex (event_namespaces ev)) (ho_namespace h)"

text \<open>The handlers for entering and leaving an element are not called when the mouse comes from inside of it.\<close>

definition passed_on :: "'e page \<Rightarrow> 'e event \<Rightarrow> 'e \<Rightarrow> handle_obj \<Rightarrow> bool" where
  "passed_on p ev el h \<longleftrightarrow>
     (ho_origType h = ''mouseenter'' \<or> ho_origType h = ''mouseleave'') \<longrightarrow>
     (case event_related ev of None \<Rightarrow> True | Some r \<Rightarrow> r \<noteq> el \<and> el \<notin> set (ancestors p r))"

text \<open>
  The calls made, each with the element, the handler and what it did to the event, the event afterwards and the state of the
  page; \<open>act\<close> is what a function does. The handlers to be called for an element are listed when the event arrives
  there: binding and unbinding meanwhile does not change the list.
\<close>

type_synonym 'e call = "'e \<times> handle_obj \<times> effect"

fun run_handlers :: "('s \<Rightarrow> 'e page) \<Rightarrow> ('e \<Rightarrow> nat \<Rightarrow> 's \<Rightarrow> effect \<times> 's) \<Rightarrow> 'e event \<Rightarrow> 'e \<Rightarrow> handle_obj list \<Rightarrow> flags \<Rightarrow> 's \<Rightarrow>
    'e call list \<times> flags \<times> 's" where
  "run_handlers look act ev el [] fl s = ([], fl, s)"
| "run_handlers look act ev el (h # hs) fl s =
     (if immediateStopped fl then ([], fl, s)
      else if namespace_ok ev h \<and> passed_on (look s) ev el h
      then (let (out, s) = act el (ho_guid h) s; (calls, fl, s) = run_handlers look act ev el hs (after_handler out fl) s
            in ((el, h, out) # calls, fl, s))
      else run_handlers look act ev el hs fl s)"

fun run_queue :: "('s \<Rightarrow> 'e page) \<Rightarrow> ('e \<Rightarrow> nat \<Rightarrow> 's \<Rightarrow> effect \<times> 's) \<Rightarrow> 'e event \<Rightarrow> ('e \<times> handle_obj list) list \<Rightarrow> flags \<Rightarrow> 's \<Rightarrow>
    'e call list \<times> flags \<times> 's" where
  "run_queue look act ev [] fl s = ([], fl, s)"
| "run_queue look act ev ((el, hs) # q) fl s =
     (if propagationStopped fl then ([], fl, s)
      else (let (calls, fl, s) = run_handlers look act ev el hs fl s; (calls', fl, s) = run_queue look act ev q fl s
            in (calls @ calls', fl, s)))"

definition bound :: "'e page \<Rightarrow> 'e \<Rightarrow> string \<Rightarrow> handle_obj list \<times> nat" where
  "bound p el ty = (case map_of (tables p el) ty of None \<Rightarrow> ([], 0) | Some e \<Rightarrow> e)"

definition dispatch :: "('s \<Rightarrow> 'e page) \<Rightarrow> ('e \<Rightarrow> nat \<Rightarrow> 's \<Rightarrow> effect \<times> 's) \<Rightarrow> 'e event \<Rightarrow> 'e \<Rightarrow> flags \<Rightarrow> 's \<Rightarrow> 'e call list \<times> flags \<times> 's" where
  "dispatch look act ev this fl s =
     run_queue look act ev (handler_queue (look s) ev this (bound (look s) this (event_type ev))) fl s"

text \<open>
  An event that is triggered visits the element, with the type for its own handlers, and then what contains it,
  the document and its window included; the way is fixed at the beginning, but what is bound to an element is read when the
  event arrives there. Of each visit the element, the type, the state in which the event arrives and the calls are
  noted. Giving and taking the focus and a click come to this when the browser has not been asked to do them. Functions
  that are set as attributes of an element (\<open>onclick\<close>) are left out.
\<close>

type_synonym ('e, 's) visit = "'e \<times> string \<times> 's \<times> 'e call list"

fun visit :: "('s \<Rightarrow> 'e page) \<Rightarrow> ('e \<Rightarrow> nat \<Rightarrow> 's \<Rightarrow> effect \<times> 's) \<Rightarrow> ('e \<times> 'e event) list \<Rightarrow> flags \<Rightarrow> 's \<Rightarrow>
    ('e, 's) visit list \<times> flags \<times> 's" where
  "visit look act [] fl s = ([], fl, s)"
| "visit look act ((cur, ev) # path) fl s =
     (if propagationStopped fl then ([], fl, s)
      else (let (calls, fl, r) = dispatch look act ev cur fl s; (visits, fl, r) = visit look act path fl r
            in ((cur, event_type ev, s, calls) # visits, fl, r)))"

definition event_path :: "'e page \<Rightarrow> string \<Rightarrow> string list \<Rightarrow> bool \<Rightarrow> 'e \<Rightarrow> ('e \<times> 'e event) list" where
  "event_path p t ns onlyHandlers el =
     (let ev = (\<lambda>t. \<lparr>event_type = t, event_target = el, event_button = False, event_related = None, event_namespaces = ns\<rparr>);
          bubbleType = (case delegateType t of None \<Rightarrow> t | Some u \<Rightarrow> u)
      in (el, ev (case bindType t of None \<Rightarrow> t | Some u \<Rightarrow> u)) #
         (if onlyHandlers \<or> t = ''load'' then [] else map (\<lambda>cur. (cur, ev bubbleType)) ((if t = ''focus'' \<or> t = ''blur'' then [el] else []) @ ancestors p el)))"

definition event_trigger :: "('s \<Rightarrow> 'e page) \<Rightarrow> ('e \<Rightarrow> nat \<Rightarrow> 's \<Rightarrow> effect \<times> 's) \<Rightarrow> string \<Rightarrow> bool \<Rightarrow> 'e \<Rightarrow> 's \<Rightarrow>
    ('e, 's) visit list \<times> flags \<times> 's" where
  "event_trigger look act w onlyHandlers el s =
     (let parts = split_on (CHR ''.'') w; t = hd parts; ns = sort (tl parts)
      in visit look act (event_path (look s) t ns onlyHandlers el)
           \<lparr>propagationStopped = False, immediateStopped = False, defaultPrevented = False\<rparr> s)"

subsection \<open>Name spaces\<close>

lemma runs_any_or_none: "runs any_or_none p s =
  runs (Cat (Many 0 (\<lambda>c. c \<noteq> CHR 0x0A \<and> c \<noteq> CHR 0x0D)) (One (\<lambda>c. c = CHR ''.''))) p s @ [([], [])]"
proof -
  have "takeWhile (\<lambda>c. False) s = []" by (cases s) simp_all
  then show ?thesis unfolding any_or_none_def by (simp add: case_prod_beta del: runs.simps(3))
qed

lemma join_dot: "hs \<noteq> [] \<Longrightarrow> \<exists>r. join ''.'' hs = hd hs @ r \<and> (r = [] \<or> hd r = CHR ''.'')"
  by (cases hs; cases "tl hs") auto

text \<open>The places behind the dots of a name are those where a part of it begins.\<close>

lemma behind_dot:
  assumes "\<forall>h\<in>set hs. CHR ''.'' \<notin> set h"
  shows "(\<exists>x. join ''.'' hs = x @ CHR ''.'' # s) \<longleftrightarrow> (\<exists>h us vs. hs = h # us @ vs \<and> vs \<noteq> [] \<and> s = join ''.'' vs)"
  using assms
proof (induction hs)
  case (Cons h hs)
  show ?case
  proof (cases "hs = []")
    case True
    then show ?thesis using Cons.prems by auto
  next
    case False
    have "(\<exists>x. join ''.'' (h # hs) = x @ CHR ''.'' # s) \<longleftrightarrow> s = join ''.'' hs \<or> (\<exists>x. join ''.'' hs = x @ CHR ''.'' # s)"
    proof
      assume "\<exists>x. join ''.'' (h # hs) = x @ CHR ''.'' # s"
      then obtain x where x: "h @ CHR ''.'' # join ''.'' hs = x @ CHR ''.'' # s" using False by (auto simp: join_Cons)
      then obtain us where "h = x @ us \<and> us @ CHR ''.'' # join ''.'' hs = CHR ''.'' # s \<or> h @ us = x \<and> CHR ''.'' # join ''.'' hs = us @ CHR ''.'' # s"
        by (auto simp: append_eq_append_conv2)
      then show "s = join ''.'' hs \<or> (\<exists>x. join ''.'' hs = x @ CHR ''.'' # s)"
        using Cons.prems by (cases us) auto
    next
      assume "s = join ''.'' hs \<or> (\<exists>x. join ''.'' hs = x @ CHR ''.'' # s)"
      then show "\<exists>x. join ''.'' (h # hs) = x @ CHR ''.'' # s"
      proof
        assume "\<exists>x. join ''.'' hs = x @ CHR ''.'' # s"
        then obtain x where "join ''.'' hs = x @ CHR ''.'' # s" by blast
        then have "join ''.'' (h # hs) = (h @ ''.'' @ x) @ CHR ''.'' # s" using False by (simp add: join_Cons)
        then show ?thesis by blast
      qed (use False in \<open>auto simp: join_Cons\<close>)
    qed
    also have "\<dots> \<longleftrightarrow> (\<exists>us vs. hs = us @ vs \<and> vs \<noteq> [] \<and> s = join ''.'' vs)"
    proof -
      have "(\<exists>x. join ''.'' hs = x @ CHR ''.'' # s) \<longleftrightarrow> (\<exists>h us vs. hs = h # us @ vs \<and> vs \<noteq> [] \<and> s = join ''.'' vs)"
        using Cons by simp
      moreover have "(\<exists>us vs. hs = us @ vs \<and> vs \<noteq> [] \<and> s = join ''.'' vs) \<longleftrightarrow>
          s = join ''.'' hs \<or> (\<exists>h us vs. hs = h # us @ vs \<and> vs \<noteq> [] \<and> s = join ''.'' vs)"
        (is "?l \<longleftrightarrow> ?r")
      proof
        assume ?l
        then obtain us vs where "hs = us @ vs" "vs \<noteq> []" "s = join ''.'' vs" by blast
        then show ?r by (cases us) auto
      next
        assume ?r
        then show ?l
        proof
          assume "s = join ''.'' hs"
          then have "hs = [] @ hs \<and> hs \<noteq> [] \<and> s = join ''.'' hs" using False by simp
          then show ?l by blast
        next
          assume "\<exists>h us vs. hs = h # us @ vs \<and> vs \<noteq> [] \<and> s = join ''.'' vs"
          then obtain h us vs where "hs = (h # us) @ vs \<and> vs \<noteq> [] \<and> s = join ''.'' vs" by auto
          then show ?l by blast
        qed
      qed
      ultimately show ?thesis by blast
    qed
    finally show ?thesis by simp
  qed
qed simp

lemma subseq_from: "subseq (v # ws) hs \<longleftrightarrow> (\<exists>us vs. hs = us @ v # vs \<and> subseq ws vs)"
proof
  assume "subseq (v # ws) hs"
  from list_emb_ConsD [OF this] show "\<exists>us vs. hs = us @ v # vs \<and> subseq ws vs" by auto
next
  assume "\<exists>us vs. hs = us @ v # vs \<and> subseq ws vs"
  then show "subseq (v # ws) hs" by (auto intro: list_emb_append2)
qed

definition name :: "string \<Rightarrow> bool" where
  "name w \<longleftrightarrow> w \<noteq> [] \<and> (\<forall>c\<in>set w. is_word c)"

lemma name_chars: "name w \<Longrightarrow> CHR ''.'' \<notin> set w \<and> CHR 0x0A \<notin> set w \<and> CHR 0x0D \<notin> set w"
proof -
  assume "name w"
  moreover have "\<not> is_word (CHR ''.'')" "\<not> is_word (CHR 0x0A)" "\<not> is_word (CHR 0x0D)" by (simp_all add: is_word_def)
  ultimately show ?thesis unfolding name_def by blast
qed

lemma first_part:
  assumes "name w" "name h" "r = [] \<or> hd r = CHR ''.''"
  shows "take (length w) (h @ r) = w \<and> (drop (length w) (h @ r) = [] \<or> hd (drop (length w) (h @ r)) = CHR ''.'') \<longleftrightarrow> w = h"
proof
  assume a: "take (length w) (h @ r) = w \<and> (drop (length w) (h @ r) = [] \<or> hd (drop (length w) (h @ r)) = CHR ''.'')"
  let ?d = "drop (length w) (h @ r)"
  have e: "w @ ?d = h @ r" using a by (metis append_take_drop_id)
  have "takeWhile (\<lambda>c. c \<noteq> CHR ''.'') (w @ ?d) = w" using a name_chars [OF assms(1)] by (cases ?d) (auto intro: takeWhile_append_stop simp: takeWhile_eq_all_conv)
  moreover have "takeWhile (\<lambda>c. c \<noteq> CHR ''.'') (h @ r) = h" using assms(3) name_chars [OF assms(2)]
    by (cases r) (auto intro: takeWhile_append_stop simp: takeWhile_eq_all_conv)
  ultimately show "w = h" unfolding e by simp
qed (use assms(3) in auto)

lemma runs_Cat_some: "runs (Cat r q) p s \<noteq> [] \<longleftrightarrow> (\<exists>w\<in>set (runs r p s). runs q (before p (fst w)) (drop (length (fst w)) s) \<noteq> [])"
proof -
  have "runs (Cat r q) p s = concat (map (\<lambda>w. map (\<lambda>(m', g'). (fst w @ m', snd w @ g')) (runs q (before p (fst w)) (drop (length (fst w)) s))) (runs r p s))"
    by (subst runs.simps(3)) (intro arg_cong [where f = concat] map_cong refl, auto split: prod.split)
  then show ?thesis by (simp add: concat_eq_Nil_conv)
qed

lemma runs_skip: "runs (Cat any_or_none r) p s \<noteq> [] \<longleftrightarrow>
  (\<exists>x t. s = x @ CHR ''.'' # t \<and> (\<forall>c\<in>set x. c \<noteq> CHR 0x0A \<and> c \<noteq> CHR 0x0D) \<and> runs r (Some (CHR ''.'')) t \<noteq> []) \<or> runs r p s \<noteq> []"
proof -
  let ?P = "\<lambda>c. c \<noteq> CHR 0x0A \<and> c \<noteq> CHR 0x0D" and ?dot = "One (\<lambda>c. c = CHR ''.'')"
  have a: "runs (Cat any_or_none r) p s \<noteq> [] \<longleftrightarrow> (\<exists>m g. (m, g) \<in> set (runs any_or_none p s) \<and> runs r (before p m) (drop (length m) s) \<noteq> [])"
    unfolding runs_Cat_some Bex_def split_paired_Ex fst_conv ..
  have b: "(m, g) \<in> set (runs (Cat (Many 0 ?P) ?dot) p s) \<longleftrightarrow>
      g = [] \<and> (\<exists>x t. m = x @ ''.'' \<and> s = x @ CHR ''.'' # t \<and> (\<forall>c\<in>set x. ?P c))" for m g
  proof
    assume "(m, g) \<in> set (runs (Cat (Many 0 ?P) ?dot) p s)"
    then obtain i t where i: "i \<le> length (takeWhile ?P s)" "drop i s = CHR ''.'' # t" "m = take i s @ ''.''" "g = []"
      unfolding runs_repeat
      by (auto split: list.splits if_splits simp: less_Suc_eq_le eq_commute [of "a # b" "drop k l" for a b k l] simp del: upt_Suc)
    have "take i s = take i (take (length (takeWhile ?P s)) s)" using i(1) by (simp add: min_absorb1)
    then have "take i s = take i (takeWhile ?P s)" unfolding takeWhile_eq_take [symmetric] .
    then have "\<forall>c\<in>set (take i s). ?P c" by (auto dest!: in_set_takeD set_takeWhileD)
    moreover have "s = take i s @ CHR ''.'' # t" using i(2) by (metis append_take_drop_id)
    ultimately show "g = [] \<and> (\<exists>x t. m = x @ ''.'' \<and> s = x @ CHR ''.'' # t \<and> (\<forall>c\<in>set x. ?P c))" using i(3,4) by blast
  next
    assume "g = [] \<and> (\<exists>x t. m = x @ ''.'' \<and> s = x @ CHR ''.'' # t \<and> (\<forall>c\<in>set x. ?P c))"
    then obtain x t where x: "g = []" "m = x @ ''.''" "s = x @ CHR ''.'' # t" "\<forall>c\<in>set x. ?P c" by blast
    have "length x \<le> length (takeWhile ?P s)" using x(3,4) by (simp add: takeWhile_append)
    then show "(m, g) \<in> set (runs (Cat (Many 0 ?P) ?dot) p s)"
      unfolding runs_repeat set_concat set_map image_image by (intro UN_I [of "length x"]) (use x(1-3) in \<open>simp_all del: upt_Suc\<close>)
  qed
  let ?Q = "\<lambda>m. runs r (before p m) (drop (length m) s) \<noteq> []"
  have c: "(m, g) \<in> set (runs any_or_none p s) \<longleftrightarrow>
      g = [] \<and> ((\<exists>x t. m = x @ ''.'' \<and> s = x @ CHR ''.'' # t \<and> (\<forall>c\<in>set x. ?P c)) \<or> m = [])" for m g
    unfolding runs_any_or_none set_append Un_iff b by (simp only: list.set prod.inject insert_iff empty_iff simp_thms conj_disj_distribL conj_commute)
  have ex: "(\<exists>m g. (g = ([] :: 'z list) \<and> (A m \<or> m = [])) \<and> Q m) \<longleftrightarrow> (\<exists>m. A m \<and> Q m) \<or> Q []"
    for A Q :: "string \<Rightarrow> bool" by auto
  have "(\<exists>m g. (m, g) \<in> set (runs any_or_none p s) \<and> ?Q m) \<longleftrightarrow>
      (\<exists>m. (\<exists>x t. m = x @ ''.'' \<and> s = x @ CHR ''.'' # t \<and> (\<forall>c\<in>set x. ?P c)) \<and> ?Q m) \<or> ?Q []"
    unfolding c by (rule ex)
  also have "\<dots> \<longleftrightarrow> (\<exists>x t. s = x @ CHR ''.'' # t \<and> (\<forall>c\<in>set x. ?P c) \<and> ?Q (x @ ''.'')) \<or> ?Q []"
  proof -
    have "(\<exists>m. (\<exists>x t. m = x @ ''.'' \<and> A x t) \<and> Q m) \<longleftrightarrow> (\<exists>x t. A x t \<and> Q (x @ ''.''))" for A Q by blast
    from this [of "\<lambda>x t. s = x @ CHR ''.'' # t \<and> (\<forall>c\<in>set x. ?P c)" ?Q] show ?thesis by (simp only: conj_assoc)
  qed
  also have "\<dots> \<longleftrightarrow> (\<exists>x t. s = x @ CHR ''.'' # t \<and> (\<forall>c\<in>set x. ?P c) \<and> runs r (Some (CHR ''.'')) t \<noteq> []) \<or> runs r p s \<noteq> []"
  proof -
    have q: "s = x @ CHR ''.'' # t \<Longrightarrow> ?Q (x @ ''.'') \<longleftrightarrow> runs r (Some (CHR ''.'')) t \<noteq> []" for x t by (simp add: before_def)
    have "?Q [] \<longleftrightarrow> runs r p s \<noteq> []" by (simp add: before_def)
    then show ?thesis by (intro arg_cong2 [where f = "(\<or>)"] ex_cong1 conj_cong refl q) simp_all
  qed
  finally show ?thesis unfolding a .
qed

lemma names_end: "runs (names_regex [w]) p s \<noteq> [] \<longleftrightarrow> take (length w) s = w \<and> (drop (length w) s = [] \<or> hd (drop (length w) s) = CHR ''.'')"
proof -
  have "runs (Group (Or (One (\<lambda>c. c = CHR ''.'')) AtEnd)) q t \<noteq> [] \<longleftrightarrow> t = [] \<or> hd t = CHR ''.''" for q t by (cases t) simp_all
  then show ?thesis by (simp add: runs_Cat_some runs_verbatim del: runs.simps)
qed

lemma names_more: "runs (names_regex (w # v # ws)) p s \<noteq> [] \<longleftrightarrow>
  take (length w) s = w \<and> (\<exists>t. drop (length w) s = CHR ''.'' # t \<and> runs (Cat any_or_none (names_regex (v # ws))) (Some (CHR ''.'')) t \<noteq> [])"
proof -
  have dot: "runs (Cat (One (\<lambda>c. c = CHR ''.'')) r) q u \<noteq> [] \<longleftrightarrow> (\<exists>t. u = CHR ''.'' # t \<and> runs r (Some (CHR ''.'')) t \<noteq> [])" for r q u
  proof (cases u)
    case Nil
    then show ?thesis by (simp add: runs_Cat_fail)
  next
    case (Cons c t)
    then show ?thesis by (simp add: runs_Cat_One del: runs.simps(3))
  qed
  show ?thesis unfolding names_regex.simps(3) runs_Cat_some [of "verbatim w"] runs_verbatim by (simp add: dot del: runs.simps)
qed

lemma names_match:
  assumes "\<forall>w\<in>set ws. name w" "ws \<noteq> []" "\<forall>h\<in>set hs. name h" "hs \<noteq> []"
  shows "runs (names_regex ws) p (join ''.'' hs) \<noteq> [] \<longleftrightarrow> hd hs = hd ws \<and> subseq (tl ws) (tl hs)"
  using assms
proof (induction ws arbitrary: p hs rule: names_regex.induct)
  case (2 w)
  obtain r where r: "join ''.'' hs = hd hs @ r" "r = [] \<or> hd r = CHR ''.''" using join_dot [OF 2(4)] by blast
  have "runs (names_regex [w]) p (hd hs @ r) \<noteq> [] \<longleftrightarrow> w = hd hs"
    unfolding names_end using 2 r(2) by (intro first_part) auto
  then show ?case unfolding r(1) by auto
next
  case (3 w v ws)
  show ?case
  proof (cases "tl hs = []")
    case True
    then obtain h where h: "hs = [h]" using 3(5) by (cases hs) auto
    have "CHR ''.'' \<notin> set h" using 3(4) h name_chars by auto
    then have "drop (length w) h \<noteq> CHR ''.'' # t" for t by (metis in_set_dropD list.set_intros(1))
    then have "runs (names_regex (w # v # ws)) p h = []" using names_more [of w v ws p h] by blast
    then show ?thesis by (simp add: h)
  next
    case False
    then obtain h hs' where h: "hs = h # hs'" "hs' \<noteq> []" by (cases hs) auto
    have n: "name w" "name h" "\<forall>h\<in>set hs'. name h" "\<forall>w\<in>set (v # ws). name w" using 3(2,4) h by auto
    let ?s = "join ''.'' hs'"
    have IH: "runs (names_regex (v # ws)) q (join ''.'' ts) \<noteq> [] \<longleftrightarrow> hd ts = v \<and> subseq ws (tl ts)" if "ts \<noteq> []" "set ts \<subseteq> set hs'" for q ts
      using 3(1) [of ts q] n that by auto
    have nd: "\<forall>h\<in>set hs'. CHR ''.'' \<notin> set h" using n(3) name_chars by blast
    have nl: "\<forall>c\<in>set ?s. c \<noteq> CHR 0x0A \<and> c \<noteq> CHR 0x0D" using set_join [of "''.''" hs'] n(3) name_chars by fastforce
    have "runs (Cat any_or_none (names_regex (v # ws))) (Some (CHR ''.'')) ?s \<noteq> [] \<longleftrightarrow>
        (\<exists>us vs. hs' = us @ vs \<and> vs \<noteq> [] \<and> hd vs = v \<and> subseq ws (tl vs))" (is "?l \<longleftrightarrow> ?r")
    proof -
      have "?l \<longleftrightarrow> (\<exists>t. (\<exists>x. ?s = x @ CHR ''.'' # t) \<and> runs (names_regex (v # ws)) (Some (CHR ''.'')) t \<noteq> []) \<or>
          runs (names_regex (v # ws)) (Some (CHR ''.'')) ?s \<noteq> []"
        unfolding runs_skip using nl by (metis Un_iff set_append)
      also have "\<dots> \<longleftrightarrow> (\<exists>h us vs. hs' = h # us @ vs \<and> vs \<noteq> [] \<and> hd vs = v \<and> subseq ws (tl vs)) \<or> (hd hs' = v \<and> subseq ws (tl hs'))"
        unfolding behind_dot [OF nd] using IH h(2) by (intro arg_cong2 [where f = "(\<or>)"]) (auto, blast+)
      also have "\<dots> \<longleftrightarrow> ?r"
      proof
        assume "(\<exists>h us vs. hs' = h # us @ vs \<and> vs \<noteq> [] \<and> hd vs = v \<and> subseq ws (tl vs)) \<or> (hd hs' = v \<and> subseq ws (tl hs'))"
        then show ?r
        proof
          assume "hd hs' = v \<and> subseq ws (tl hs')"
          then have "hs' = [] @ hs' \<and> hs' \<noteq> [] \<and> hd hs' = v \<and> subseq ws (tl hs')" using h(2) by simp
          then show ?r by blast
        next
          assume "\<exists>h us vs. hs' = h # us @ vs \<and> vs \<noteq> [] \<and> hd vs = v \<and> subseq ws (tl vs)"
          then obtain h us vs where "hs' = (h # us) @ vs \<and> vs \<noteq> [] \<and> hd vs = v \<and> subseq ws (tl vs)" by auto
          then show ?r by blast
        qed
      next
        assume ?r
        then obtain us vs where "hs' = us @ vs" "vs \<noteq> []" "hd vs = v" "subseq ws (tl vs)" by blast
        then show "(\<exists>h us vs. hs' = h # us @ vs \<and> vs \<noteq> [] \<and> hd vs = v \<and> subseq ws (tl vs)) \<or> (hd hs' = v \<and> subseq ws (tl hs'))"
          by (cases us) auto
      qed
      finally show ?thesis .
    qed
    also have "\<dots> \<longleftrightarrow> subseq (v # ws) hs'" unfolding subseq_from by (metis list.collapse list.sel(1,3) list.distinct(1))
    finally have rest: "runs (Cat any_or_none (names_regex (v # ws))) (Some (CHR ''.'')) ?s \<noteq> [] \<longleftrightarrow> subseq (v # ws) hs'" .
    have "runs (names_regex (w # v # ws)) p (h @ CHR ''.'' # ?s) \<noteq> [] \<longleftrightarrow> w = h \<and> subseq (v # ws) hs'"
    proof -
      have first: "take (length w) (h @ CHR ''.'' # ?s) = w \<and> (\<exists>t. drop (length w) (h @ CHR ''.'' # ?s) = CHR ''.'' # t \<and> Q t) \<longleftrightarrow> w = h \<and> Q ?s" for Q
      proof
        assume a: "take (length w) (h @ CHR ''.'' # ?s) = w \<and> (\<exists>t. drop (length w) (h @ CHR ''.'' # ?s) = CHR ''.'' # t \<and> Q t)"
        then obtain t where t: "drop (length w) (h @ CHR ''.'' # ?s) = CHR ''.'' # t" "Q t" by blast
        have "hd (drop (length w) (h @ CHR ''.'' # ?s)) = CHR ''.''" unfolding t(1) by simp
        then have "w = h" using a first_part [OF n(1,2), of "CHR ''.'' # ?s"] by simp
        then show "w = h \<and> Q ?s" using t by simp
      qed simp
      show ?thesis unfolding names_more rest [symmetric]
        by (rule first [where Q = "\<lambda>t. runs (Cat any_or_none (names_regex (v # ws))) (Some (CHR ''.'')) t \<noteq> []"])
    qed
    then show ?thesis using h by (auto simp: join_Cons)
  qed
qed simp

lemma runs_Or_some: "runs (Group (Or r q)) p s \<noteq> [] \<longleftrightarrow> runs r p s \<noteq> [] \<or> runs q p s \<noteq> []"
  by simp

text \<open>The names asked for are found if the handler has them all; both are in their order.\<close>

lemma namespace_match:
  assumes "\<forall>w\<in>set ws. name w" "ws \<noteq> []" "\<forall>h\<in>set hs. name h"
  shows "test (namespace_regex ws) (join ''.'' hs) \<longleftrightarrow> subseq ws hs"
proof -
  have nd: "\<forall>h\<in>set hs. CHR ''.'' \<notin> set h" using assms(3) name_chars by blast
  have "runs (namespace_regex ws) (before None b) a \<noteq> [] \<longleftrightarrow>
      (b = [] \<and> runs (names_regex ws) None a \<noteq> []) \<or> (\<exists>t. a = CHR ''.'' # t \<and> runs (names_regex ws) (Some (CHR ''.'')) t \<noteq> [])" for b a
    unfolding namespace_regex_def runs_Cat_some by (cases a) (auto simp: before_def)
  then have "test (namespace_regex ws) (join ''.'' hs) \<longleftrightarrow>
      runs (names_regex ws) None (join ''.'' hs) \<noteq> [] \<or> (\<exists>t. (\<exists>x. join ''.'' hs = x @ CHR ''.'' # t) \<and> runs (names_regex ws) (Some (CHR ''.'')) t \<noteq> [])"
    unfolding test_def exec_none by (metis append_Nil)
  also have "\<dots> \<longleftrightarrow> subseq ws hs"
  proof (cases "hs = []")
    case True
    obtain w ws' where ws: "ws = w # ws'" "w \<noteq> []" using assms(1,2) by (cases ws) (auto simp: name_def)
    have "runs (names_regex ws) None [] = []" using ws names_end [of w None "[]"] names_more [of w _ _ None "[]"] by (cases ws') auto
    then show ?thesis using True ws by simp
  next
    case False
    have n: "runs (names_regex ws) q (join ''.'' vs) \<noteq> [] \<longleftrightarrow> hd vs = hd ws \<and> subseq (tl ws) (tl vs)" if "vs \<noteq> []" "set vs \<subseteq> set hs" for q vs
      using names_match [OF assms(1,2), of vs q] that assms(3) by auto
    have "runs (names_regex ws) None (join ''.'' hs) \<noteq> [] \<or> (\<exists>t. (\<exists>x. join ''.'' hs = x @ CHR ''.'' # t) \<and> runs (names_regex ws) (Some (CHR ''.'')) t \<noteq> []) \<longleftrightarrow>
        (\<exists>us vs. hs = us @ vs \<and> vs \<noteq> [] \<and> hd vs = hd ws \<and> subseq (tl ws) (tl vs))" (is "?a \<or> ?b \<longleftrightarrow> ?r")
    proof
      assume "?a \<or> ?b"
      then show ?r
      proof
        assume ?a
        then have "hs = [] @ hs \<and> hs \<noteq> [] \<and> hd hs = hd ws \<and> subseq (tl ws) (tl hs)" using n [OF False] False by simp
        then show ?r by blast
      next
        assume ?b
        then obtain h us vs where v: "hs = (h # us) @ vs" "vs \<noteq> []" "runs (names_regex ws) (Some (CHR ''.'')) (join ''.'' vs) \<noteq> []"
          unfolding behind_dot [OF nd] by auto
        moreover from v have "hd vs = hd ws \<and> subseq (tl ws) (tl vs)" using n [of vs] by auto
        ultimately show ?r by blast
      qed
    next
      assume ?r
      then obtain us vs where v: "hs = us @ vs" "vs \<noteq> []" "hd vs = hd ws \<and> subseq (tl ws) (tl vs)" by blast
      then have r: "runs (names_regex ws) q (join ''.'' vs) \<noteq> []" for q using n [of vs q] by auto
      show "?a \<or> ?b"
      proof (cases us)
        case Nil
        then show ?thesis using r v(1) by simp
      next
        case (Cons h us')
        then have "\<exists>h us ts. hs = h # us @ ts \<and> ts \<noteq> [] \<and> join ''.'' vs = join ''.'' ts" using v(1,2) by auto
        then show ?thesis unfolding behind_dot [OF nd, symmetric] using r by blast
      qed
    qed
    also have "\<dots> \<longleftrightarrow> subseq ws hs"
    proof -
      obtain w ws' where ws: "ws = w # ws'" using assms(2) by (cases ws) auto
      show ?thesis unfolding ws subseq_from by (metis list.collapse list.sel(1,3) list.distinct(1))
    qed
    finally show ?thesis .
  qed
  finally show ?thesis .
qed

subsection \<open>The tables of handlers\<close>

text \<open>The handlers with selectors come first, there are \<open>delegateCount\<close> of them, and every handler is in the entry for its type.\<close>

definition entry_ok :: "string \<Rightarrow> handle_obj list \<times> nat \<Rightarrow> bool" where
  "entry_ok ty e \<longleftrightarrow>
     fst e \<noteq> [] \<and> snd e \<le> length (fst e) \<and>
     (\<forall>h\<in>set (take (snd e) (fst e)). given (ho_selector h)) \<and> (\<forall>h\<in>set (drop (snd e) (fst e)). \<not> given (ho_selector h)) \<and>
     (\<forall>h\<in>set (fst e). ho_origType h \<noteq> [] \<and> CHR ''.'' \<notin> set (ho_origType h) \<and> table_type (ho_origType h) (ho_selector h) = ty)"

definition table_ok :: "event_table \<Rightarrow> bool" where
  "table_ok events \<longleftrightarrow> distinct (map fst events) \<and> (\<forall>(ty, e)\<in>set events. entry_ok ty e)"

lemma table_ok_lookup: "table_ok events \<Longrightarrow> map_of events ty = Some e \<Longrightarrow> entry_ok ty e"
  unfolding table_ok_def by (blast dest: map_of_SomeD)

lemma table_ok_update: "table_ok events \<Longrightarrow> entry_ok ty e \<Longrightarrow> table_ok (AList.update ty e events)"
proof -
  assume t: "table_ok events" "entry_ok ty e"
  have "set (AList.update ty e events) \<subseteq> insert (ty, e) (set events)" by (induction events) auto
  then show ?thesis using t unfolding table_ok_def by (auto intro: distinct_update)
qed

lemma table_ok_delete: "table_ok events \<Longrightarrow> table_ok (AList.delete ty events)"
  unfolding table_ok_def by (auto intro: AList.distinct_delete simp: AList.delete_eq distinct_map_filter)

lemma type_of_word:
  assumes "type_namespace w = Some (t, ns)"
  shows "CHR ''.'' \<notin> set t"
  using assms unfolding type_namespace_def
  by (auto split: list.splits if_splits dest: set_takeWhileD simp: dropWhile_eq_Nil_conv)

lemma entry_ok_add:
  assumes "entry_ok ty (hs, n) \<or> hs = [] \<and> n = 0"
    "ho_origType h \<noteq> []" "CHR ''.'' \<notin> set (ho_origType h)" "table_type (ho_origType h) (ho_selector h) = ty"
  shows "entry_ok ty (if given (ho_selector h) then (take n hs @ h # drop n hs, Suc n) else (hs @ [h], n))"
proof -
  have n: "n \<le> length hs" using assms(1) by (auto simp: entry_ok_def)
  have "set (take n hs) \<subseteq> set hs" "set (drop n hs) \<subseteq> set hs" by (rule set_take_subset, rule set_drop_subset)
  then show ?thesis using assms n unfolding entry_ok_def by (cases "given (ho_selector h)") (auto simp: min_absorb2)
qed

lemma add_handler_ok:
  assumes "table_ok events"
  shows "table_ok (add_handler w guid selector events)"
proof (cases "type_namespace w")
  case (Some tn)
  obtain t ns where tn: "tn = (t, ns)" by (cases tn)
  show ?thesis
  proof (cases "t = []")
    case False
    obtain hs n where e: "(case map_of events (table_type t selector) of None \<Rightarrow> ([], 0) | Some e \<Rightarrow> e) = (hs, n)" by (metis surj_pair)
    then have "entry_ok (table_type t selector) (hs, n) \<or> hs = [] \<and> n = 0"
      using table_ok_lookup [OF assms] by (auto split: option.splits)
    then show ?thesis
      using entry_ok_add [of "table_type t selector" hs n
          "\<lparr>ho_origType = t, ho_guid = guid, ho_selector = selector, ho_namespace = join ''.'' (namespaces ns)\<rparr>"]
        type_of_word [of w t ns] Some tn False assms
      by (simp add: add_handler_def e Let_def table_ok_update)
  qed (use assms Some tn in \<open>simp add: add_handler_def\<close>)
qed (use assms in \<open>simp add: add_handler_def\<close>)

lemma event_add_ok: "table_ok events \<Longrightarrow> table_ok (event_add types guid selector events)"
proof -
  have "table_ok events \<Longrightarrow> table_ok (foldr (\<lambda>w events. add_handler w guid selector events) ws events)" for ws
    by (induction ws) (simp_all add: add_handler_ok)
  then show "table_ok events \<Longrightarrow> ?thesis" by (simp add: event_add_def)
qed

text \<open>Taking handlers from an entry: those with selectors are counted off.\<close>

lemma entry_ok_remove:
  assumes "entry_ok ty (hs, n)" "filter (\<lambda>h. \<not> P h) hs \<noteq> []"
  shows "entry_ok ty (filter (\<lambda>h. \<not> P h) hs, n - length (filter (\<lambda>h. given (ho_selector h)) (filter P hs)))"
proof -
  define a b where "a = take n hs" and "b = drop n hs"
  have ab: "hs = a @ b" "\<forall>h\<in>set a. given (ho_selector h)" "\<forall>h\<in>set b. \<not> given (ho_selector h)" "n = length a"
    using assms(1) unfolding entry_ok_def a_def b_def by auto
  have "filter (\<lambda>h. given (ho_selector h)) (filter P a) = filter P a" "filter (\<lambda>h. given (ho_selector h)) (filter P b) = []"
    using ab(2,3) by (auto intro: filter_cong simp: filter_empty_conv)
  then have "n - length (filter (\<lambda>h. given (ho_selector h)) (filter P hs)) = length (filter (\<lambda>h. \<not> P h) a)"
    using sum_length_filter_compl [of P a] ab(4) unfolding ab(1) by simp
  moreover have "\<forall>h\<in>set hs. ho_origType h \<noteq> [] \<and> CHR ''.'' \<notin> set (ho_origType h) \<and> table_type (ho_origType h) (ho_selector h) = ty"
    using assms(1) unfolding entry_ok_def by simp
  ultimately show ?thesis using assms(2) ab(2,3) unfolding entry_ok_def ab(1) by auto
qed

lemma remove_handlers_ok:
  assumes "table_ok events"
  shows "table_ok (remove_handlers mapped t ns guid selector events)"
proof (cases "map_of events (table_type t selector)")
  case (Some e)
  obtain hs n where e: "e = (hs, n)" by (cases e)
  have o: "entry_ok (table_type t selector) (hs, n)" using table_ok_lookup [OF assms Some] e by simp
  then have "hs \<noteq> []" by (simp add: entry_ok_def)
  then show ?thesis using entry_ok_remove [OF o, of "is_removed mapped t ns guid selector"] assms Some e
    by (simp add: remove_handlers_def Let_def table_ok_update table_ok_delete)
qed (use assms in \<open>simp add: remove_handlers_def\<close>)

lemma unbind_word_ok: "table_ok events \<Longrightarrow> unbind_word n mapped guid selector w events = Some events' \<Longrightarrow> table_ok events'"
proof (induction n arbitrary: mapped w events events')
  case (Suc n)
  have step: "table_ok ev'" if "fold (\<lambda>ty r. Option.bind r (unbind_word n True guid selector (ty @ w))) tys (Some ev) = Some ev'" "table_ok ev" for tys ev ev'
    using that
  proof (induction tys arbitrary: ev)
    case (Cons ty tys)
    show ?case
    proof (cases "unbind_word n True guid selector (ty @ w) ev")
      case None
      have "fold (\<lambda>ty r. Option.bind r (unbind_word n True guid selector (ty @ w))) tys None = None" by (induction tys) simp_all
      then show ?thesis using Cons.prems(1) None by simp
    qed (use Cons Suc.IH in auto)
  qed simp
  show ?case using Suc.prems step [of "map fst events" events events'] remove_handlers_ok
    by (auto simp: Let_def split: option.splits prod.splits if_splits)
qed simp

text \<open>C24. Every table of handlers that binding and unbinding leave is in order: no type has an empty list, the handlers
  with selectors stand first and \<open>delegateCount\<close> is their number, and each is filed under the type it listens to.\<close>

theorem tables_stay_in_order:
  assumes "table_ok events"
  shows "table_ok (event_add types guid selector events) \<and>
    (\<forall>n types guid selector events'. event_remove n types guid selector events = Some events' \<longrightarrow> table_ok events')"
proof (intro conjI allI impI)
  fix n types guid selector events'
  have "table_ok ev'" if "foldr (\<lambda>w r. Option.bind r (unbind_word n False guid selector w)) ws (Some events) = Some ev'" for ws ev'
    using that assms by (induction ws arbitrary: ev') (auto simp: bind_eq_Some_conv intro: unbind_word_ok)
  then show "event_remove n types guid selector events = Some events' \<Longrightarrow> table_ok events'" unfolding event_remove_def .
qed (rule event_add_ok [OF assms])

subsection \<open>What an event comes to\<close>

text \<open>The name spaces of a handler.\<close>

definition spaces :: "handle_obj \<Rightarrow> string list" where
  "spaces h = split_on (CHR ''.'') (ho_namespace h)"

text \<open>
  A specification of the calls, apart from the code. First, which functions of an element \<open>this\<close> an event is for, and in what
  order: those that are bound to it with a selector, for every element on the way from the target that is not disabled when
  clicked, the inner elements first; then those bound to it without; each in the order of its table.
\<close>

definition due :: "'e page \<Rightarrow> string list \<Rightarrow> 'e \<Rightarrow> 'e \<Rightarrow> string \<Rightarrow> ('e \<times> handle_obj) list" where
  "due p ns target this ty =
     (let hs = filter (\<lambda>h. ns = [] \<or> subseq ns (spaces h)) (case map_of (tables p this) ty of None \<Rightarrow> [] | Some e \<Rightarrow> fst e);
          way = takeWhile (\<lambda>el. el \<noteq> this) (target # ancestors p target)
      in concat (map (\<lambda>el. map (Pair el) (filter (\<lambda>h. \<exists>sel. sel \<noteq> [] \<and> ho_selector h = Some sel \<and> finds p this sel el) hs))
                   (filter (\<lambda>el. is_element p el \<and> \<not> (ty = ''click'' \<and> is_disabled p el)) way)) @
         map (Pair this) (filter (\<lambda>h. ho_selector h = None \<or> ho_selector h = Some []) hs))"

text \<open>Then, where it goes: the types under which the element itself and those around it listen to an event.\<close>

definition entered_as :: "string \<Rightarrow> string" where
  "entered_as t = (if t = ''mouseenter'' then ''mouseover'' else if t = ''mouseleave'' then ''mouseout'' else t)"

definition bubbles_as :: "string \<Rightarrow> string" where
  "bubbles_as t = (if t = ''focus'' then ''focusin'' else if t = ''blur'' then ''focusout'' else entered_as t)"

definition way_up :: "'e page \<Rightarrow> string \<Rightarrow> bool \<Rightarrow> 'e \<Rightarrow> ('e \<times> string) list" where
  "way_up p t only el =
     (el, entered_as t) #
     (if only \<or> t = ''load'' then []
      else (if t = ''focus'' \<or> t = ''blur'' then [(el, bubbles_as t)] else []) @ map (\<lambda>cur. (cur, bubbles_as t)) (ancestors p el))"

text \<open>
  Last, who stops it. Of what is due all is called, except what comes after a function that stops the event at once, and
  what is bound for another element after one that stops it or returns \<open>false\<close>.
\<close>

definition halts :: "'e call \<Rightarrow> bool" where
  "halts c = (case c of (el, h, out) \<Rightarrow> stops out \<or> stops_at_once out \<or> returns_false out)"

definition at_once :: "'e call \<Rightarrow> bool" where
  "at_once c = (case c of (el, h, out) \<Rightarrow> stops_at_once out)"

definition callee :: "'e call \<Rightarrow> 'e \<times> handle_obj" where
  "callee c = (fst c, fst (snd c))"

definition carried_out :: "('e \<times> handle_obj) list \<Rightarrow> 'e call list \<Rightarrow> bool" where
  "carried_out all calls \<longleftrightarrow>
     (\<exists>rest. all = map callee calls @ rest \<and>
        (rest \<noteq> [] \<longrightarrow> calls \<noteq> [] \<and> (at_once (last calls) \<or> ((\<exists>c\<in>set calls. halts c) \<and> fst (hd rest) \<noteq> fst (last calls))))) \<and>
     (\<forall>xs c ys. calls = xs @ c # ys \<longrightarrow> (at_once c \<longrightarrow> ys = []) \<and> (halts c \<longrightarrow> (\<forall>y\<in>set ys. fst y = fst c)))"

text \<open>The calls really are what the functions do, one after the other, and each visit begins where the one before it ended.\<close>

fun replay :: "('e \<Rightarrow> nat \<Rightarrow> 's \<Rightarrow> effect \<times> 's) \<Rightarrow> 'e call list \<Rightarrow> 's \<Rightarrow> 's option" where
  "replay act [] s = Some s"
| "replay act ((el, h, out) # calls) s = (let (o', r) = act el (ho_guid h) s in if o' = out then replay act calls r else None)"

fun replay_visits :: "('e \<Rightarrow> nat \<Rightarrow> 's \<Rightarrow> effect \<times> 's) \<Rightarrow> ('e, 's) visit list \<Rightarrow> 's \<Rightarrow> 's option" where
  "replay_visits act [] s = Some s"
| "replay_visits act ((cur, ty, r, calls) # visits) s =
     (if r = s then (case replay act calls s of None \<Rightarrow> None | Some u \<Rightarrow> replay_visits act visits u) else None)"

lemma at_once_halts: "at_once c \<Longrightarrow> halts c"
  by (simp add: at_once_def halts_def split: prod.splits)

lemma carried_out_Nil [simp]: "carried_out [] []"
  by (simp add: carried_out_def)

lemma carried_out_stop:
  assumes "carried_out all calls" "\<exists>c\<in>set calls. halts c" "\<forall>x\<in>set outer. fst x \<noteq> fst (last calls)"
  shows "carried_out (all @ outer) calls"
proof -
  obtain rest where r: "all = map callee calls @ rest"
      "rest \<noteq> [] \<longrightarrow> calls \<noteq> [] \<and> (at_once (last calls) \<or> ((\<exists>c\<in>set calls. halts c) \<and> fst (hd rest) \<noteq> fst (last calls)))"
    using assms(1) unfolding carried_out_def by blast
  have "rest @ outer \<noteq> [] \<longrightarrow> calls \<noteq> [] \<and> (at_once (last calls) \<or> ((\<exists>c\<in>set calls. halts c) \<and> fst (hd (rest @ outer)) \<noteq> fst (last calls)))"
  proof (cases "rest = []")
    case True
    then show ?thesis using assms(2,3) by (cases outer) auto
  qed (use r(2) in simp)
  then show ?thesis using assms(1) r(1) unfolding carried_out_def by (intro conjI exI [of _ "rest @ outer"]) simp_all
qed

lemma carried_out_append:
  assumes "carried_out a c" "\<forall>x\<in>set c. \<not> halts x" "carried_out b d"
  shows "carried_out (a @ b) (c @ d)"
proof -
  have a: "a = map callee c"
  proof -
    obtain rest where r: "a = map callee c @ rest"
        "rest \<noteq> [] \<longrightarrow> c \<noteq> [] \<and> (at_once (last c) \<or> ((\<exists>x\<in>set c. halts x) \<and> fst (hd rest) \<noteq> fst (last c)))"
      using assms(1) unfolding carried_out_def by blast
    then have "rest = []" using assms(2) at_once_halts last_in_set by blast
    then show ?thesis using r(1) by simp
  qed
  obtain rest where r: "b = map callee d @ rest"
      "rest \<noteq> [] \<longrightarrow> d \<noteq> [] \<and> (at_once (last d) \<or> ((\<exists>c\<in>set d. halts c) \<and> fst (hd rest) \<noteq> fst (last d)))"
    using assms(3) unfolding carried_out_def by blast
  have D: "(at_once x \<longrightarrow> ys = []) \<and> (halts x \<longrightarrow> (\<forall>y\<in>set ys. fst y = fst x))" if "d = xs @ x # ys" for xs x ys
    using assms(3) that unfolding carried_out_def by blast
  have "(at_once x \<longrightarrow> ys = []) \<and> (halts x \<longrightarrow> (\<forall>y\<in>set ys. fst y = fst x))" if e: "c @ d = xs @ x # ys" for xs x ys
  proof (cases "halts x")
    case True
    from e consider us where "c = xs @ us" "us @ d = x # ys" | us where "xs = c @ us" "d = us @ x # ys"
      by (auto simp: append_eq_append_conv2)
    then show ?thesis
    proof cases
      case 1
      show ?thesis
      proof (cases us)
        case Nil
        then show ?thesis using 1 D [of "[]" x ys] by simp
      next
        case (Cons u us')
        then have "x \<in> set c" using 1 by simp
        then show ?thesis using assms(2) True by blast
      qed
    next
      case 2
      then show ?thesis using D by blast
    qed
  qed (use at_once_halts in blast)
  moreover have "rest \<noteq> [] \<longrightarrow> c @ d \<noteq> [] \<and> (at_once (last (c @ d)) \<or> ((\<exists>x\<in>set (c @ d). halts x) \<and> fst (hd rest) \<noteq> fst (last (c @ d))))"
    using r(2) by auto
  ultimately show ?thesis using r(1) a unfolding carried_out_def by (intro conjI exI [of _ rest]) simp_all
qed

subsection \<open>The calls for one element\<close>

lemma run_handlers_calls:
  assumes "run_handlers look act ev el hs fl s = (calls, fl', s')" "\<not> immediateStopped fl" "event_related ev = None"
  shows "carried_out (map (Pair el) (filter (namespace_ok ev) hs)) calls" "\<forall>c\<in>set calls. fst c = el"
    "propagationStopped fl' \<longleftrightarrow> propagationStopped fl \<or> (\<exists>c\<in>set calls. halts c)"
    "immediateStopped fl' \<longleftrightarrow> (\<exists>c\<in>set calls. at_once c)" "replay act calls s = Some s'"
proof -
  have "(\<exists>rest. filter (namespace_ok ev) hs = map (fst \<circ> snd) calls @ rest \<and> (rest \<noteq> [] \<longrightarrow> calls \<noteq> [] \<and> at_once (last calls))) \<and>
    (\<forall>xs c ys. calls = xs @ c # ys \<longrightarrow> at_once c \<longrightarrow> ys = []) \<and> (\<forall>c\<in>set calls. fst c = el) \<and>
    (propagationStopped fl' \<longleftrightarrow> propagationStopped fl \<or> (\<exists>c\<in>set calls. halts c)) \<and>
    (immediateStopped fl' \<longleftrightarrow> (\<exists>c\<in>set calls. at_once c)) \<and> replay act calls s = Some s'"
    using assms(1,2)
  proof (induction hs arbitrary: fl calls s)
    case (Cons h hs)
    show ?case
    proof (cases "namespace_ok ev h")
      case False
      then have r: "run_handlers look act ev el hs fl s = (calls, fl', s')" using Cons.prems by (auto split: if_splits)
      show ?thesis using Cons.IH [OF r Cons.prems(2)] False by simp
    next
      case True
      obtain out r where a: "act el (ho_guid h) s = (out, r)" by (metis surj_pair)
      let ?fl = "after_handler out fl" and ?c = "(el, h, out)"
      obtain rest where rest: "run_handlers look act ev el hs ?fl r = (rest, fl', s')" "calls = ?c # rest"
        using Cons.prems True a assms(3) by (auto simp: passed_on_def split: prod.splits)
      show ?thesis
      proof (cases "at_once ?c")
        case o: True
        then have i: "immediateStopped ?fl" by (simp add: after_handler_def at_once_def)
        then have e: "rest = [] \<and> fl' = ?fl \<and> s' = r" using rest(1) by (cases hs) auto
        show ?thesis using o e i True a rest(2) by (auto simp: after_handler_def halts_def at_once_def Cons_eq_append_conv)
      next
        case o: False
        then have i: "\<not> immediateStopped ?fl" using Cons.prems(2) by (simp add: after_handler_def at_once_def)
        have st: "propagationStopped ?fl \<longleftrightarrow> propagationStopped fl \<or> halts ?c" by (auto simp: after_handler_def halts_def)
        show ?thesis using Cons.IH [OF rest(1) i] o True a st rest(2) by (auto simp: Cons_eq_append_conv)
      qed
    qed
  qed simp
  then obtain rest where r: "filter (namespace_ok ev) hs = map (fst \<circ> snd) calls @ rest" "rest \<noteq> [] \<longrightarrow> calls \<noteq> [] \<and> at_once (last calls)"
      "\<forall>xs c ys. calls = xs @ c # ys \<longrightarrow> at_once c \<longrightarrow> ys = []" "\<forall>c\<in>set calls. fst c = el"
      "propagationStopped fl' \<longleftrightarrow> propagationStopped fl \<or> (\<exists>c\<in>set calls. halts c)"
      "immediateStopped fl' \<longleftrightarrow> (\<exists>c\<in>set calls. at_once c)" "replay act calls s = Some s'" by blast
  then show "\<forall>c\<in>set calls. fst c = el" "propagationStopped fl' \<longleftrightarrow> propagationStopped fl \<or> (\<exists>c\<in>set calls. halts c)"
      "immediateStopped fl' \<longleftrightarrow> (\<exists>c\<in>set calls. at_once c)" "replay act calls s = Some s'" by blast+
  have m: "map (Pair el) (map (fst \<circ> snd) calls) = map callee calls" using r(4) by (simp add: callee_def)
  have "fst y = fst c" if "calls = xs @ c # ys" "y \<in> set ys" for xs c ys y
    using r(4) that by auto
  then show "carried_out (map (Pair el) (filter (namespace_ok ev) hs)) calls"
    unfolding carried_out_def r(1) map_append m using r(2,3) by (intro conjI exI [of _ "map (Pair el) rest"]) auto
qed

text \<open>Flags of an event nobody has stopped, and of one after some calls.\<close>

definition going :: "flags \<Rightarrow> bool" where
  "going fl \<longleftrightarrow> \<not> propagationStopped fl \<and> \<not> immediateStopped fl"

definition after :: "'e call list \<Rightarrow> flags \<Rightarrow> bool" where
  "after calls fl \<longleftrightarrow> (if \<exists>c\<in>set calls. halts c then propagationStopped fl else going fl)"

lemma run_handlers_after:
  assumes "run_handlers look act ev el hs fl s = (calls, fl', s')" "going fl" "event_related ev = None"
  shows "after calls fl'"
proof -
  have i: "\<not> immediateStopped fl" "\<not> propagationStopped fl" using assms(2) by (simp_all add: going_def)
  show ?thesis
  proof (cases "\<exists>c\<in>set calls. halts c")
    case False
    then have "\<not> (\<exists>c\<in>set calls. at_once c)" using at_once_halts by blast
    then show ?thesis using run_handlers_calls(3,4) [OF assms(1) i(1) assms(3)] i(2) False by (simp add: after_def going_def)
  qed (use run_handlers_calls(3) [OF assms(1) i(1) assms(3)] in \<open>simp add: after_def\<close>)
qed

lemma replay_append: "replay act c s = Some r \<Longrightarrow> replay act (c @ d) s = replay act d r"
proof (induction c arbitrary: s)
  case (Cons x c)
  obtain el h out where x: "x = (el, h, out)" by (cases x)
  obtain o' t where a: "act el (ho_guid h) s = (o', t)" by (metis surj_pair)
  show ?case
  proof (cases "o' = out")
    case True
    then have "replay act c t = Some r" using Cons.prems by (simp add: x a)
    then show ?thesis using Cons.IH [of t] True by (simp add: x a)
  next
    case False
    then show ?thesis using Cons.prems by (simp add: x a)
  qed
qed simp

lemma run_queue_stopped: "propagationStopped fl \<Longrightarrow> run_queue look act ev q fl s = ([], fl, s)"
  by (cases q) auto

lemma run_queue_calls:
  assumes "run_queue look act ev q fl s = (calls, fl', s')" "going fl" "event_related ev = None" "distinct (map fst q)"
  shows "carried_out (concat (map (\<lambda>(el, hs). map (Pair el) (filter (namespace_ok ev) hs)) q)) calls \<and> after calls fl' \<and> replay act calls s = Some s'"
  using assms(1,2,4)
proof (induction q arbitrary: fl calls s)
  case Nil
  then show ?case by (simp add: after_def)
next
  case (Cons g q)
  let ?all = "\<lambda>q. concat (map (\<lambda>(el, hs). map (Pair el) (filter (namespace_ok ev) hs)) q)"
  obtain el hs where g: "g = (el, hs)" by (cases g)
  obtain c fl1 r d where r: "run_handlers look act ev el hs fl s = (c, fl1, r)" "run_queue look act ev q fl1 r = (d, fl', s')" "calls = c @ d"
    using Cons.prems unfolding g going_def by (auto split: prod.splits)
  have i: "\<not> immediateStopped fl" using Cons.prems(2) by (simp add: going_def)
  note h = run_handlers_calls [OF r(1) i assms(3)] and a = run_handlers_after [OF r(1) Cons.prems(2) assms(3)]
  show ?case
  proof (cases "\<exists>x\<in>set c. halts x")
    case True
    then have e: "d = [] \<and> fl' = fl1 \<and> s' = r" using a r(2) run_queue_stopped [of fl1 look act ev q r] by (simp add: after_def)
    have "fst (last c) = el" using True h(2) last_in_set [of c] by (metis empty_iff empty_set)
    moreover have "el \<notin> fst ` set (?all q)" using Cons.prems(3) g by (force split: prod.splits)
    ultimately have "\<forall>x\<in>set (?all q). fst x \<noteq> fst (last c)" by (metis imageI)
    then have "carried_out (map (Pair el) (filter (namespace_ok ev) hs) @ ?all q) c"
      by (rule carried_out_stop [OF h(1) True])
    then show ?thesis using e a h(5) r(3) g by simp
  next
    case False
    then have "going fl1" using a by (simp add: after_def)
    then have ih: "carried_out (?all q) d" "after d fl'" "replay act d r = Some s'" using Cons.IH [OF r(2)] Cons.prems(3) by simp_all
    have "carried_out (map (Pair el) (filter (namespace_ok ev) hs) @ ?all q) (c @ d)"
      using False by (intro carried_out_append [OF h(1) _ ih(1)]) blast
    moreover have "after (c @ d) fl'" using ih(2) False unfolding after_def set_append bex_Un by simp
    ultimately show ?thesis using ih(3) replay_append [OF h(5)] r(3) g by simp
  qed
qed

text \<open>The names of the handlers' spaces, as the page writes them.\<close>

definition named :: "handle_obj \<Rightarrow> bool" where
  "named h \<longleftrightarrow> ho_namespace h = [] \<or> (\<forall>x\<in>set (spaces h). name x)"

definition table_named :: "event_table \<Rightarrow> bool" where
  "table_named events \<longleftrightarrow> (\<forall>(ty, hs, n)\<in>set events. \<forall>h\<in>set hs. named h)"

lemma namespace_ok_named:
  assumes "named h" "\<forall>x\<in>set (event_namespaces ev). name x"
  shows "namespace_ok ev h \<longleftrightarrow> event_namespaces ev = [] \<or> subseq (event_namespaces ev) (spaces h)"
proof (cases "event_namespaces ev")
  case Nil
  then show ?thesis by (simp add: namespace_ok_def)
next
  case (Cons x xs)
  let ?ns = "event_namespaces ev"
  have x: "name x" "x \<noteq> []" using assms(2) Cons by (simp_all add: name_def)
  have j: "join ''.'' ?ns \<noteq> []" using x(2) Cons by (cases xs) simp_all
  show ?thesis
  proof (cases "ho_namespace h = []")
    case True
    then have "spaces h = [[]]" by (simp add: spaces_def)
    moreover have "test (namespace_regex ?ns) (join ''.'' []) \<longleftrightarrow> subseq ?ns []"
      using assms(2) Cons by (intro namespace_match) simp_all
    ultimately show ?thesis using True j Cons x(2) by (simp add: namespace_ok_def)
  next
    case False
    then have n: "\<forall>x\<in>set (spaces h). name x" using assms(1) by (simp add: named_def)
    have "test (namespace_regex ?ns) (join ''.'' (spaces h)) \<longleftrightarrow> subseq ?ns (spaces h)"
      using assms(2) Cons n by (intro namespace_match) simp_all
    then show ?thesis using j Cons by (simp add: namespace_ok_def spaces_def split_join)
  qed
qed

text \<open>The list of handlers that the code makes is what is due, if the table is in order.\<close>

lemma queue_due:
  assumes "table_ok (tables p this)" "table_named (tables p this)" "\<forall>x\<in>set (event_namespaces ev). name x" "\<not> event_button ev"
  shows "concat (map (\<lambda>(el, hs). map (Pair el) (filter (namespace_ok ev) hs)) (handler_queue p ev this (bound p this (event_type ev)))) =
    due p (event_namespaces ev) (event_target ev) this (event_type ev)"
proof -
  let ?q = "\<lambda>q. concat (map (\<lambda>(el, hs). map (Pair el) (filter (namespace_ok ev) hs)) q)"
  let ?way = "takeWhile (\<lambda>el. el \<noteq> this) (event_target ev # ancestors p (event_target ev))"
  let ?el = "\<lambda>el. is_element p el \<and> \<not> (event_type ev = ''click'' \<and> is_disabled p el)"
  let ?asked = "\<lambda>h. event_namespaces ev = [] \<or> subseq (event_namespaces ev) (spaces h)"
  obtain hs n where b: "bound p this (event_type ev) = (hs, n)" by (metis surj_pair)
  have hs: "(case map_of (tables p this) (event_type ev) of None \<Rightarrow> [] | Some e \<Rightarrow> fst e) = hs"
    using b by (auto simp: bound_def split: option.splits)
  have ok: "n \<le> length hs \<and> (\<forall>h\<in>set (take n hs). given (ho_selector h)) \<and> (\<forall>h\<in>set (drop n hs). \<not> given (ho_selector h)) \<and> (\<forall>h\<in>set hs. named h)"
  proof (cases "map_of (tables p this) (event_type ev)")
    case None
    then show ?thesis using b by (simp add: bound_def)
  next
    case (Some e)
    then have e: "e = (hs, n)" using b by (simp add: bound_def)
    then have "(event_type ev, hs, n) \<in> set (tables p this)" using Some by (auto dest: map_of_SomeD)
    then have "\<forall>h\<in>set hs. named h" using assms(2) unfolding table_named_def by blast
    moreover have "entry_ok (event_type ev) (hs, n)" using table_ok_lookup [OF assms(1) Some] e by simp
    ultimately show ?thesis by (simp add: entry_ok_def)
  qed
  have nok: "filter (namespace_ok ev) xs = filter ?asked xs" if "set xs \<subseteq> set hs" for xs
    using namespace_ok_named assms(3) ok that by (intro filter_cong refl) blast
  have given: "given (ho_selector h) \<longleftrightarrow> (\<exists>sel. sel \<noteq> [] \<and> ho_selector h = Some sel)" for h by (cases "ho_selector h") auto
  have direct: "\<not> given (ho_selector h) \<longleftrightarrow> ho_selector h = None \<or> ho_selector h = Some []" for h by (cases "ho_selector h") auto
  have sub: "set (take n hs) \<subseteq> set hs" "set (drop n hs) \<subseteq> set hs" by (rule set_take_subset, rule set_drop_subset)
  have parts: "filter (\<lambda>h. given (ho_selector h) \<and> P h) hs = filter P (take n hs)" "filter (\<lambda>h. \<not> given (ho_selector h)) hs = drop n hs" for P
  proof -
    have "filter (\<lambda>h. given (ho_selector h) \<and> P h) (a @ b) = filter P a \<and> filter (\<lambda>h. \<not> given (ho_selector h)) (a @ b) = b"
      if "\<forall>h\<in>set a. given (ho_selector h)" "\<forall>h\<in>set b. \<not> given (ho_selector h)" for a b
      using that by (induction a) (simp_all add: filter_empty_conv filter_id_conv)
    from this [of "take n hs" "drop n hs"] ok
    show "filter (\<lambda>h. given (ho_selector h) \<and> P h) hs = filter P (take n hs)" "filter (\<lambda>h. \<not> given (ho_selector h)) hs = drop n hs"
      by simp_all
  qed
  let ?ms = "\<lambda>el. filter (\<lambda>h. finds p this (the (ho_selector h)) el) (take n hs)"
  have inner: "?q (delegated p ev this (take n hs)) = concat (map (\<lambda>el. map (Pair el) (filter ?asked (?ms el))) (filter ?el ?way))"
  proof -
    have a: "?q (filter (\<lambda>(cur, ms). ms \<noteq> []) q) = ?q q" for q by (induction q) auto
    have b: "?q (map (\<lambda>el. (el, if B el then M el else [])) els) = concat (map (\<lambda>el. map (Pair el) (filter (namespace_ok ev) (M el))) (filter B els))"
      for B M els by (induction els) simp_all
    have c: "filter (namespace_ok ev) (?ms el) = filter ?asked (?ms el)" for el using sub(1) by (intro nok) auto
    have "?el = (\<lambda>el. is_element p el \<and> (\<not> is_disabled p el \<or> event_type ev \<noteq> ''click''))" by auto
    then show ?thesis unfolding delegated_def a b c by (simp only:)
  qed
  have d0: "n = 0 \<Longrightarrow> ?q (delegated p ev this (take n hs)) = []" unfolding inner by simp
  have q: "?q (handler_queue p ev this (hs, n)) = ?q (delegated p ev this (take n hs)) @ map (Pair this) (filter ?asked (drop n hs))"
    using d0 nok [OF sub(2)] assms(4) by (auto simp: handler_queue_def)
  have m: "filter (\<lambda>h. \<exists>sel. sel \<noteq> [] \<and> ho_selector h = Some sel \<and> finds p this sel el) (filter ?asked hs) = filter ?asked (?ms el)" for el
  proof -
    have "filter (\<lambda>h. \<exists>sel. sel \<noteq> [] \<and> ho_selector h = Some sel \<and> finds p this sel el) (filter ?asked hs) =
        filter (\<lambda>h. given (ho_selector h) \<and> (finds p this (the (ho_selector h)) el \<and> ?asked h)) hs"
      unfolding filter_filter given by (rule filter_cong [OF refl]) auto
    also have "\<dots> = filter (\<lambda>h. finds p this (the (ho_selector h)) el \<and> ?asked h) (take n hs)" by (rule parts(1))
    finally show ?thesis by (simp add: conj_commute)
  qed
  have dir: "filter (\<lambda>h. ho_selector h = None \<or> ho_selector h = Some []) (filter ?asked hs) = filter ?asked (drop n hs)"
  proof -
    have "filter (\<lambda>h. ho_selector h = None \<or> ho_selector h = Some []) (filter ?asked hs) = filter ?asked (filter (\<lambda>h. \<not> given (ho_selector h)) hs)"
      unfolding filter_filter direct by (rule filter_cong [OF refl]) auto
    then show ?thesis by (simp only: parts(2))
  qed
  show ?thesis unfolding b q inner due_def Let_def hs m dir ..
qed

lemma queue_distinct:
  assumes "distinct (event_target ev # ancestors p (event_target ev))"
  shows "distinct (map fst (handler_queue p ev this e))"
proof -
  have "distinct (takeWhile (\<lambda>cur. cur \<noteq> this) (event_target ev # ancestors p (event_target ev)))"
    by (rule distinct_takeWhile [OF assms])
  then have "distinct (map fst (delegated p ev this hs))" for hs
    unfolding delegated_def by (intro distinct_map_filter) (simp add: comp_def)
  moreover have "this \<notin> fst ` set (delegated p ev this hs)" for hs
    unfolding delegated_def by (auto dest: set_takeWhileD split: if_splits)
  ultimately show ?thesis by (cases e) (simp add: handler_queue_def)
qed

subsection \<open>The way of an event\<close>

text \<open>A visit to an element of an orderly document.\<close>

definition orderly :: "'e page \<Rightarrow> 'e \<Rightarrow> 'e \<Rightarrow> bool" where
  "orderly p target this \<longleftrightarrow>
     distinct (target # ancestors p target) \<and> table_ok (tables p this) \<and> table_named (tables p this)"

definition stopped_at :: "('e, 's) visit \<Rightarrow> bool" where
  "stopped_at v = (case v of (cur, ty, r, calls) \<Rightarrow> \<exists>c\<in>set calls. halts c)"

lemma visit_stopped: "propagationStopped fl \<Longrightarrow> visit look act path fl s = ([], fl, s)"
  by (cases path) auto

lemma dispatch_calls:
  assumes "dispatch look act ev cur fl s = (calls, fl', s')" "going fl" "event_related ev = None" "\<not> event_button ev"
    "\<forall>x\<in>set (event_namespaces ev). name x" "orderly (look s) (event_target ev) cur"
  shows "carried_out (due (look s) (event_namespaces ev) (event_target ev) cur (event_type ev)) calls"
  using run_queue_calls [OF assms(1) [unfolded dispatch_def] assms(2,3) queue_distinct] queue_due [OF _ _ assms(5,4)] assms(6)
  unfolding orderly_def by metis

text \<open>Without an order of the document: the flags and the state.\<close>

lemma run_handlers_flags:
  assumes "run_handlers look act ev el hs fl s = (calls, fl', s')" "going fl" "event_related ev = None"
  shows "after calls fl' \<and> replay act calls s = Some s'"
  using run_handlers_after [OF assms] run_handlers_calls(5) [OF assms(1) _ assms(3)] assms(2) by (simp add: going_def)

lemma run_queue_flags:
  assumes "run_queue look act ev q fl s = (calls, fl', s')" "going fl" "event_related ev = None"
  shows "after calls fl' \<and> replay act calls s = Some s'"
  using assms(1,2)
proof (induction q arbitrary: fl calls s)
  case (Cons g q)
  obtain el hs where g: "g = (el, hs)" by (cases g)
  obtain c fl1 r d where r: "run_handlers look act ev el hs fl s = (c, fl1, r)" "run_queue look act ev q fl1 r = (d, fl', s')" "calls = c @ d"
    using Cons.prems unfolding g going_def by (auto split: prod.splits)
  note h = run_handlers_flags [OF r(1) Cons.prems(2) assms(3)]
  show ?case
  proof (cases "\<exists>x\<in>set c. halts x")
    case True
    then have "d = [] \<and> fl' = fl1 \<and> s' = r" using h r(2) run_queue_stopped [of fl1 look act ev q r] by (simp add: after_def)
    then show ?thesis using h r(3) by simp
  next
    case False
    then have "going fl1" using h by (simp add: after_def)
    then have "after d fl' \<and> replay act d r = Some s'" using Cons.IH [OF r(2)] by simp
    moreover have "(\<exists>x\<in>set (c @ d). halts x) \<longleftrightarrow> (\<exists>x\<in>set d. halts x)" using False by auto
    ultimately show ?thesis using replay_append [of act c s r d] h unfolding r(3) after_def by simp
  qed
qed (simp add: after_def)

lemma visit_calls:
  assumes "visit look act path fl s = (visits, fl', s')" "going fl"
    "\<forall>(cur, ev)\<in>set path. event_related ev = None \<and> \<not> event_button ev \<and> event_namespaces ev = ns \<and> event_target ev = target"
    "\<forall>x\<in>set ns. name x"
  shows "(\<exists>rest. map (\<lambda>(cur, ev). (cur, event_type ev)) path = map (\<lambda>(cur, ty, r, calls). (cur, ty)) visits @ rest \<and>
        (rest = [] \<or> (\<exists>v\<in>set visits. stopped_at v))) \<and>
     (\<forall>xs v ys. visits = xs @ v # ys \<longrightarrow> stopped_at v \<longrightarrow> ys = []) \<and>
     replay_visits act visits s = Some s' \<and>
     (\<forall>(cur, ty, r, calls)\<in>set visits. orderly (look r) target cur \<longrightarrow> carried_out (due (look r) ns target cur ty) calls)"
  using assms(1-3)
proof (induction path arbitrary: fl visits s)
  case (Cons g path)
  obtain cur ev where g: "g = (cur, ev)" by (cases g)
  have ev: "event_related ev = None" "\<not> event_button ev" "event_namespaces ev = ns" "event_target ev = target"
    using Cons.prems(3) unfolding g by simp_all
  obtain c fl1 r vs where r: "dispatch look act ev cur fl s = (c, fl1, r)" "visit look act path fl1 r = (vs, fl', s')"
      "visits = (cur, event_type ev, s, c) # vs"
    using Cons.prems(1,2) unfolding g going_def by (auto split: prod.splits)
  have f: "after c fl1" "replay act c s = Some r"
    using run_queue_flags [OF r(1) [unfolded dispatch_def] Cons.prems(2) ev(1)] by simp_all
  have call: "orderly (look s) target cur \<longrightarrow> carried_out (due (look s) ns target cur (event_type ev)) c"
    using dispatch_calls [OF r(1) Cons.prems(2) ev(1,2)] assms(4) ev(3,4) by simp
  show ?case
  proof (cases "stopped_at (cur, event_type ev, s, c)")
    case True
    then have "vs = [] \<and> fl' = fl1 \<and> s' = r" using f(1) r(2) visit_stopped [of fl1 look act path r] by (simp add: after_def stopped_at_def)
    then show ?thesis using True f(2) call r(3) g by (auto simp: Cons_eq_append_conv)
  next
    case False
    then have k: "going fl1" using f(1) by (simp add: after_def stopped_at_def)
    have prem: "\<forall>(cur, ev)\<in>set path. event_related ev = None \<and> \<not> event_button ev \<and> event_namespaces ev = ns \<and> event_target ev = target"
      using Cons.prems(3) by simp
    note IH = Cons.IH [OF r(2) k prem]
    have ih: "\<exists>rest. map (\<lambda>(cur, ev). (cur, event_type ev)) path = map (\<lambda>(cur, ty, r, calls). (cur, ty)) vs @ rest \<and>
          (rest = [] \<or> (\<exists>v\<in>set vs. stopped_at v))"
        "\<forall>xs v ys. vs = xs @ v # ys \<longrightarrow> stopped_at v \<longrightarrow> ys = []" "replay_visits act vs r = Some s'"
        "\<forall>(cur, ty, r, calls)\<in>set vs. orderly (look r) target cur \<longrightarrow> carried_out (due (look r) ns target cur ty) calls"
      by (rule IH [THEN conjunct1], rule IH [THEN conjunct2, THEN conjunct1],
          rule IH [THEN conjunct2, THEN conjunct2, THEN conjunct1], rule IH [THEN conjunct2, THEN conjunct2, THEN conjunct2])
    have "ys = []" if "visits = xs @ v # ys" "stopped_at v" for xs v ys
    proof (cases xs)
      case Nil
      then show ?thesis using that False r(3) by simp
    next
      case (Cons z zs)
      then have "vs = zs @ v # ys" using that(1) r(3) by simp
      then show ?thesis using ih(2) that(2) by blast
    qed
    moreover have "replay_visits act visits s = Some s'" using ih(3) f(2) r(3) by simp
    moreover have "\<forall>(cur, ty, r, calls)\<in>set visits. orderly (look r) target cur \<longrightarrow> carried_out (due (look r) ns target cur ty) calls"
      using ih(4) call r(3) by simp
    moreover obtain rest where rest: "map (\<lambda>(cur, ev). (cur, event_type ev)) path = map (\<lambda>(cur, ty, r, calls). (cur, ty)) vs @ rest"
        "rest = [] \<or> (\<exists>v\<in>set vs. stopped_at v)"
      using ih(1) by blast
    have "map (\<lambda>(cur, ev). (cur, event_type ev)) (g # path) = map (\<lambda>(cur, ty, r, calls). (cur, ty)) visits @ rest \<and>
          (rest = [] \<or> (\<exists>v\<in>set visits. stopped_at v))"
      using rest r(3) g by (intro conjI) (simp, auto)
    ultimately show ?thesis by blast
  qed
qed simp

lemma path_way:
  "map (\<lambda>(cur, ev). (cur, event_type ev)) (event_path p t ns only el) = way_up p t only el"
  by (simp add: event_path_def way_up_def Let_def comp_def entered_as_def bubbles_as_def delegateType_def bindType_def)

text \<open>
  C22. Triggered events bubble. The event visits the element and then what contains it, from the inside out, under the type
  that these listen to; nothing that contains it is left out, unless a function stops the event, and then that visit is the last.
  At each visit, in the state of the page in which the event arrives there, the functions called are those that are due
  (\<open>due\<close>), in that order; of these none is left out, except behind one that stops the event at once, or, on other
  elements, behind one that stops it or returns \<open>false\<close>. The functions may change the document and what is bound to it
  while the event is on its way: elements that it has not reached yet are asked anew. Each visit assumes that the tables are
  in order, as binding and unbinding leave them, that name spaces are made of word characters, and that no element contains
  itself.
\<close>

theorem events_bubble:
  assumes "event_trigger look act w only el s = (visits, fl, s')" "split_on (CHR ''.'') w = t # ns" "\<forall>x\<in>set ns. name x"
  shows "(\<exists>rest. way_up (look s) t only el = map (\<lambda>(cur, ty, r, calls). (cur, ty)) visits @ rest \<and>
        (rest = [] \<or> (\<exists>v\<in>set visits. stopped_at v))) \<and>
     (\<forall>xs v ys. visits = xs @ v # ys \<longrightarrow> stopped_at v \<longrightarrow> ys = []) \<and>
     replay_visits act visits s = Some s' \<and>
     (\<forall>(cur, ty, r, calls)\<in>set visits. orderly (look r) el cur \<longrightarrow> carried_out (due (look r) (sort ns) el cur ty) calls)"
proof -
  let ?path = "event_path (look s) t (sort ns) only el"
  have v: "visit look act ?path \<lparr>propagationStopped = False, immediateStopped = False, defaultPrevented = False\<rparr> s = (visits, fl, s')"
    using assms(1,2) by (simp add: event_trigger_def Let_def)
  have p: "\<forall>(cur, ev)\<in>set ?path. event_related ev = None \<and> \<not> event_button ev \<and> event_namespaces ev = sort ns \<and> event_target ev = el"
    by (auto simp: event_path_def Let_def)
  have n: "\<forall>x\<in>set (sort ns). name x" using assms(3) by simp
  show ?thesis using visit_calls [OF v _ p n] unfolding path_way by (simp add: going_def)
qed

subsection \<open>Unbinding\<close>

lemma type_namespace_None: "type_namespace w = None \<longleftrightarrow> dropWhile (\<lambda>c. c \<noteq> CHR ''.'') w = ''.''"
proof (cases "dropWhile (\<lambda>c. c \<noteq> CHR ''.'') w")
  case (Cons d ns)
  moreover from this have "d = CHR ''.''" by (simp add: dropWhile_eq_Cons_conv)
  ultimately show ?thesis by (simp add: type_namespace_def)
next
  case Nil
  then show ?thesis unfolding type_namespace_def Nil by simp
qed

lemma type_namespace_parts:
  assumes "t \<noteq> []" "CHR ''.'' \<notin> set t" "type_namespace w = Some ([], ns)"
  shows "type_namespace (t @ w) = Some (t, ns)"
proof -
  let ?P = "\<lambda>c. c \<noteq> CHR ''.''"
  have t: "dropWhile ?P (t @ w) = dropWhile ?P w" "takeWhile ?P (t @ w) = t @ takeWhile ?P w"
    by (rule dropWhile_append2, use assms(2) in force) (rule takeWhile_append2, use assms(2) in force)
  show ?thesis
  proof (cases "dropWhile ?P w")
    case Nil
    then show ?thesis using assms(3) unfolding type_namespace_def t Nil by simp
  next
    case (Cons d u)
    then show ?thesis using assms(3) unfolding type_namespace_def t Cons by (simp split: if_splits)
  qed
qed

lemma type_namespace_more: "CHR ''.'' \<notin> set t \<Longrightarrow> type_namespace w = None \<Longrightarrow> type_namespace (t @ w) = None"
  unfolding type_namespace_None by (subst dropWhile_append2) auto

lemma entry_type:
  assumes "table_ok events" "ty \<in> set (map fst events)"
  shows "ty \<noteq> [] \<and> CHR ''.'' \<notin> set ty"
proof -
  obtain e where "(ty, e) \<in> set events" using assms(2) by auto
  then have e: "entry_ok ty e" using assms(1) unfolding table_ok_def by blast
  then obtain h hs where h: "fst e = h # hs" unfolding entry_ok_def by (cases "fst e") auto
  then have "ho_origType h \<noteq> []" "CHR ''.'' \<notin> set (ho_origType h)" "table_type (ho_origType h) (ho_selector h) = ty"
    using e unfolding entry_ok_def by simp_all
  then show ?thesis unfolding table_type_def delegateType_def bindType_def by (auto split: if_splits)
qed

lemma unbind_word_ends:
  assumes "table_ok events" "type_namespace w \<noteq> None"
  shows "\<exists>events'. unbind_word (Suc (Suc n)) mapped guid selector w events = Some events'"
proof -
  obtain t ns where t: "type_namespace w = Some (t, ns)" using assms(2) by auto
  show ?thesis
  proof (cases "t = []")
    case True
    have all: "\<exists>events'. fold (\<lambda>ty r. Option.bind r (unbind_word (Suc n) True guid selector (ty @ w))) tys (Some ev) = Some events'"
      if "\<forall>ty\<in>set tys. ty \<noteq> [] \<and> CHR ''.'' \<notin> set ty" for tys ev
      using that
    proof (induction tys arbitrary: ev)
      case (Cons ty tys)
      then have "type_namespace (ty @ w) = Some (ty, ns)" using t True by (intro type_namespace_parts) auto
      then show ?case using Cons by simp
    qed simp
    show ?thesis using all [of "map fst events" events] entry_type [OF assms(1)] t True
      by (subst unbind_word.simps(2)) (simp del: unbind_word.simps)
  qed (simp add: t)
qed

lemma unbind_word_loops:
  assumes "table_ok events" "events \<noteq> []" "type_namespace w = None"
  shows "unbind_word n mapped guid selector w events = None"
  using assms(3)
proof (induction n arbitrary: mapped w)
  case (Suc n)
  obtain ty e rest where e: "events = (ty, e) # rest" using assms(2) by (cases events) auto
  have "type_namespace (ty @ w) = None" using entry_type [OF assms(1), of ty] e Suc.prems by (intro type_namespace_more) auto
  then have "unbind_word n True guid selector (ty @ w) events = None" by (rule Suc.IH)
  moreover have "fold (\<lambda>ty r. Option.bind r (unbind_word n True guid selector (ty @ w))) tys None = None" for tys by (induction tys) simp_all
  ultimately show ?case using Suc.prems by (simp add: e)
qed simp

text \<open>Unbinding ends: with no word that stops at its first dot, two calls deep are enough for any element.\<close>

theorem unbinding_ends:
  assumes "table_ok events" "\<forall>w\<in>set (type_words types). type_namespace w \<noteq> None"
  shows "\<exists>events'. event_remove (Suc (Suc n)) types guid selector events = Some events'"
proof -
  have "\<exists>ev'. foldr (\<lambda>w r. Option.bind r (unbind_word (Suc (Suc n)) False guid selector w)) ws (Some events) = Some ev' \<and> table_ok ev'"
    if "\<forall>w\<in>set ws. type_namespace w \<noteq> None" for ws
    using that
  proof (induction ws)
    case (Cons w ws)
    then obtain ev where ev: "foldr (\<lambda>w r. Option.bind r (unbind_word (Suc (Suc n)) False guid selector w)) ws (Some events) = Some ev" "table_ok ev" by (auto simp del: unbind_word.simps)
    then obtain ev' where "unbind_word (Suc (Suc n)) False guid selector w ev = Some ev'" using unbind_word_ends Cons.prems by (metis list.set_intros(1))
    then show ?case using ev unbind_word_ok by (auto simp del: unbind_word.simps)
  qed (use assms(1) in simp)
  then show ?thesis unfolding event_remove_def using assms(2) by blast
qed

text \<open>Unbinding a word that stops at its first dot never ends: it calls itself for every type of the element with the same
  word behind it.\<close>

theorem unbinding_a_bare_dot:
  assumes "table_ok events" "events \<noteq> []" "t \<noteq> []" "\<forall>c\<in>set t. is_word c"
  shows "event_remove n (t @ ''.'') guid selector events = None"
proof -
  have ws: "\<forall>c\<in>set (t @ ''.''). \<not> is_ws c" using assms(4) word_not_ws by (auto simp: is_ws_def)
  have "CHR ''.'' \<notin> set t" using assms(3,4) name_chars [of t] by (simp add: name_def)
  then have "type_namespace (t @ ''.'') = None" unfolding type_namespace_None by (subst dropWhile_append2) auto
  then show ?thesis using unbind_word_loops [OF assms(1,2)] class_words_single [OF _ ws]
    by (simp add: event_remove_def type_words_def)
qed

definition foreign :: "string \<Rightarrow> event_table \<Rightarrow> bool" where
  "foreign ns events \<longleftrightarrow>
     (\<forall>(ty, hs, n)\<in>set events. \<forall>h\<in>set hs. (\<forall>x\<in>set (spaces h). name x) \<and> ns \<notin> set (spaces h) \<or> ho_namespace h = [])"

lemma is_removed_foreign:
  assumes "name ns" "(\<forall>x\<in>set (spaces h). name x) \<and> ns \<notin> set (spaces h) \<or> ho_namespace h = []"
  shows "\<not> is_removed mapped t (Some ns) guid selector h"
proof -
  obtain hs where hs: "ho_namespace h = join ''.'' hs" "\<forall>x\<in>set hs. name x" "ns \<notin> set hs"
  proof (cases "ho_namespace h = []")
    case True
    then show thesis using that [of "[]"] by simp
  next
    case False
    then show thesis using that [of "spaces h"] assms(2) by (simp add: spaces_def split_join)
  qed
  have "namespaces (Some ns) = [ns]" using name_chars [OF assms(1)] by (simp add: namespaces_def split_on_no_sep)
  moreover have "\<not> subseq [ns] hs" using hs(3) by (simp add: subseq_singleton_left)
  ultimately show ?thesis using namespace_match [of "[ns]" hs] assms(1) hs(1,2) by (simp add: is_removed_def)
qed

text \<open>C23. What is bound under a name of its own is unbound by that name, and nothing else is: an element's table is then the same
  as before.\<close>

theorem unbinding_undoes_binding:
  assumes "table_ok events" "t \<noteq> []" "\<forall>c\<in>set t. is_word c" "name ns" "foreign ns events" "selector \<noteq> Some ''**''"
  shows "event_remove (Suc n) (t @ ''.'' @ ns) None selector (event_add (t @ ''.'' @ ns) guid selector events) = Some events"
proof -
  let ?w = "t @ ''.'' @ ns" and ?ty = "table_type t selector"
  let ?h = "\<lparr>ho_origType = t, ho_guid = guid, ho_selector = selector, ho_namespace = ns\<rparr>"
  have dots: "CHR ''.'' \<notin> set t" using assms(2,3) name_chars [of t] by (simp add: name_def)
  have "\<forall>c\<in>set ?w. \<not> is_ws c" using assms(3,4) word_not_ws by (auto simp: is_ws_def name_def)
  then have words: "type_words ?w = [?w]" using class_words_single [of ?w] by (simp add: type_words_def)
  have "ns \<noteq> []" using assms(4) by (simp add: name_def)
  then have tn: "type_namespace ?w = Some (t, Some ns)" unfolding type_namespace_def using dots
    by (subst dropWhile_append2, force, subst takeWhile_append2, force) simp
  have nss: "namespaces (Some ns) = [ns]" using name_chars [OF assms(4)] by (simp add: namespaces_def split_on_no_sep)
  let ?gone = "is_removed False t (Some ns) None selector"
  have new: "?gone ?h" using namespace_match [of "[ns]" "[ns]"] assms(4) nss by (simp add: is_removed_def)
  have step: "event_remove (Suc n) ?w None selector (event_add ?w guid selector events) =
      Some (remove_handlers False t (Some ns) None selector (add_handler ?w guid selector events))"
    using tn assms(2) unfolding event_remove_def event_add_def words by simp
  have added: "add_handler ?w guid selector events =
      AList.update ?ty (if given selector then (take m hs @ ?h # drop m hs, Suc m) else (hs @ [?h], m)) events"
    if "(case map_of events ?ty of None \<Rightarrow> ([], 0) | Some e \<Rightarrow> e) = (hs, m)" for hs m
    using tn assms(2) nss that unfolding add_handler_def Let_def by simp
  have twice: "AList.update k v (AList.update k u al) = AList.update k v al" for k v u and al :: event_table by (induction al) auto
  have restored: "remove_handlers False t (Some ns) None selector (AList.update ?ty (if given selector then (take m hs @ ?h # drop m hs, Suc m) else (hs @ [?h], m)) events) =
      (if hs = [] then AList.delete ?ty events else AList.update ?ty (hs, m) events)"
    if "\<forall>h\<in>set hs. \<not> ?gone h" for hs m
  proof -
    have old: "filter ?gone hs = []" "filter (\<lambda>h. \<not> ?gone h) hs = hs" using that by (auto simp: filter_empty_conv filter_id_conv)
    have parts: "filter ?gone (take m hs) = []" "filter ?gone (drop m hs) = []"
        "filter (\<lambda>h. \<not> ?gone h) (take m hs) = take m hs" "filter (\<lambda>h. \<not> ?gone h) (drop m hs) = drop m hs"
      using that by (auto simp: filter_empty_conv filter_id_conv dest: in_set_takeD in_set_dropD)
    show ?thesis by (cases "given selector")
      (use new old parts in \<open>simp_all add: remove_handlers_def Let_def update_conv' delete_update_same twice\<close>)
  qed
  show ?thesis
  proof (cases "map_of events ?ty")
    case None
    then have "?ty \<notin> fst ` set events" by (simp add: map_of_eq_None_iff)
    then show ?thesis unfolding step using added [of "[]" 0] restored [of "[]" 0] None by simp
  next
    case (Some e)
    obtain hs m where e: "e = (hs, m)" by (cases e)
    then have "(?ty, hs, m) \<in> set events" using Some by (auto dest: map_of_SomeD)
    then have "\<forall>h\<in>set hs. \<not> ?gone h" using assms(5) is_removed_foreign [OF assms(4)] unfolding foreign_def by blast
    moreover have "hs \<noteq> []" using table_ok_lookup [OF assms(1) Some] e by (simp add: entry_ok_def)
    ultimately show ?thesis unfolding step using added [of hs m] restored [of hs m] Some e by (simp add: update_triv)
  qed
qed

subsection \<open>Examples\<close>

text \<open>
  A text field in a box in the document: the box and the document listen to the keys. The function that the box calls for the
  field unbinds what the document has; the state is whether it has been called.
\<close>

definition key_handler :: "nat \<Rightarrow> string option \<Rightarrow> string \<Rightarrow> handle_obj" where
  "key_handler g sel ns = \<lparr>ho_origType = ''keydown'', ho_guid = g, ho_selector = sel, ho_namespace = ns\<rparr>"

definition nested :: "bool \<Rightarrow> nat page" where
  "nested unbound = \<lparr>ancestors = (\<lambda>e. if e = 3 then [2, 1] else if e = 2 then [1] else []), is_element = (\<lambda>e. e \<noteq> 1), is_disabled = (\<lambda>e. False),
     finds = (\<lambda>e sel c. sel = ''input'' \<and> c = 3),
     tables = (\<lambda>e. if e = 1 then (if unbound then [] else [(''keydown'', [key_handler 7 None ''facet''], 0)])
                   else if e = 2 then [(''keydown'', [key_handler 5 (Some ''input'') [], key_handler 6 None []], 1)]
                   else [])\<rparr>"

definition unbinder :: "nat \<Rightarrow> nat \<Rightarrow> bool \<Rightarrow> effect \<times> bool" where
  "unbinder e g unbound = (\<lparr>returns_false = False, stops = False, stops_at_once = False, prevents = False\<rparr>, unbound \<or> g = 5)"

definition let_pass :: effect where
  "let_pass = \<lparr>returns_false = False, stops = False, stops_at_once = False, prevents = False\<rparr>"

text \<open>The field's listeners are called before those of its box; the document's listener is gone when the event arrives there.\<close>

lemma unbound_on_the_way:
  "event_trigger nested unbinder ''keydown'' False 3 False =
     ([(3, ''keydown'', False, []),
       (2, ''keydown'', False, [(3, key_handler 5 (Some ''input'') [], let_pass), (2, key_handler 6 None [], let_pass)]),
       (1, ''keydown'', True, [])],
      \<lparr>propagationStopped = False, immediateStopped = False, defaultPrevented = False\<rparr>, True)"
  by (simp add: event_trigger_def event_path_def dispatch_def bound_def handler_queue_def delegated_def nested_def key_handler_def unbinder_def
      let_pass_def delegateType_def bindType_def namespace_ok_def passed_on_def after_handler_def Let_def)

lemma events_bubble_witness:
  "carried_out (due (nested False) [] 3 2 ''keydown'') [(3, key_handler 5 (Some ''input'') [], let_pass), (2, key_handler 6 None [], let_pass)]"
proof -
  have "split_on (CHR ''.'') ''keydown'' = ''keydown'' # []" by (simp add: split_on_no_sep)
  note e = events_bubble [OF unbound_on_the_way this, THEN conjunct2, THEN conjunct2, THEN conjunct2]
  have "orderly (nested False) 3 2"
    by (simp add: orderly_def nested_def key_handler_def table_ok_def entry_ok_def table_named_def named_def table_type_def delegateType_def bindType_def)
  then show ?thesis using e by simp
qed

definition some_table :: event_table where
  "some_table = event_add ''focus keydown.facet'' 1 None (event_add ''click'' 2 (Some ''.VS-icon-cancel'') [])"

lemma some_table_ok: "table_ok some_table" "some_table \<noteq> []" "foreign ''search'' some_table"
proof -
  have e: "some_table = [(''click'', [\<lparr>ho_origType = ''click'', ho_guid = 2, ho_selector = Some ''.VS-icon-cancel'', ho_namespace = []\<rparr>], 1),
      (''keydown'', [\<lparr>ho_origType = ''keydown'', ho_guid = 1, ho_selector = None, ho_namespace = ''facet''\<rparr>], 0),
      (''focus'', [\<lparr>ho_origType = ''focus'', ho_guid = 1, ho_selector = None, ho_namespace = []\<rparr>], 0)]"
    by code_simp
  show "some_table \<noteq> []" by (simp add: e)
  have "table_ok []" by (simp add: table_ok_def)
  then show "table_ok some_table" unfolding some_table_def by (intro event_add_ok)
  show "foreign ''search'' some_table" by (simp add: e foreign_def spaces_def name_def is_word_def)
qed

lemma tables_stay_in_order_witness:
  "table_ok (event_add ''blur.x mouseenter'' 3 (Some ''div'') some_table)"
  using tables_stay_in_order [OF some_table_ok(1), of "''blur.x mouseenter''" 3 "Some ''div''"] by blast

lemma unbinding_ends_witness:
  "\<exists>events'. event_remove 2 ''.facet click'' None None some_table = Some events'"
proof -
  have "\<forall>w\<in>set (type_words ''.facet click''). type_namespace w \<noteq> None" by code_simp
  from unbinding_ends [OF some_table_ok(1) this, of 0 None None] show ?thesis by (simp add: numeral_2_eq_2)
qed

lemma unbinding_a_bare_dot_witness: "event_remove 1000 ''click.'' None None some_table = None"
  using unbinding_a_bare_dot [OF some_table_ok(1,2), of "''click''" 1000 None None] by (simp add: is_word_def)

lemma unbinding_undoes_binding_witness:
  "event_remove 1 ''keydown.search'' None None (event_add ''keydown.search'' 9 None some_table) = Some some_table"
  using unbinding_undoes_binding [OF some_table_ok(1), of "''keydown''" "''search''" None 0 9] some_table_ok(3)
  by (simp add: is_word_def name_def)

end
