(* ===== verification/ModelEvents.thy ===== *)
theory ModelEvents
  imports SearchText "HOL-Library.AList" "HOL-Library.Sublist"
begin

text \<open>
  \<open>dependencies.js\<close>, \<open>Backbone.Events\<close> and \<open>Backbone.Model.set\<close>: binding and unbinding of listeners, the calls
  that an event comes to, and the setting of attributes with its events. Listeners can do
  all of this again while they are called. A listener is a number; what it does is a program that looks at
  the model after every step. The calls are nested, so the functions that make them have the depth that they may
  still reach as an argument and return None beyond it, as a browser does.
\<close>

subsection \<open>State\<close>

text \<open>A function is one of the page's, or made by \<open>once\<close> for the event and the function it names.\<close>

datatype fn = Fn nat | OnceFn nat string nat

record listener =
  l_callback :: fn
  l_context :: "nat option"

text \<open>
  \<open>_events\<close> has an array of listeners for every name; the arrays are known by numbers, since one that is being
  called can grow. A value None is \<open>undefined\<close>. The calls made are kept with what the
  listener found as attributes.
\<close>

record 'v model =
  events :: "(string \<times> nat) list"
  arrays :: "nat \<Rightarrow> listener list"
  next_array :: nat
  next_once :: nat
  ran :: "nat list"
  m_attributes :: "string \<rightharpoonup> 'v option"
  m_changed :: "string \<rightharpoonup> 'v option"
  m_previous :: "string \<rightharpoonup> 'v option"
  m_changing :: bool
  m_pending :: bool
  m_id :: "'v option"
  m_calls :: "(fn \<times> string \<times> (string \<rightharpoonup> 'v option)) list"

definition attr_value :: "(string \<rightharpoonup> 'v option) \<Rightarrow> string \<Rightarrow> 'v option" where
  "attr_value m k = (case m k of None \<Rightarrow> None | Some v \<Rightarrow> v)"

text \<open>What a listener does with the model it listens to.\<close>

datatype 'v action =
    On string nat "nat option"
  | Once string nat "nat option"
  | Off "string option" "fn option" "nat option"
  | Trigger string
  | SetAttrs "(string \<times> 'v option) list" bool bool

datatype 'v prog = Done | Step "'v action" "'v model \<Rightarrow> 'v prog"

subsection \<open>Names of events\<close>

function split_blanks :: "string \<Rightarrow> string list" where
  "split_blanks s =
     (let r = dropWhile (\<lambda>c. \<not> is_ws c) s
      in takeWhile (\<lambda>c. \<not> is_ws c) s # (if r = [] then [] else split_blanks (dropWhile is_ws r)))"
  by pat_completeness auto
termination
proof (relation "measure length")
  fix s r
  assume "r = dropWhile (\<lambda>c. \<not> is_ws c) s" "r \<noteq> []"
  then have "length r \<le> length s" "is_ws (hd r)"
    using length_dropWhile_le [of "\<lambda>c. \<not> is_ws c" s] hd_dropWhile [of "\<lambda>c. \<not> is_ws c" s] by simp_all
  then have "length (dropWhile is_ws r) < length s" using \<open>r \<noteq> []\<close> length_dropWhile_le [of is_ws "tl r"] by (cases r) auto
  then show "(dropWhile is_ws r, s) \<in> measure length" by simp
qed simp

declare split_blanks.simps [simp del]

text \<open>\<open>eventsApi\<close>: the names that a call is made for.\<close>

definition event_names :: "string \<Rightarrow> string list" where
  "event_names name = (if \<exists>c\<in>set name. is_ws c then split_blanks name else [name])"

subsection \<open>Binding and unbinding\<close>

definition on_name :: "fn \<Rightarrow> nat option \<Rightarrow> 'v model \<Rightarrow> string \<Rightarrow> 'v model" where
  "on_name f ctx s name =
     (let l = \<lparr>l_callback = f, l_context = ctx\<rparr>
      in case map_of (events s) name of
           Some a \<Rightarrow> s\<lparr>arrays := (arrays s)(a := arrays s a @ [l])\<rparr>
         | None \<Rightarrow> s\<lparr>events := events s @ [(name, next_array s)], arrays := (arrays s)(next_array s := [l]), next_array := Suc (next_array s)\<rparr>)"

definition events_on :: "string \<Rightarrow> fn \<Rightarrow> nat option \<Rightarrow> 'v model \<Rightarrow> 'v model" where
  "events_on name f ctx s = foldl (on_name f ctx) s (event_names name)"

definition once_name :: "nat \<Rightarrow> nat option \<Rightarrow> 'v model \<Rightarrow> string \<Rightarrow> 'v model" where
  "once_name callback ctx s name = on_name (OnceFn (next_once s) name callback) ctx (s\<lparr>next_once := Suc (next_once s)\<rparr>) name"

definition events_once :: "string \<Rightarrow> nat \<Rightarrow> nat option \<Rightarrow> 'v model \<Rightarrow> 'v model" where
  "events_once name callback ctx s = foldl (once_name callback ctx) s (event_names name)"

text \<open>The function that \<open>_callback\<close> of a function is.\<close>

definition inner_callback :: "fn \<Rightarrow> fn option" where
  "inner_callback f = (case f of Fn _ \<Rightarrow> None | OnceFn _ _ cb \<Rightarrow> Some (Fn cb))"

definition retained :: "fn option \<Rightarrow> nat option \<Rightarrow> listener \<Rightarrow> bool" where
  "retained callback ctx ev \<longleftrightarrow>
     (callback \<noteq> None \<and> callback \<noteq> Some (l_callback ev) \<and> callback \<noteq> inner_callback (l_callback ev)) \<or>
     (ctx \<noteq> None \<and> ctx \<noteq> l_context ev)"

definition off_events :: "fn option \<Rightarrow> nat option \<Rightarrow> 'v model \<Rightarrow> string \<Rightarrow> 'v model" where
  "off_events callback ctx s name =
     (case map_of (events s) name of
        None \<Rightarrow> s
      | Some a \<Rightarrow>
          (let retain = (if callback \<noteq> None \<or> ctx \<noteq> None then filter (retained callback ctx) (arrays s a) else [])
           in if retain = [] then s\<lparr>events := AList.delete name (events s)\<rparr>
              else s\<lparr>events := AList.update name (next_array s) (events s), arrays := (arrays s)(next_array s := retain),
                     next_array := Suc (next_array s)\<rparr>))"

definition off_name :: "fn option \<Rightarrow> nat option \<Rightarrow> 'v model \<Rightarrow> string option \<Rightarrow> 'v model" where
  "off_name callback ctx s name =
     (if (name = None \<or> name = Some []) \<and> callback = None \<and> ctx = None then s\<lparr>events := []\<rparr>
      else foldl (off_events callback ctx) s (if name = None \<or> name = Some [] then map fst (events s) else [the name]))"

definition events_off :: "string option \<Rightarrow> fn option \<Rightarrow> nat option \<Rightarrow> 'v model \<Rightarrow> 'v model" where
  "events_off name callback ctx s =
     foldl (off_name callback ctx) s (case name of None \<Rightarrow> [None] | Some w \<Rightarrow> map Some (event_names w))"

subsection \<open>Setting attributes\<close>

text \<open>The beginning of \<open>set\<close>.\<close>

definition begin_set :: "(string \<times> 'v option) list \<Rightarrow> 'v model \<Rightarrow> 'v model" where
  "begin_set attrs s =
     (let changing = m_changing s;
          s = s\<lparr>m_changing := True\<rparr>;
          s = (if \<not> changing then s\<lparr>m_previous := m_attributes s, m_changed := \<lambda>k. None\<rparr> else s)
      in case map_of attrs ''id'' of None \<Rightarrow> s | Some v \<Rightarrow> s\<lparr>m_id := v\<rparr>)"

text \<open>One round of its loop; \<open>changes\<close> are the names of the attributes that change.\<close>

definition set_attr :: "bool \<Rightarrow> 'v model \<times> string list \<Rightarrow> string \<times> 'v option \<Rightarrow> 'v model \<times> string list" where
  "set_attr unset sc kv =
     (let (s, changes) = sc; (attr, val) = kv
      in (s\<lparr>m_changed := (m_changed s)(attr := if attr_value (m_previous s) attr \<noteq> val then Some val else None),
            m_attributes := (m_attributes s)(attr := if unset then None else Some val)\<rparr>,
          if attr_value (m_attributes s) attr \<noteq> val then changes @ [attr] else changes))"

definition set_attrs :: "(string \<times> 'v option) list \<Rightarrow> bool \<Rightarrow> 'v model \<Rightarrow> 'v model \<times> string list" where
  "set_attrs attrs unset s = foldl (set_attr unset) (s, []) attrs"

subsection \<open>Calls\<close>

text \<open>What \<open>again\<close> does is what a listener asks for, one call deeper.\<close>

primrec run_prog :: "('v action \<Rightarrow> 'v model \<Rightarrow> 'v model option) \<Rightarrow> 'v prog \<Rightarrow> 'v model \<Rightarrow> 'v model option" where
  "run_prog again Done s = Some s"
| "run_prog again (Step a k) s = (case again a s of None \<Rightarrow> None | Some s \<Rightarrow> run_prog again (k s) s)"

definition log_call :: "fn \<Rightarrow> string \<Rightarrow> 'v model \<Rightarrow> 'v model" where
  "log_call f e s = s\<lparr>m_calls := m_calls s @ [(f, e, m_attributes s)]\<rparr>"

text \<open>A function made by \<open>once\<close> unbinds itself before it calls the other; \<open>_.once\<close> lets it run only once.\<close>

definition run_once :: "nat \<Rightarrow> string \<Rightarrow> nat \<Rightarrow> 'v model \<Rightarrow> 'v model" where
  "run_once i name cb s = off_name (Some (OnceFn i name cb)) None (s\<lparr>ran := i # ran s\<rparr>) (Some name)"

definition call_listener :: "('v action \<Rightarrow> 'v model \<Rightarrow> 'v model option) \<Rightarrow> (nat \<Rightarrow> string \<Rightarrow> 'v model \<Rightarrow> 'v prog) \<Rightarrow>
    string \<Rightarrow> fn \<Rightarrow> 'v model \<Rightarrow> 'v model option" where
  "call_listener again H e f s =
     (case f of
        Fn cb \<Rightarrow> (let s = log_call f e s in run_prog again (H cb e s) s)
      | OnceFn i name cb \<Rightarrow>
          if i \<in> set (ran s) then Some s
          else (let s = log_call f e (run_once i name cb s) in run_prog again (H cb e s) s))"

primrec triggerEvents :: "('v action \<Rightarrow> 'v model \<Rightarrow> 'v model option) \<Rightarrow> (nat \<Rightarrow> string \<Rightarrow> 'v model \<Rightarrow> 'v prog) \<Rightarrow>
    string \<Rightarrow> listener list \<Rightarrow> 'v model \<Rightarrow> 'v model option" where
  "triggerEvents again H e [] s = Some s"
| "triggerEvents again H e (ev # evs) s =
     (case call_listener again H e (l_callback ev) s of None \<Rightarrow> None | Some s \<Rightarrow> triggerEvents again H e evs s)"

text \<open>The arrays are looked up before any of their listeners is called, but read when they are called.\<close>

definition call_array :: "('v action \<Rightarrow> 'v model \<Rightarrow> 'v model option) \<Rightarrow> (nat \<Rightarrow> string \<Rightarrow> 'v model \<Rightarrow> 'v prog) \<Rightarrow>
    string \<Rightarrow> nat option \<Rightarrow> 'v model \<Rightarrow> 'v model option" where
  "call_array again H e array s = (case array of None \<Rightarrow> Some s | Some a \<Rightarrow> triggerEvents again H e (arrays s a) s)"

definition trigger_name :: "('v action \<Rightarrow> 'v model \<Rightarrow> 'v model option) \<Rightarrow> (nat \<Rightarrow> string \<Rightarrow> 'v model \<Rightarrow> 'v prog) \<Rightarrow>
    string \<Rightarrow> 'v model \<Rightarrow> 'v model option" where
  "trigger_name again H e s =
     (let allEvents = map_of (events s) ''all''
      in case call_array again H e (map_of (events s) e) s of None \<Rightarrow> None | Some s \<Rightarrow> call_array again H e allEvents s)"

primrec trigger_each :: "('v action \<Rightarrow> 'v model \<Rightarrow> 'v model option) \<Rightarrow> (nat \<Rightarrow> string \<Rightarrow> 'v model \<Rightarrow> 'v prog) \<Rightarrow>
    string list \<Rightarrow> 'v model \<Rightarrow> 'v model option" where
  "trigger_each again H [] s = Some s"
| "trigger_each again H (e # es) s = (case trigger_name again H e s of None \<Rightarrow> None | Some s \<Rightarrow> trigger_each again H es s)"

text \<open>The loop at the end of \<open>set\<close>; the number bounds its rounds.\<close>

primrec change_loop :: "nat \<Rightarrow> ('v action \<Rightarrow> 'v model \<Rightarrow> 'v model option) \<Rightarrow> (nat \<Rightarrow> string \<Rightarrow> 'v model \<Rightarrow> 'v prog) \<Rightarrow>
    'v model \<Rightarrow> 'v model option" where
  "change_loop 0 again H s = (if m_pending s then None else Some s)"
| "change_loop (Suc n) again H s =
     (if m_pending s
      then (case trigger_each again H [''change''] (s\<lparr>m_pending := False\<rparr>) of None \<Rightarrow> None | Some s \<Rightarrow> change_loop n again H s)
      else Some s)"

definition model_set :: "nat \<Rightarrow> ('v action \<Rightarrow> 'v model \<Rightarrow> 'v model option) \<Rightarrow> (nat \<Rightarrow> string \<Rightarrow> 'v model \<Rightarrow> 'v prog) \<Rightarrow>
    (string \<times> 'v option) list \<Rightarrow> bool \<Rightarrow> bool \<Rightarrow> 'v model \<Rightarrow> 'v model option" where
  "model_set n again H attrs unset silent s =
     (let changing = m_changing s;
          (s, changes) = set_attrs attrs unset (begin_set attrs s)
      in case (if silent then Some s
               else trigger_each again H (concat (map (\<lambda>attr. event_names (''change:'' @ attr)) changes))
                      (if changes \<noteq> [] then s\<lparr>m_pending := True\<rparr> else s)) of
           None \<Rightarrow> None
         | Some s \<Rightarrow>
             if changing then Some s
             else (case (if silent then Some s else change_loop n again H s) of
                     None \<Rightarrow> None
                   | Some s \<Rightarrow> Some (s\<lparr>m_pending := False, m_changing := False\<rparr>)))"

primrec run_action :: "nat \<Rightarrow> (nat \<Rightarrow> string \<Rightarrow> 'v model \<Rightarrow> 'v prog) \<Rightarrow> 'v action \<Rightarrow> 'v model \<Rightarrow> 'v model option" where
  "run_action 0 H a s = None"
| "run_action (Suc n) H a s =
     (case a of
        On name cb ctx \<Rightarrow> Some (events_on name (Fn cb) ctx s)
      | Once name cb ctx \<Rightarrow> Some (events_once name cb ctx s)
      | Off name f ctx \<Rightarrow> Some (events_off name f ctx s)
      | Trigger name \<Rightarrow> trigger_each (run_action n H) H (event_names name) s
      | SetAttrs attrs unset silent \<Rightarrow> model_set n (run_action n H) H attrs unset silent s)"

text \<open>A model with the attributes it is made with; \<open>initialize\<close> finds nothing changed.\<close>

definition new_attrs :: "(string \<times> 'v option) list \<Rightarrow> 'v model" where
  "new_attrs attrs =
     (let s = \<lparr>events = [], arrays = \<lambda>a. [], next_array = 0, next_once = 0, ran = [], m_attributes = \<lambda>k. None, m_changed = \<lambda>k. None,
                m_previous = \<lambda>k. None, m_changing = False, m_pending = False, m_id = None, m_calls = []\<rparr>
      in (case model_set 1 (\<lambda>a s. None) (\<lambda>cb e s. Done) attrs False False s of None \<Rightarrow> s | Some s \<Rightarrow> s)\<lparr>m_changed := \<lambda>k. None\<rparr>)"

primrec prog_ok :: "('v action \<Rightarrow> bool) \<Rightarrow> 'v prog \<Rightarrow> bool" where
  "prog_ok ok Done = True"
| "prog_ok ok (Step a k) = (ok a \<and> (\<forall>s. prog_ok ok (k s)))"

lemma model_setE:
  assumes "model_set n again H attrs unset silent s = Some s'" "set_attrs attrs unset (begin_set attrs s) = (t, cs)"
  obtains u where "(if silent then Some t else trigger_each again H (concat (map (\<lambda>attr. event_names (''change:'' @ attr)) cs))
      (if cs \<noteq> [] then t\<lparr>m_pending := True\<rparr> else t)) = Some u"
    "m_changing s \<Longrightarrow> s' = u"
    "\<not> m_changing s \<Longrightarrow> \<exists>v. (if silent then Some u else change_loop n again H u) = Some v \<and> s' = v\<lparr>m_pending := False, m_changing := False\<rparr>"
proof -
  let ?r = "if silent then Some t else trigger_each again H (concat (map (\<lambda>attr. event_names (''change:'' @ attr)) cs))
      (if cs \<noteq> [] then t\<lparr>m_pending := True\<rparr> else t)"
  have e: "(case ?r of None \<Rightarrow> None | Some u \<Rightarrow> if m_changing s then Some u
      else (case (if silent then Some u else change_loop n again H u) of None \<Rightarrow> None | Some v \<Rightarrow> Some (v\<lparr>m_pending := False, m_changing := False\<rparr>))) = Some s'"
    using assms(1) unfolding model_set_def assms(2) Let_def prod.case .
  obtain u where u: "?r = Some u" using e by (cases ?r) simp_all
  show thesis
  proof (rule that [OF u])
    show "m_changing s \<Longrightarrow> s' = u" using e unfolding u by simp
    show "\<exists>v. (if silent then Some u else change_loop n again H u) = Some v \<and> s' = v\<lparr>m_pending := False, m_changing := False\<rparr>"
      if "\<not> m_changing s"
      using e that unfolding u by (cases "if silent then Some u else change_loop n again H u") simp_all
  qed
qed

subsection \<open>What listeners keep\<close>

text \<open>
  A relation between a model and itself later: it holds when nothing happens and over two steps, and what
  an allowed action does to the listeners keeps it. Then all calls keep it, if the actions that listeners ask for do.
\<close>

locale kept_by_listeners =
  fixes R :: "'v model \<Rightarrow> 'v model \<Rightarrow> bool" and ok :: "'v action \<Rightarrow> bool"
  assumes R_refl: "R s s"
    and R_trans: "R s t \<Longrightarrow> R t u \<Longrightarrow> R s u"
    and R_on: "ok (On name cb ctx) \<Longrightarrow> R s (events_on name (Fn cb) ctx s)"
    and R_once: "ok (Once name cb ctx) \<Longrightarrow> R s (events_once name cb ctx s)"
    and R_off: "ok (Off w f ctx) \<Longrightarrow> R s (events_off w f ctx s)"
    and R_log: "R s (log_call (Fn cb) e s)"
    and R_run_once: "i \<notin> set (ran s) \<Longrightarrow> R s (log_call (OnceFn i name cb) e (run_once i name cb s))"
begin

definition allowed :: "(nat \<Rightarrow> string \<Rightarrow> 'v model \<Rightarrow> 'v prog) \<Rightarrow> bool" where
  "allowed H \<longleftrightarrow> (\<forall>cb e s. prog_ok ok (H cb e s))"

definition keeps :: "('v action \<Rightarrow> 'v model \<Rightarrow> 'v model option) \<Rightarrow> bool" where
  "keeps again \<longleftrightarrow> (\<forall>a s s'. ok a \<longrightarrow> again a s = Some s' \<longrightarrow> R s s')"

lemma R_then:
  assumes "(case r of None \<Rightarrow> None | Some t \<Rightarrow> f t) = Some u" "\<And>t. r = Some t \<Longrightarrow> R s t" "\<And>t. r = Some t \<Longrightarrow> f t = Some u \<Longrightarrow> R t u"
  shows "R s u"
proof (cases r)
  case (Some t)
  then show ?thesis using assms R_trans [of s t u] by simp
qed (use assms(1) in simp)

lemma run_prog_keeps: "keeps again \<Longrightarrow> prog_ok ok p \<Longrightarrow> run_prog again p s = Some s' \<Longrightarrow> R s s'"
proof (induction p arbitrary: s)
  case Done
  then show ?case by (simp add: R_refl)
next
  case (Step a k)
  from Step.prems(3) [simplified] show ?case
  proof (rule R_then)
    fix t
    assume t: "again a s = Some t"
    moreover have "ok a" using Step.prems(2) by simp
    ultimately show "R s t" using Step.prems(1) unfolding keeps_def by blast
    show "run_prog again (k t) t = Some s' \<Longrightarrow> R t s'" using Step.IH [of "k t" t] Step.prems(1,2) by simp
  qed
qed

lemma listener_prog_keeps: "keeps again \<Longrightarrow> allowed H \<Longrightarrow> run_prog again (H cb e t) t = Some s' \<Longrightarrow> R t s'"
  by (rule run_prog_keeps) (simp_all add: allowed_def)

lemma call_listener_keeps:
  assumes "keeps again" "allowed H" "call_listener again H e f s = Some s'"
  shows "R s s'"
proof (cases f)
  case (Fn cb)
  then have "R (log_call f e s) s'"
    using assms(3) by (intro listener_prog_keeps [OF assms(1,2)]) (simp add: call_listener_def Let_def)
  then show ?thesis using R_log Fn R_trans by blast
next
  case (OnceFn i name cb)
  show ?thesis
  proof (cases "i \<in> set (ran s)")
    case False
    then have "R (log_call f e (run_once i name cb s)) s'"
      using assms(3) OnceFn by (intro listener_prog_keeps [OF assms(1,2)]) (simp add: call_listener_def Let_def)
    then show ?thesis using R_run_once [OF False] OnceFn R_trans by blast
  qed (use assms OnceFn R_refl in \<open>simp add: call_listener_def\<close>)
qed

lemma triggerEvents_keeps: "keeps again \<Longrightarrow> allowed H \<Longrightarrow> triggerEvents again H e evs s = Some s' \<Longrightarrow> R s s'"
proof (induction evs arbitrary: s)
  case (Cons ev evs)
  from Cons.prems(3) [simplified] show ?case
    by (rule R_then) (use Cons call_listener_keeps in blast)+
qed (simp add: R_refl)

lemma call_array_keeps: "keeps again \<Longrightarrow> allowed H \<Longrightarrow> call_array again H e array s = Some s' \<Longrightarrow> R s s'"
  using triggerEvents_keeps R_refl by (auto simp: call_array_def split: option.splits)

lemma trigger_name_keeps:
  assumes "keeps again" "allowed H" "trigger_name again H e s = Some s'"
  shows "R s s'"
  by (rule R_then [OF assms(3) [unfolded trigger_name_def Let_def]]) (rule call_array_keeps [OF assms(1,2)], assumption)+

lemma trigger_each_keeps: "keeps again \<Longrightarrow> allowed H \<Longrightarrow> trigger_each again H es s = Some s' \<Longrightarrow> R s s'"
proof (induction es arbitrary: s)
  case (Cons e es)
  from Cons.prems(3) [simplified] show ?case
    by (rule R_then) (use Cons trigger_name_keeps in blast)+
qed (simp add: R_refl)

lemma run_action_keeps:
  assumes "\<And>n again attrs unset silent s s'. keeps again \<Longrightarrow> ok (SetAttrs attrs unset silent) \<Longrightarrow>
    model_set n again H attrs unset silent s = Some s' \<Longrightarrow> R s s'"
    and "allowed H"
  shows "keeps (run_action n H)"
proof (induction n)
  case 0
  show ?case by (simp add: keeps_def)
next
  case (Suc n)
  then show ?case unfolding keeps_def
    using assms(1) [OF Suc] trigger_each_keeps [OF Suc assms(2)] R_on R_once R_off by (auto split: action.splits)
qed

end

text \<open>Binding, unbinding and the log of the calls leave the attributes alone.\<close>

definition core :: "'v model \<Rightarrow> (string \<rightharpoonup> 'v option) \<times> (string \<rightharpoonup> 'v option) \<times> (string \<rightharpoonup> 'v option) \<times> bool \<times> bool" where
  "core s = (m_attributes s, m_changed s, m_previous s, m_changing s, m_pending s)"

lemma foldl_core: "(\<And>s x. core (f s x) = core s) \<Longrightarrow> core (foldl f s xs) = core s"
  by (induction xs arbitrary: s) simp_all

lemma core_on: "core (events_on name f ctx s) = core s"
  unfolding events_on_def by (rule foldl_core) (simp add: on_name_def Let_def core_def split: option.split)

lemma core_once: "core (events_once name cb ctx s) = core s"
  unfolding events_once_def by (rule foldl_core) (simp add: once_name_def on_name_def Let_def core_def split: option.split)

lemma core_off_name: "core (off_name f ctx s w) = core s"
proof -
  have "core (off_events f ctx s name) = core s" for name and s :: "'a model"
    by (simp add: off_events_def Let_def core_def split: option.split)
  then have "core (foldl (off_events f ctx) s names) = core s" for names and s :: "'a model" by (rule foldl_core)
  then show ?thesis unfolding off_name_def by (simp add: core_def)
qed

lemma core_off: "core (events_off w f ctx s) = core s"
  unfolding events_off_def by (rule foldl_core) (rule core_off_name)

lemma core_log: "core (log_call f e s) = core s"
  by (simp add: log_call_def core_def)

lemma core_run_once: "core (run_once i name cb s) = core s"
  unfolding run_once_def by (simp add: core_off_name) (simp add: core_def)

lemmas core_frame = core_on core_once core_off core_log core_run_once

subsection \<open>What has changed\<close>

definition difference :: "'v model \<Rightarrow> string \<rightharpoonup> 'v option" where
  "difference s k = (if attr_value (m_previous s) k \<noteq> attr_value (m_attributes s) k then Some (attr_value (m_attributes s) k) else None)"

lemma difference_same: "m_previous s' = m_previous s \<Longrightarrow> m_attributes s' = m_attributes s \<Longrightarrow> difference s' = difference s"
  by (rule ext) (simp add: difference_def)

definition set_consistent :: "'v model \<Rightarrow> bool" where
  "set_consistent s \<longleftrightarrow> (if m_changing s then m_changed s = difference s else \<not> m_pending s)"

text \<open>Attributes are removed by their names alone, as \<open>unset\<close> and \<open>clear\<close> do.\<close>

fun plain_unset :: "'v action \<Rightarrow> bool" where
  "plain_unset (SetAttrs attrs unset silent) = (unset \<longrightarrow> (\<forall>kv\<in>set attrs. snd kv = None))"
| "plain_unset _ = True"

lemma begin_set_core: "core (begin_set attrs s) =
  (if m_changing s then core s else (m_attributes s, \<lambda>k. None, m_attributes s, True, m_pending s))"
  by (simp add: begin_set_def Let_def core_def split: option.split)

text \<open>A round of the loop changes one value.\<close>

lemma set_attr_value:
  assumes "set_attr unset (t, cs) (k, v) = (u, us)" "unset \<longrightarrow> v = None"
  shows "attr_value (m_attributes u) = (attr_value (m_attributes t))(k := v)" "m_previous u = m_previous t"
    "m_changing u = m_changing t" "m_pending u = m_pending t" "us = (if attr_value (m_attributes t) k \<noteq> v then cs @ [k] else cs)"
    "m_changed u = (m_changed t)(k := if attr_value (m_previous t) k \<noteq> v then Some v else None)"
  using assms by (auto simp: set_attr_def attr_value_def fun_eq_iff)

text \<open>The attributes after the loop, and whether any of them changed.\<close>

lemma set_attrs_values:
  assumes "set_attrs attrs unset s = (s', cs)" "unset \<longrightarrow> (\<forall>kv\<in>set attrs. snd kv = None)"
  shows "(cs = [] \<longrightarrow> attr_value (m_attributes s') = attr_value (m_attributes s)) \<and> m_previous s' = m_previous s \<and>
    m_changing s' = m_changing s \<and> m_pending s' = m_pending s"
proof -
  have "(cs' = [] \<longrightarrow> cs = [] \<and> attr_value (m_attributes t') = attr_value (m_attributes t)) \<and> m_previous t' = m_previous t \<and>
      m_changing t' = m_changing t \<and> m_pending t' = m_pending t"
    if "foldl (set_attr unset) (t, cs) attrs = (t', cs')" "unset \<longrightarrow> (\<forall>kv\<in>set attrs. snd kv = None)" for t t' cs cs'
    using that
  proof (induction attrs arbitrary: t cs)
    case (Cons kv attrs)
    obtain k v where kv: "kv = (k, v)" by (cases kv)
    obtain u us where u: "set_attr unset (t, cs) (k, v) = (u, us)" by (metis surj_pair)
    note val = set_attr_value [OF u]
    have "us = [] \<Longrightarrow> cs = [] \<and> attr_value (m_attributes u) = attr_value (m_attributes t)"
      using val(1,5) Cons.prems(2) kv by (auto split: if_splits)
    then show ?case using Cons.IH [of u us] Cons.prems kv u val(2-4) by auto
  qed simp
  from this [of s "[]" s' cs] show ?thesis using assms unfolding set_attrs_def by blast
qed

lemma set_attrs_difference:
  assumes "set_attrs attrs unset s = (s', cs)" "m_changed s = difference s" "unset \<longrightarrow> (\<forall>kv\<in>set attrs. snd kv = None)"
  shows "m_changed s' = difference s'"
proof -
  have "m_changed t' = difference t'"
    if "foldl (set_attr unset) (t, cs) attrs = (t', cs')" "m_changed t = difference t" "unset \<longrightarrow> (\<forall>kv\<in>set attrs. snd kv = None)" for t t' cs cs'
    using that
  proof (induction attrs arbitrary: t cs)
    case (Cons kv attrs)
    obtain k v where kv: "kv = (k, v)" by (cases kv)
    obtain u us where u: "set_attr unset (t, cs) (k, v) = (u, us)" by (metis surj_pair)
    have v: "unset \<longrightarrow> v = None" using Cons.prems(3) kv by simp
    have "m_changed u = difference u" unfolding set_attr_value(6) [OF u v] Cons.prems(2)
      by (intro ext) (simp add: difference_def set_attr_value(1,2) [OF u v])
    then show ?case using Cons.IH [of u us] Cons.prems(1,3) kv u by simp
  qed simp
  from this [of s "[]" s' cs] show ?thesis using assms unfolding set_attrs_def by blast
qed

definition changes_kept :: "'v model \<Rightarrow> 'v model \<Rightarrow> bool" where
  "changes_kept s s' \<longleftrightarrow>
     (set_consistent s \<longrightarrow> set_consistent s' \<and> m_changing s' = m_changing s \<and> (m_changing s \<longrightarrow> m_previous s' = m_previous s))"

lemma changes_kept_core:
  assumes "core s' = core s"
  shows "changes_kept s s'"
proof -
  have e: "m_attributes s' = m_attributes s" "m_changed s' = m_changed s" "m_previous s' = m_previous s"
    "m_changing s' = m_changing s" "m_pending s' = m_pending s" using assms by (simp_all add: core_def)
  have "difference s' = difference s" by (rule difference_same) (use e in simp_all)
  then show ?thesis using e by (simp add: changes_kept_def set_consistent_def)
qed

interpretation ch: kept_by_listeners changes_kept plain_unset
proof
  show "changes_kept s s" for s :: "'a model" by (simp add: changes_kept_def)
  show "changes_kept s t \<Longrightarrow> changes_kept t u \<Longrightarrow> changes_kept s u" for s t u :: "'a model" by (simp add: changes_kept_def)
qed (simp_all add: changes_kept_core core_frame)

lemma change_loop_keeps: "ch.keeps again \<Longrightarrow> ch.allowed H \<Longrightarrow> change_loop n again H s = Some s' \<Longrightarrow> m_changing s \<Longrightarrow> set_consistent s \<Longrightarrow>
  set_consistent s' \<and> m_changing s' \<and> m_previous s' = m_previous s \<and> \<not> m_pending s'"
proof (induction n arbitrary: s)
  case (Suc n)
  show ?case
  proof (cases "m_pending s")
    case True
    let ?s = "s\<lparr>m_pending := False\<rparr>"
    obtain t where t: "trigger_each again H [''change''] ?s = Some t" "change_loop n again H t = Some s'"
      using Suc.prems(3) True by (auto split: option.splits)
    have "difference ?s = difference s" by (rule difference_same) simp_all
    then have "set_consistent ?s" using Suc.prems(4,5) by (simp add: set_consistent_def)
    then have "set_consistent t \<and> m_changing t \<and> m_previous t = m_previous s"
      using ch.trigger_each_keeps [OF Suc.prems(1,2) t(1)] Suc.prems(4) by (simp add: changes_kept_def)
    then show ?thesis using Suc.IH [OF Suc.prems(1,2) t(2)] by simp
  qed (use Suc.prems in simp)
qed (auto split: if_splits)

lemma model_set_changes:
  assumes "ch.keeps again" "ch.allowed H" "plain_unset (SetAttrs attrs unset silent)" "model_set n again H attrs unset silent s = Some s'" "set_consistent s"
  shows "set_consistent s' \<and> m_changing s' = m_changing s \<and> (m_changing s \<longrightarrow> m_previous s' = m_previous s) \<and>
    (\<not> m_changing s \<longrightarrow> m_previous s' = m_attributes s \<and> m_changed s' = difference s')"
proof -
  obtain t cs where t: "set_attrs attrs unset (begin_set attrs s) = (t, cs)" by (metis surj_pair)
  have b: "m_changed (begin_set attrs s) = difference (begin_set attrs s) \<and> m_changing (begin_set attrs s) \<and>
      m_previous (begin_set attrs s) = (if m_changing s then m_previous s else m_attributes s)"
  proof (cases "m_changing s")
    case True
    then have "core (begin_set attrs s) = core s" by (simp add: begin_set_core)
    then have "changes_kept s (begin_set attrs s)" by (rule changes_kept_core)
    then show ?thesis using True assms(5) by (simp add: changes_kept_def set_consistent_def)
  next
    case False
    then show ?thesis using begin_set_core [of attrs s] by (intro conjI ext) (simp_all add: core_def difference_def)
  qed
  let ?p = "if cs \<noteq> [] then t\<lparr>m_pending := True\<rparr> else t"
  have "m_changed t = difference t \<and> m_changing t \<and> m_previous t = m_previous (begin_set attrs s)"
    using set_attrs_values [OF t] set_attrs_difference [OF t] b assms(3) by simp
  moreover have "difference ?p = difference t" by (rule difference_same) simp_all
  ultimately have c: "set_consistent t \<and> m_changing t \<and> set_consistent ?p \<and> m_changing ?p \<and> m_previous ?p = m_previous t"
    "m_previous t = (if m_changing s then m_previous s else m_attributes s)"
    using b by (simp_all add: set_consistent_def)
  obtain u where u: "(if silent then Some t else trigger_each again H (concat (map (\<lambda>attr. event_names (''change:'' @ attr)) cs)) ?p) = Some u"
      "m_changing s \<Longrightarrow> s' = u"
      "\<not> m_changing s \<Longrightarrow> \<exists>v. (if silent then Some u else change_loop n again H u) = Some v \<and> s' = v\<lparr>m_pending := False, m_changing := False\<rparr>"
    by (rule model_setE [OF assms(4) t]) (rule that)
  have uc: "set_consistent u \<and> m_changing u \<and> m_previous u = m_previous t"
    using u(1) c(1) ch.trigger_each_keeps [OF assms(1,2), of _ ?p u] by (auto simp: changes_kept_def split: if_splits)
  show ?thesis
  proof (cases "m_changing s")
    case True
    then show ?thesis using u(2) uc c(2) by simp
  next
    case False
    then obtain v where v: "(if silent then Some u else change_loop n again H u) = Some v" "s' = v\<lparr>m_pending := False, m_changing := False\<rparr>"
      using u(3) by blast
    have "set_consistent v \<and> m_changing v \<and> m_previous v = m_previous u"
      using v(1) uc change_loop_keeps [OF assms(1,2), of n u v] by (auto split: if_splits)
    moreover have "difference s' = difference v" by (rule difference_same) (use v(2) in simp_all)
    ultimately show ?thesis using False v(2) uc c(2) by (simp add: set_consistent_def)
  qed
qed

lemma actions_keep: "ch.allowed H \<Longrightarrow> ch.keeps (run_action n H)"
proof (rule ch.run_action_keeps)
  fix n again attrs unset silent s s'
  assume a: "ch.allowed H" "ch.keeps again" "plain_unset (SetAttrs attrs unset silent)" "model_set n again H attrs unset silent s = Some s'"
  have "set_consistent s \<Longrightarrow> set_consistent s' \<and> m_changing s' = m_changing s \<and> (m_changing s \<longrightarrow> m_previous s' = m_previous s)"
    using model_set_changes [OF a(2,1,3,4)] by blast
  then show "changes_kept s s'" by (simp add: changes_kept_def)
qed

text \<open>C18. Setting attributes, whatever the listeners do meanwhile, setting attributes again included: if it returns, the model is not in the
  middle of a change, \<open>previousAttributes\<close> is what it had before, and \<open>changed\<close> has exactly the
  attributes that are different now, with their values.\<close>

theorem set_tells_changes:
  assumes "\<forall>cb e s. prog_ok plain_unset (H cb e s)" "plain_unset (SetAttrs attrs unset silent)"
    and "\<not> m_changing s" "\<not> m_pending s" "run_action n H (SetAttrs attrs unset silent) s = Some s'"
  shows "\<not> m_changing s' \<and> \<not> m_pending s' \<and> m_previous s' = m_attributes s \<and>
    (\<forall>k. m_changed s' k = (if attr_value (m_attributes s) k \<noteq> attr_value (m_attributes s') k then Some (attr_value (m_attributes s') k) else None))"
proof -
  have h: "ch.allowed H" using assms(1) by (simp add: ch.allowed_def)
  obtain m where m: "n = Suc m" using assms(5) by (cases n) auto
  have "set_consistent s" using assms(3,4) by (simp add: set_consistent_def)
  from model_set_changes [OF actions_keep [OF h] h assms(2) _ this, of m m s'] assms(3,5) show ?thesis
    by (simp add: m set_consistent_def difference_def)
qed

subsection \<open>What a listener sees last\<close>

text \<open>The attributes that the listener found when it was called last.\<close>

definition last_seen :: "nat \<Rightarrow> 'v model \<Rightarrow> (string \<Rightarrow> 'v option) option" where
  "last_seen cb s =
     (case rev (filter (\<lambda>c. fst c = Fn cb) (m_calls s)) of [] \<Rightarrow> None | c # cs \<Rightarrow> Some (attr_value (snd (snd c))))"

lemma last_seen_call: "last_seen cb (log_call (Fn cb) e s) = Some (attr_value (m_attributes s))"
  by (simp add: last_seen_def log_call_def)

lemma last_seen_other: "f \<noteq> Fn cb \<Longrightarrow> last_seen cb (log_call f e s) = last_seen cb s"
  by (simp add: last_seen_def log_call_def)

definition listening :: "nat \<Rightarrow> 'v model \<Rightarrow> bool" where
  "listening cb s \<longleftrightarrow> (\<exists>a. map_of (events s) ''change'' = Some a \<and> Fn cb \<in> l_callback ` set (arrays s a)) \<and>
     (\<forall>a\<in>snd ` set (events s). a < next_array s)"

text \<open>
  What leaves the listener \<open>cb\<close> bound and tells it what changes: other functions may be unbound, and
  everything from other events, and nothing is set silently.
\<close>

fun steady :: "nat \<Rightarrow> 'v action \<Rightarrow> bool" where
  "steady cb (Off name f ctx) =
     ((f \<noteq> None \<and> f \<noteq> Some (Fn cb)) \<or>
      (case name of None \<Rightarrow> False | Some w \<Rightarrow> ''change'' \<notin> set (event_names w) \<and> [] \<notin> set (event_names w)))"
| "steady cb (SetAttrs attrs unset silent) = (\<not> silent \<and> (unset \<longrightarrow> (\<forall>kv\<in>set attrs. snd kv = None)))"
| "steady cb _ = True"

lemma listening_on_name: "listening cb s \<Longrightarrow> listening cb (on_name f ctx s name)"
proof (cases "map_of (events s) name")
  case (Some b)
  assume "listening cb s"
  then show ?thesis using Some unfolding listening_def on_name_def Let_def by auto
next
  case None
  assume l: "listening cb s"
  then obtain a where "map_of (events s) ''change'' = Some a" "Fn cb \<in> l_callback ` set (arrays s a)" unfolding listening_def by blast
  moreover from this have "a < next_array s" using l unfolding listening_def by (force dest: map_of_SomeD)
  ultimately show ?thesis using l None unfolding listening_def on_name_def Let_def by (auto simp: map_add_Some_iff)
qed

lemma listening_foldl: "(\<And>s x. listening cb s \<Longrightarrow> listening cb (f s x)) \<Longrightarrow> listening cb s \<Longrightarrow> listening cb (foldl f s xs)"
  by (induction xs arbitrary: s) simp_all

lemma listening_on: "listening cb s \<Longrightarrow> listening cb (events_on name f ctx s)"
  unfolding events_on_def by (rule listening_foldl) (rule listening_on_name)

lemma listening_once: "listening cb s \<Longrightarrow> listening cb (events_once name c ctx s)"
  unfolding events_once_def by (rule listening_foldl) (auto simp: once_name_def intro!: listening_on_name, simp add: listening_def)

lemma in_update: "x \<in> set (AList.update k v al) \<Longrightarrow> x = (k, v) \<or> x \<in> set al"
  by (induction al) (auto split: if_splits)

lemma listening_off_events:
  "listening cb s \<Longrightarrow> name = ''change'' \<longrightarrow> f \<noteq> None \<and> f \<noteq> Some (Fn cb) \<Longrightarrow> listening cb (off_events f ctx s name)"
proof (cases "map_of (events s) name")
  case (Some b)
  assume l: "listening cb s" and f: "name = ''change'' \<longrightarrow> f \<noteq> None \<and> f \<noteq> Some (Fn cb)"
  then obtain a where a: "map_of (events s) ''change'' = Some a" "Fn cb \<in> l_callback ` set (arrays s a)" unfolding listening_def by blast
  then have n: "a < next_array s" using l unfolding listening_def by (force dest: map_of_SomeD)
  let ?ret = "if f \<noteq> None \<or> ctx \<noteq> None then filter (retained f ctx) (arrays s b) else []"
  have keep: "name = ''change'' \<Longrightarrow> Fn cb \<in> l_callback ` set ?ret"
  proof -
    assume n: "name = ''change''"
    then obtain x where x: "x \<in> set (arrays s b)" "l_callback x = Fn cb" using a Some by auto
    then have "x \<in> set ?ret" using f n by (auto simp: retained_def inner_callback_def)
    then show ?thesis using x(2) by force
  qed
  have keys: "snd ` set (AList.update name (next_array s) (events s)) \<subseteq> insert (next_array s) (snd ` set (events s))"
    "snd ` set (AList.delete name (events s)) \<subseteq> snd ` set (events s)"
    by (auto simp: AList.delete_eq dest: in_update)
  show ?thesis
  proof (cases "?ret = []")
    case True
    then have "name \<noteq> ''change''" using keep by (metis empty_iff image_empty list.set(1))
    moreover have "\<forall>a\<in>snd ` set (AList.delete name (events s)). a < next_array s" using l keys(2) unfolding listening_def by blast
    ultimately show ?thesis using a True Some unfolding listening_def off_events_def by (simp add: delete_conv')
  next
    case False
    have "\<forall>a\<in>snd ` set (AList.update name (next_array s) (events s)). a < Suc (next_array s)"
    proof
      fix x
      assume "x \<in> snd ` set (AList.update name (next_array s) (events s))"
      then have "x = next_array s \<or> x \<in> snd ` set (events s)" using keys(1) by blast
      then show "x < Suc (next_array s)" using l unfolding listening_def by (auto intro: less_SucI)
    qed
    then show ?thesis using False a n keep Some unfolding listening_def off_events_def Let_def
      by (cases "name = ''change''") (simp_all add: update_conv')
  qed
qed (simp add: off_events_def)

lemma listening_run_once: "listening cb s \<Longrightarrow> listening cb (run_once i name c s)"
  unfolding run_once_def off_name_def
  by (auto intro!: listening_foldl listening_off_events, simp_all add: listening_def)

lemma listening_off:
  fixes s :: "'v model"
  assumes ok: "steady cb (Off name f ctx)" and l: "listening cb s"
  shows "listening cb (events_off name f ctx s)"
proof -
  have step: "listening cb (off_name f ctx t w)"
    if "listening cb t" "(f \<noteq> None \<and> f \<noteq> Some (Fn cb)) \<or> (w \<noteq> None \<and> w \<noteq> Some ''change'' \<and> w \<noteq> Some [])" for t :: "'v model" and w
  proof (cases "f \<noteq> None \<and> f \<noteq> Some (Fn cb)")
    case True
    then show ?thesis unfolding off_name_def using that(1) by (auto intro!: listening_foldl listening_off_events)
  next
    case False
    then show ?thesis unfolding off_name_def using that by (auto intro!: listening_off_events)
  qed
  let ?ws = "case name of None \<Rightarrow> [None] | Some w \<Rightarrow> map Some (event_names w)"
  have ws: "\<forall>w\<in>set ?ws. (f \<noteq> None \<and> f \<noteq> Some (Fn cb)) \<or> (w \<noteq> None \<and> w \<noteq> Some ''change'' \<and> w \<noteq> Some [])"
    using ok by (auto split: option.splits)
  have "listening cb (foldl (off_name f ctx) t ws)"
    if "listening cb t" "\<forall>w\<in>set ws. (f \<noteq> None \<and> f \<noteq> Some (Fn cb)) \<or> (w \<noteq> None \<and> w \<noteq> Some ''change'' \<and> w \<noteq> Some [])"
    for t :: "'v model" and ws
    using that
  proof (induction ws arbitrary: t)
    case (Cons w ws)
    have "listening cb (off_name f ctx t w)"
      by (rule step [OF Cons.prems(1) bspec [OF Cons.prems(2)]]) simp
    then have "listening cb (foldl (off_name f ctx) (off_name f ctx t w) ws)"
      by (rule Cons.IH) (intro ballI bspec [OF Cons.prems(2)], simp)
    then show ?case by simp
  qed simp
  from this [OF l ws] show ?thesis unfolding events_off_def .
qed

lemma listening_log: "listening cb (log_call f e s) = listening cb s"
  by (simp add: listening_def log_call_def)

definition informed :: "nat \<Rightarrow> 'v model \<Rightarrow> bool" where
  "informed cb s \<longleftrightarrow> m_pending s \<or> last_seen cb s = Some (attr_value (m_attributes s))"

definition news_kept :: "nat \<Rightarrow> 'v model \<Rightarrow> 'v model \<Rightarrow> bool" where
  "news_kept cb s s' \<longleftrightarrow>
     (listening cb s \<and> m_changing s \<longrightarrow>
        listening cb s' \<and> m_changing s' \<and> (m_pending s \<longrightarrow> m_pending s') \<and>
        (m_pending s' \<or> attr_value (m_attributes s') = attr_value (m_attributes s)) \<and> (informed cb s \<longrightarrow> informed cb s'))"

lemma news_kept_same:
  assumes "core s' = core s" "listening cb s \<Longrightarrow> listening cb s'" "last_seen cb s' = last_seen cb s"
  shows "news_kept cb s s'"
  using assms by (auto simp: news_kept_def informed_def core_def)

lemma foldl_calls: "(\<And>s x. m_calls (f s x) = m_calls s) \<Longrightarrow> m_calls (foldl f s xs) = m_calls s"
  by (induction xs arbitrary: s) simp_all

lemma calls_on: "m_calls (events_on name f ctx s) = m_calls s"
  unfolding events_on_def by (rule foldl_calls) (simp add: on_name_def Let_def split: option.split)

lemma calls_once: "m_calls (events_once name cb ctx s) = m_calls s"
  unfolding events_once_def by (rule foldl_calls) (simp add: once_name_def on_name_def Let_def split: option.split)

lemma calls_off_name: "m_calls (off_name f ctx s w) = m_calls s"
proof -
  have "m_calls (off_events f ctx s name) = m_calls s" for name and s :: "'a model"
    by (simp add: off_events_def Let_def split: option.split)
  then have "m_calls (foldl (off_events f ctx) s names) = m_calls s" for names and s :: "'a model" by (rule foldl_calls)
  then show ?thesis unfolding off_name_def by simp
qed

lemma calls_off: "m_calls (events_off w f ctx s) = m_calls s"
  unfolding events_off_def by (rule foldl_calls) (rule calls_off_name)

lemma calls_run_once: "m_calls (run_once i name cb s) = m_calls s"
  by (simp add: run_once_def calls_off_name)

lemma last_seen_same: "m_calls s' = m_calls s \<Longrightarrow> last_seen cb s' = last_seen cb s"
  by (simp add: last_seen_def)

interpretation nw: kept_by_listeners "news_kept cb" "steady cb" for cb
proof
  show "news_kept cb s s" for s :: "'a model" by (simp add: news_kept_def)
  show "news_kept cb s t \<Longrightarrow> news_kept cb t u \<Longrightarrow> news_kept cb s u" for s t u :: "'a model"
    unfolding news_kept_def by metis
  show "news_kept cb s (events_on name (Fn c) ctx s)" for name c ctx and s :: "'a model"
    by (intro news_kept_same core_on listening_on last_seen_same calls_on)
  show "news_kept cb s (events_once name c ctx s)" for name c ctx and s :: "'a model"
    by (intro news_kept_same core_once listening_once last_seen_same calls_once)
  show "news_kept cb s (log_call (Fn c) e s)" for c e and s :: "'a model"
  proof (cases "c = cb")
    case True
    then show ?thesis by (simp add: news_kept_def informed_def last_seen_call listening_log) (simp add: log_call_def)
  qed (intro news_kept_same, simp_all add: core_log listening_log last_seen_other)
  show "news_kept cb s (log_call (OnceFn i name c) e (run_once i name c s))" for i name c e and s :: "'a model"
    by (intro news_kept_same) (simp_all add: core_frame listening_log listening_run_once last_seen_other last_seen_same [OF calls_run_once])
  show "news_kept cb s (events_off w f ctx s)" if "steady cb (Off w f ctx)" for w f ctx and s :: "'a model"
    by (intro news_kept_same core_off listening_off [OF that] last_seen_same calls_off)
qed

lemma triggerEvents_informs:
  assumes "nw.keeps cb again" "nw.allowed cb H" "triggerEvents again H e evs s = Some s'" "Fn cb \<in> l_callback ` set evs" "listening cb s" "m_changing s"
  shows "informed cb s' \<and> listening cb s' \<and> m_changing s'"
  using assms(3-6)
proof (induction evs arbitrary: s)
  case (Cons ev evs)
  obtain t where t: "call_listener again H e (l_callback ev) s = Some t" "triggerEvents again H e evs t = Some s'"
    using Cons.prems(1) by (auto split: option.splits)
  have st: "listening cb t \<and> m_changing t"
    using nw.call_listener_keeps [OF assms(1,2) t(1)] Cons.prems(3,4) by (simp add: news_kept_def)
  show ?case
  proof (cases "l_callback ev = Fn cb")
    case True
    let ?s = "log_call (Fn cb) e s"
    have "run_prog again (H cb e ?s) ?s = Some t" using t(1) True by (simp add: call_listener_def Let_def)
    then have "news_kept cb ?s t" by (rule nw.listener_prog_keeps [OF assms(1,2)])
    moreover have "informed cb ?s \<and> listening cb ?s \<and> m_changing ?s"
      using Cons.prems(3,4) by (simp add: informed_def last_seen_call listening_log) (simp add: log_call_def)
    ultimately have "informed cb t" by (simp add: news_kept_def)
    then show ?thesis using nw.triggerEvents_keeps [OF assms(1,2) t(2)] st by (simp add: news_kept_def)
  next
    case False
    then show ?thesis using Cons.IH [OF t(2)] Cons.prems(2) st by auto
  qed
qed simp

lemma trigger_change_informs:
  assumes "nw.keeps cb again" "nw.allowed cb H" "trigger_each again H [''change''] s = Some s'" "listening cb s" "m_changing s"
  shows "informed cb s' \<and> listening cb s' \<and> m_changing s'"
proof -
  obtain a where a: "map_of (events s) ''change'' = Some a" "Fn cb \<in> l_callback ` set (arrays s a)" using assms(4) unfolding listening_def by blast
  obtain t where t: "triggerEvents again H ''change'' (arrays s a) s = Some t" "call_array again H ''change'' (map_of (events s) ''all'') t = Some s'"
    using assms(3) a(1) by (auto simp: trigger_name_def Let_def call_array_def [of _ _ _ "Some a"] split: option.splits)
  show ?thesis
    using triggerEvents_informs [OF assms(1,2) t(1) a(2) assms(4,5)] nw.call_array_keeps [OF assms(1,2) t(2)] by (simp add: news_kept_def)
qed

lemma change_loop_informs:
  assumes "nw.keeps cb again" "nw.allowed cb H" "change_loop n again H s = Some s'" "listening cb s" "m_changing s"
  shows "\<not> m_pending s' \<and> (if m_pending s then last_seen cb s' = Some (attr_value (m_attributes s')) else s' = s)"
  using assms(3-5)
proof (induction n arbitrary: s)
  case (Suc n)
  show ?case
  proof (cases "m_pending s")
    case True
    let ?s = "s\<lparr>m_pending := False\<rparr>"
    obtain t where t: "trigger_each again H [''change''] ?s = Some t" "change_loop n again H t = Some s'"
      using Suc.prems(1) True by (auto split: option.splits)
    have l: "listening cb ?s" using Suc.prems(2) by (simp add: listening_def)
    have i: "informed cb t \<and> listening cb t \<and> m_changing t"
      by (rule trigger_change_informs [OF assms(1,2) t(1) l]) (use Suc.prems(3) in simp)
    then show ?thesis using Suc.IH [OF t(2)] True by (cases "m_pending t") (auto simp: informed_def)
  qed (use Suc.prems in simp)
qed (auto split: if_splits)

lemma set_attrs_frame:
  assumes "set_attrs attrs unset s = (s', cs)"
  shows "events s' = events s \<and> arrays s' = arrays s \<and> next_array s' = next_array s \<and> m_calls s' = m_calls s \<and> ran s' = ran s"
proof -
  have "events (fst (foldl (set_attr unset) tc attrs)) = events (fst tc) \<and> arrays (fst (foldl (set_attr unset) tc attrs)) = arrays (fst tc) \<and>
      next_array (fst (foldl (set_attr unset) tc attrs)) = next_array (fst tc) \<and> m_calls (fst (foldl (set_attr unset) tc attrs)) = m_calls (fst tc) \<and>
      ran (fst (foldl (set_attr unset) tc attrs)) = ran (fst tc)" for tc
    by (induction attrs arbitrary: tc) (simp_all add: set_attr_def split: prod.splits)
  from this [of "(s, [])"] show ?thesis using assms unfolding set_attrs_def by simp
qed

lemma begin_set_frame:
  "events (begin_set attrs s) = events s \<and> arrays (begin_set attrs s) = arrays s \<and> next_array (begin_set attrs s) = next_array s \<and>
   m_calls (begin_set attrs s) = m_calls s \<and> ran (begin_set attrs s) = ran s"
  by (simp add: begin_set_def Let_def split: option.split)

lemma set_attrs_none:
  assumes "set_attrs attrs unset s = (s', cs)" "unset \<longrightarrow> (\<forall>kv\<in>set attrs. snd kv = None)"
  shows "cs = [] \<longleftrightarrow> (\<forall>kv\<in>set attrs. attr_value (m_attributes s) (fst kv) = snd kv)"
proof -
  have "cs' = [] \<longleftrightarrow> cs = [] \<and> (\<forall>kv\<in>set attrs. attr_value (m_attributes t) (fst kv) = snd kv)"
    if "foldl (set_attr unset) (t, cs) attrs = (t', cs')" "unset \<longrightarrow> (\<forall>kv\<in>set attrs. snd kv = None)" for t t' cs cs'
    using that
  proof (induction attrs arbitrary: t cs)
    case (Cons kv attrs)
    obtain k v where kv: "kv = (k, v)" by (cases kv)
    obtain u us where u: "set_attr unset (t, cs) (k, v) = (u, us)" by (metis surj_pair)
    have v: "unset \<longrightarrow> v = None" using Cons.prems(2) kv by simp
    have ih: "cs' = [] \<longleftrightarrow> us = [] \<and> (\<forall>kv\<in>set attrs. attr_value (m_attributes u) (fst kv) = snd kv)"
      using Cons.IH [of u us] Cons.prems kv u by simp
    show ?case
    proof (cases "attr_value (m_attributes t) k = v")
      case True
      then have "attr_value (m_attributes u) = attr_value (m_attributes t)" "us = cs"
        using set_attr_value(1,5) [OF u v] by auto
      then show ?thesis using ih True kv by simp
    qed (use ih kv set_attr_value(5) [OF u v] in simp)
  qed simp
  from this [of s "[]" s' cs] show ?thesis using assms unfolding set_attrs_def by blast
qed

lemma model_set_news:
  assumes "nw.keeps cb again" "nw.allowed cb H" "steady cb (SetAttrs attrs unset silent)" "model_set n again H attrs unset silent s = Some s'"
  shows "news_kept cb s s' \<and> (listening cb s \<and> \<not> m_changing s \<and> \<not> m_pending s \<longrightarrow>
    (if \<forall>kv\<in>set attrs. attr_value (m_attributes s) (fst kv) = snd kv
     then attr_value (m_attributes s') = attr_value (m_attributes s) \<and> m_calls s' = m_calls s
     else last_seen cb s' = Some (attr_value (m_attributes s'))))"
proof (cases "listening cb s")
  case True
  obtain t cs where t: "set_attrs attrs unset (begin_set attrs s) = (t, cs)" by (metis surj_pair)
  let ?p = "if cs \<noteq> [] then t\<lparr>m_pending := True\<rparr> else t"
  have b: "m_attributes (begin_set attrs s) = m_attributes s" "m_changing (begin_set attrs s)" "m_pending (begin_set attrs s) = m_pending s"
    using begin_set_core [of attrs s] by (auto simp: core_def split: if_splits)
  have tv: "(cs = [] \<longrightarrow> attr_value (m_attributes t) = attr_value (m_attributes s)) \<and> m_changing t \<and> m_pending t = m_pending s"
    using set_attrs_values [OF t] b assms(3) by simp
  have tf: "listening cb t" "last_seen cb t = last_seen cb s"
    using True set_attrs_frame [OF t] begin_set_frame [of attrs s] by (simp_all add: listening_def last_seen_def)
  then have p: "listening cb ?p" "m_changing ?p" "m_pending ?p = (cs \<noteq> [] \<or> m_pending s)" "last_seen cb ?p = last_seen cb s"
      "attr_value (m_attributes ?p) = attr_value (m_attributes t)"
    using tv by (auto simp: listening_def last_seen_def)
  have sil: "\<not> silent" using assms(3) by simp
  have un: "unset \<longrightarrow> (\<forall>kv\<in>set attrs. snd kv = None)" using assms(3) by simp
  have same: "cs = [] \<longleftrightarrow> (\<forall>kv\<in>set attrs. attr_value (m_attributes s) (fst kv) = snd kv)"
    using set_attrs_none [OF t un] b(1) by simp
  have calls: "m_calls t = m_calls s" using set_attrs_frame [OF t] begin_set_frame [of attrs s] by simp
  obtain u where u: "trigger_each again H (concat (map (\<lambda>attr. event_names (''change:'' @ attr)) cs)) ?p = Some u"
      "m_changing s \<Longrightarrow> s' = u" "\<not> m_changing s \<Longrightarrow> \<exists>v. change_loop n again H u = Some v \<and> s' = v\<lparr>m_pending := False, m_changing := False\<rparr>"
    by (rule model_setE [OF assms(4) t]) (use sil in simp)
  have uk: "listening cb u \<and> m_changing u \<and> (m_pending ?p \<longrightarrow> m_pending u) \<and>
      (m_pending u \<or> attr_value (m_attributes u) = attr_value (m_attributes t)) \<and> (informed cb ?p \<longrightarrow> informed cb u)"
    using nw.trigger_each_keeps [OF assms(1,2) u(1)] p(1,2,5) unfolding news_kept_def by simp
  show ?thesis
  proof (cases "m_changing s")
    case c: True
    then have "u = s'" using u(2) by simp
    have "informed cb s \<longrightarrow> informed cb ?p" using p(3,4,5) tv by (auto simp: informed_def)
    then show ?thesis unfolding news_kept_def using uk c tv p(3) \<open>u = s'\<close> by auto
  next
    case c: False
    then obtain v where v: "change_loop n again H u = Some v" "s' = v\<lparr>m_pending := False, m_changing := False\<rparr>"
      using u(3) by blast
    have l: "\<not> m_pending v \<and> (if m_pending u then last_seen cb v = Some (attr_value (m_attributes v)) else v = u)"
      using change_loop_informs [OF assms(1,2) v(1)] uk by blast
    show ?thesis
    proof (cases "cs = []")
      case False
      then have "m_pending u" using uk p(3) by simp
      moreover from this have "last_seen cb s' = Some (attr_value (m_attributes s'))" using l v(2) by (simp add: last_seen_def)
      ultimately show ?thesis using False same c by (simp only: news_kept_def) simp
    next
      case True
      then have tu: "u = t" using u(1) by simp
      show ?thesis
      proof (cases "m_pending s")
        case True
        then show ?thesis using c by (simp add: news_kept_def)
      next
        case False
        then have "v = t" using l tu tv by simp
        then show ?thesis using True same c tv v(2) calls by (simp add: news_kept_def)
      qed
    qed
  qed
qed (simp add: news_kept_def)

lemma actions_news: "nw.allowed cb H \<Longrightarrow> nw.keeps cb (run_action n H)"
  by (rule nw.run_action_keeps) (use model_set_news in blast)+

text \<open>
  C17. A function that is bound with \<open>on\<close> to the event \<open>change\<close> is not left behind: when a change returns that gives an attribute
  another value, then, whatever was set meanwhile and by which listener, the last call of this function was with the attributes
  that the model has now. If the change gives no attribute another value, nobody is called and the attributes stay. This
  holds as long as no listener unbinds this function (others it may, and any function from other events) or sets attributes
  silently; and it is said of changes that return: listeners can set attributes for ever. A function bound with \<open>once\<close>
  is not meant.
\<close>

theorem last_change_is_seen:
  assumes "\<forall>c e s. prog_ok (steady cb) (H c e s)" "steady cb (SetAttrs attrs unset False)" "listening cb s" "\<not> m_changing s" "\<not> m_pending s"
    and "run_action n H (SetAttrs attrs unset False) s = Some s'"
  shows "if \<forall>kv\<in>set attrs. attr_value (m_attributes s) (fst kv) = snd kv
    then attr_value (m_attributes s') = attr_value (m_attributes s) \<and> m_calls s' = m_calls s
    else last_seen cb s' = Some (attr_value (m_attributes s'))"
proof -
  have h: "nw.allowed cb H" using assms(1) by (simp add: nw.allowed_def)
  obtain m where m: "n = Suc m" using assms(6) by (cases n) auto
  have "model_set m (run_action m H) H attrs unset False s = Some s'" using assms(6) m by simp
  from model_set_news [OF actions_news [OF h] h assms(2) this] assms(3-5) show ?thesis by blast
qed

subsection \<open>Functions that are called once\<close>

definition once_calls :: "nat \<Rightarrow> 'v model \<Rightarrow> nat" where
  "once_calls i s = length (filter (\<lambda>c. case fst c of Fn _ \<Rightarrow> False | OnceFn j _ _ \<Rightarrow> j = i) (m_calls s))"

definition once_ok :: "'v model \<Rightarrow> bool" where
  "once_ok s \<longleftrightarrow> (\<forall>i. once_calls i s \<le> 1 \<and> (i \<notin> set (ran s) \<longrightarrow> once_calls i s = 0))"

lemma once_ok_same: "m_calls s' = m_calls s \<Longrightarrow> set (ran s) \<subseteq> set (ran s') \<Longrightarrow> once_ok s \<Longrightarrow> once_ok s'"
  unfolding once_ok_def once_calls_def by (simp only:) blast

lemma foldl_ran: "(\<And>s x. ran (f s x) = ran s) \<Longrightarrow> ran (foldl f s xs) = ran s"
  by (induction xs arbitrary: s) simp_all

lemma ran_on: "ran (events_on name f ctx s) = ran s"
  unfolding events_on_def by (rule foldl_ran) (simp add: on_name_def Let_def split: option.split)

lemma ran_once: "ran (events_once name cb ctx s) = ran s"
  unfolding events_once_def by (rule foldl_ran) (simp add: once_name_def on_name_def Let_def split: option.split)

lemma ran_off_name: "ran (off_name f ctx s w) = ran s"
proof -
  have "ran (off_events f ctx s name) = ran s" for name and s :: "'a model"
    by (simp add: off_events_def Let_def split: option.split)
  then have "ran (foldl (off_events f ctx) s names) = ran s" for names and s :: "'a model" by (rule foldl_ran)
  then show ?thesis unfolding off_name_def by simp
qed

lemma ran_off: "ran (events_off w f ctx s) = ran s"
  unfolding events_off_def by (rule foldl_ran) (rule ran_off_name)

interpretation on: kept_by_listeners "\<lambda>s s'. once_ok s \<longrightarrow> once_ok s'" "\<lambda>a. True"
proof
  show "once_ok s \<longrightarrow> once_ok (events_on name (Fn cb) ctx s)" for name cb ctx and s :: "'a model"
    using once_ok_same [of "events_on name (Fn cb) ctx s" s] by (simp add: calls_on ran_on)
  show "once_ok s \<longrightarrow> once_ok (events_once name cb ctx s)" for name cb ctx and s :: "'a model"
    using once_ok_same [of "events_once name cb ctx s" s] by (simp add: calls_once ran_once)
  show "once_ok s \<longrightarrow> once_ok (events_off w f ctx s)" for w f ctx and s :: "'a model"
    using once_ok_same [of "events_off w f ctx s" s] by (simp add: calls_off ran_off)
  show "once_ok s \<longrightarrow> once_ok (log_call (Fn cb) e s)" for cb e and s :: "'a model"
    by (simp add: once_ok_def once_calls_def log_call_def)
  show "once_ok s \<longrightarrow> once_ok (log_call (OnceFn i name cb) e (run_once i name cb s))" if "i \<notin> set (ran s)" for i name cb e and s :: "'a model"
  proof
    assume o: "once_ok s"
    have r: "ran (run_once i name cb s) = i # ran s" by (simp add: run_once_def ran_off_name)
    have c: "once_calls j (log_call (OnceFn i name cb) e (run_once i name cb s)) = once_calls j s + (if j = i then 1 else 0)" for j
      by (simp add: once_calls_def log_call_def calls_run_once)
    have "once_calls i s = 0" using o that unfolding once_ok_def by blast
    then show "once_ok (log_call (OnceFn i name cb) e (run_once i name cb s))"
      using o r unfolding once_ok_def c by (simp add: log_call_def)
  qed
qed simp_all

lemma model_set_once:
  assumes "on.keeps again" "on.allowed H" "model_set n again H attrs unset silent s = Some s'"
  shows "once_ok s \<longrightarrow> once_ok s'"
proof
  assume o: "once_ok s"
  obtain t cs where t: "set_attrs attrs unset (begin_set attrs s) = (t, cs)" by (metis surj_pair)
  let ?p = "if cs \<noteq> [] then t\<lparr>m_pending := True\<rparr> else t"
  have f: "m_calls t = m_calls s \<and> ran t = ran s" using set_attrs_frame [OF t] begin_set_frame [of attrs s] by simp
  then have p: "once_ok t" "once_ok ?p" using o once_ok_same [of t s] once_ok_same [of ?p s] by simp_all
  obtain u where u: "(if silent then Some t else trigger_each again H (concat (map (\<lambda>attr. event_names (''change:'' @ attr)) cs)) ?p) = Some u"
      "m_changing s \<Longrightarrow> s' = u"
      "\<not> m_changing s \<Longrightarrow> \<exists>v. (if silent then Some u else change_loop n again H u) = Some v \<and> s' = v\<lparr>m_pending := False, m_changing := False\<rparr>"
    by (rule model_setE [OF assms(3) t]) (rule that)
  have uo: "once_ok u" using u(1) p on.trigger_each_keeps [OF assms(1,2)] by (auto split: if_splits)
  have flags: "once_ok (v\<lparr>m_pending := b\<rparr>) = once_ok v" "once_ok (v\<lparr>m_pending := b, m_changing := b\<rparr>) = once_ok v" for b and v :: "'a model"
    by (simp_all add: once_ok_def once_calls_def)
  have loop: "change_loop k again H x = Some v \<Longrightarrow> once_ok x \<Longrightarrow> once_ok v" for k x v
  proof (induction k arbitrary: x)
    case (Suc k)
    show ?case
    proof (cases "m_pending x")
      case True
      then obtain y where y: "trigger_each again H [''change''] (x\<lparr>m_pending := False\<rparr>) = Some y" "change_loop k again H y = Some v"
        using Suc.prems(1) by (auto split: option.splits)
      then show ?thesis using Suc.IH on.trigger_each_keeps [OF assms(1,2) y(1)] Suc.prems(2) flags(1) by blast
    qed (use Suc.prems in simp)
  qed (auto split: if_splits)
  show "once_ok s'"
  proof (cases "m_changing s")
    case False
    then obtain v where v: "(if silent then Some u else change_loop n again H u) = Some v" "s' = v\<lparr>m_pending := False, m_changing := False\<rparr>"
      using u(3) by blast
    then have "once_ok v" using uo loop by (auto split: if_splits)
    then show ?thesis using v(2) flags(2) by simp
  qed (use u(2) uo in simp)
qed

lemma prog_ok_all: "prog_ok (\<lambda>a. True) p"
  by (induction p) simp_all

lemma actions_once: "on.keeps (run_action n H)"
proof -
  have h: "on.allowed H" by (simp add: on.allowed_def prog_ok_all)
  show ?thesis by (rule on.run_action_keeps [OF _ h]) (rule model_set_once [OF _ h])
qed

text \<open>A function that is bound by \<open>once\<close> is called at most once, even if the listeners trigger the same event again while it is called.\<close>

theorem once_is_once:
  assumes "once_ok s" "run_action n H a s = Some s'"
  shows "once_calls i s' \<le> 1"
proof -
  have "once_ok s'" using assms actions_once [of n H] unfolding on.keeps_def by blast
  then show ?thesis unfolding once_ok_def by blast
qed

subsection \<open>Unbinding\<close>

definition listeners_of :: "'v model \<Rightarrow> string \<Rightarrow> listener list" where
  "listeners_of s name = (case map_of (events s) name of None \<Rightarrow> [] | Some a \<Rightarrow> arrays s a)"

definition arrays_ok :: "'v model \<Rightarrow> bool" where
  "arrays_ok s \<longleftrightarrow> distinct (map fst (events s)) \<and> distinct (map snd (events s)) \<and>
     (\<forall>a\<in>snd ` set (events s). a < next_array s \<and> arrays s a \<noteq> [])"

lemma one_array:
  assumes "arrays_ok s" "map_of (events s) n = Some a" "map_of (events s) m = Some a"
  shows "n = m"
proof -
  have "(n, a) \<in> set (events s)" "(m, a) \<in> set (events s)" using assms(2,3) by (auto dest: map_of_SomeD)
  moreover have "inj_on snd (set (events s))" using assms(1) unfolding arrays_ok_def by (simp add: distinct_map)
  ultimately show ?thesis by (metis inj_onD prod.inject snd_conv)
qed

lemma array_bound: "arrays_ok s \<Longrightarrow> map_of (events s) n = Some a \<Longrightarrow> a < next_array s \<and> arrays s a \<noteq> []"
  unfolding arrays_ok_def by (force dest: map_of_SomeD)

lemma listeners_on_name:
  assumes "arrays_ok s"
  shows "listeners_of (on_name f ctx s name) = (listeners_of s)(name := listeners_of s name @ [\<lparr>l_callback = f, l_context = ctx\<rparr>])"
proof (rule ext)
  fix m
  show "listeners_of (on_name f ctx s name) m = ((listeners_of s)(name := listeners_of s name @ [\<lparr>l_callback = f, l_context = ctx\<rparr>])) m"
    using one_array [OF assms, of name _ m] array_bound [OF assms, of m]
    by (cases "map_of (events s) name"; cases "map_of (events s) m")
      (auto simp: on_name_def listeners_of_def Let_def map_add_def)
qed

text \<open>Unbinding keeps the listeners that are retained, and no empty array.\<close>

lemma listeners_off_events:
  assumes "arrays_ok s" "callback \<noteq> None"
  shows "listeners_of (off_events callback ctx s name) = (listeners_of s)(name := filter (retained callback ctx) (listeners_of s name))"
proof (rule ext)
  fix m
  show "listeners_of (off_events callback ctx s name) m = ((listeners_of s)(name := filter (retained callback ctx) (listeners_of s name))) m"
    using array_bound [OF assms(1), of m] assms(2)
    by (cases "map_of (events s) name"; cases "map_of (events s) m")
      (auto simp: off_events_def listeners_of_def Let_def delete_conv' update_conv')
qed

lemma arrays_ok_on_name: "arrays_ok s \<Longrightarrow> arrays_ok (on_name f ctx s name)"
proof (cases "map_of (events s) name")
  case (Some a)
  assume "arrays_ok s"
  then show ?thesis using Some by (simp add: arrays_ok_def on_name_def Let_def)
next
  case None
  assume o: "arrays_ok s"
  have "name \<notin> fst ` set (events s)" using None by (simp add: map_of_eq_None_iff)
  moreover have "next_array s \<notin> snd ` set (events s)" using o unfolding arrays_ok_def by blast
  ultimately show ?thesis using o None by (auto simp: arrays_ok_def on_name_def Let_def)
qed

text \<open>Unbinding undoes binding: the listeners of every event are then the same as before, and so are the attributes.\<close>

theorem off_undoes_on:
  assumes "arrays_ok s" "name \<noteq> []" "\<forall>c\<in>set name. \<not> is_ws c"
    and "\<forall>l\<in>set (listeners_of s name). l_callback l \<noteq> Fn cb \<and> inner_callback (l_callback l) \<noteq> Some (Fn cb)"
  shows "listeners_of (events_off (Some name) (Some (Fn cb)) None (events_on name (Fn cb) ctx s)) = listeners_of s \<and>
    m_attributes (events_off (Some name) (Some (Fn cb)) None (events_on name (Fn cb) ctx s)) = m_attributes s"
proof -
  have n: "event_names name = [name]" using assms(3) by (auto simp: event_names_def)
  let ?s = "on_name (Fn cb) ctx s name"
  have e: "events_off (Some name) (Some (Fn cb)) None (events_on name (Fn cb) ctx s) = off_events (Some (Fn cb)) None ?s name"
    using assms(2) by (simp add: events_off_def events_on_def n off_name_def)
  have "filter (retained (Some (Fn cb)) None) (listeners_of s name) = listeners_of s name"
    using assms(4) by (auto simp: retained_def filter_id_conv)
  then have "listeners_of (off_events (Some (Fn cb)) None ?s name) = listeners_of s"
    using listeners_off_events [OF arrays_ok_on_name [OF assms(1)], where callback = "Some (Fn cb)" and ctx = None and name = name] listeners_on_name [OF assms(1)]
    by (simp add: retained_def)
  moreover have "core (events_off (Some name) (Some (Fn cb)) None (events_on name (Fn cb) ctx s)) = core s"
    by (simp add: core_frame)
  ultimately show ?thesis unfolding e by (simp add: core_def)
qed

text \<open>A blank behind the name of an event makes \<open>off\<close> unbind the listeners of all events: the empty name behind the blank
  counts as none.\<close>

theorem off_with_blank_unbinds_all:
  assumes "\<forall>c\<in>set name. \<not> is_ws c"
  shows "listeners_of (events_off (Some (name @ '' '')) None None s) e = []"
proof -
  have "dropWhile (\<lambda>c. \<not> is_ws c) (name @ '' '') = '' ''" "takeWhile (\<lambda>c. \<not> is_ws c) (name @ '' '') = name"
    using assms by (simp_all add: is_ws_def)
  then have "event_names (name @ '' '') = [name, []]"
    using split_blanks.simps [of "name @ '' ''"] split_blanks.simps [of "[]"] by (simp add: event_names_def is_ws_def Let_def)
  then show ?thesis by (simp add: events_off_def off_name_def listeners_of_def)
qed

subsection \<open>The events of a change\<close>

definition quiet :: "nat \<Rightarrow> string \<Rightarrow> 'v model \<Rightarrow> 'v prog" where
  "quiet cb e s = Done"

definition plain_listeners :: "'v model \<Rightarrow> bool" where
  "plain_listeners s \<longleftrightarrow> (\<forall>a\<in>snd ` set (events s). \<forall>l\<in>set (arrays s a). \<exists>cb. l_callback l = Fn cb)"

definition calls_of :: "'v model \<Rightarrow> string \<Rightarrow> (fn \<times> string \<times> (string \<rightharpoonup> 'v option)) list" where
  "calls_of s e = map (\<lambda>l. (l_callback l, e, m_attributes s)) (listeners_of s e @ listeners_of s ''all'')"

lemma triggerEvents_quiet: "\<forall>l\<in>set evs. \<exists>cb. l_callback l = Fn cb \<Longrightarrow>
  triggerEvents again quiet e evs s = Some (s\<lparr>m_calls := m_calls s @ map (\<lambda>l. (l_callback l, e, m_attributes s)) evs\<rparr>)"
proof (induction evs arbitrary: s)
  case (Cons l evs)
  then obtain cb where "l_callback l = Fn cb" by auto
  then show ?case using Cons by (simp add: call_listener_def Let_def quiet_def log_call_def)
qed simp

lemma trigger_name_quiet:
  assumes "plain_listeners s"
  shows "trigger_name again quiet e s = Some (s\<lparr>m_calls := m_calls s @ calls_of s e\<rparr>)"
proof -
  have p: "map_of (events s) n = Some a \<Longrightarrow> \<forall>l\<in>set (arrays s a). \<exists>cb. l_callback l = Fn cb" for n a
    using assms unfolding plain_listeners_def by (force dest: map_of_SomeD)
  show ?thesis
    by (cases "map_of (events s) e"; cases "map_of (events s) ''all''")
      (simp_all add: trigger_name_def Let_def call_array_def triggerEvents_quiet p calls_of_def listeners_of_def)
qed

lemma calls_of_log: "calls_of (s\<lparr>m_calls := cs\<rparr>) = calls_of s" "plain_listeners (s\<lparr>m_calls := cs\<rparr>) = plain_listeners s"
  "calls_of (s\<lparr>m_pending := b\<rparr>) = calls_of s" "plain_listeners (s\<lparr>m_pending := b\<rparr>) = plain_listeners s"
  by (auto simp: calls_of_def listeners_of_def plain_listeners_def fun_eq_iff split: option.split)

lemma trigger_each_quiet: "plain_listeners s \<Longrightarrow>
  trigger_each again quiet es s = Some (s\<lparr>m_calls := m_calls s @ concat (map (calls_of s) es)\<rparr>)"
  by (induction es arbitrary: s) (simp_all add: trigger_name_quiet calls_of_log)

lemma set_attrs_changes:
  assumes "distinct (map fst attrs)" "unset \<longrightarrow> (\<forall>kv\<in>set attrs. snd kv = None)" "set_attrs attrs unset s = (s', cs)"
  shows "cs = map fst (filter (\<lambda>(k, v). attr_value (m_attributes s) k \<noteq> v) attrs) \<and>
    attr_value (m_attributes s') = (\<lambda>k. case map_of attrs k of None \<Rightarrow> attr_value (m_attributes s) k | Some v \<Rightarrow> v)"
proof -
  have "cs' = cs @ map fst (filter (\<lambda>(k, v). attr_value (m_attributes t) k \<noteq> v) attrs) \<and>
      attr_value (m_attributes t') = (\<lambda>k. case map_of attrs k of None \<Rightarrow> attr_value (m_attributes t) k | Some v \<Rightarrow> v)"
    if "foldl (set_attr unset) (t, cs) attrs = (t', cs')" "distinct (map fst attrs)" "unset \<longrightarrow> (\<forall>kv\<in>set attrs. snd kv = None)" for t t' cs cs'
    using that
  proof (induction attrs arbitrary: t cs)
    case (Cons kv attrs)
    obtain k v where kv: "kv = (k, v)" by (cases kv)
    obtain u us where u: "set_attr unset (t, cs) (k, v) = (u, us)" by (metis surj_pair)
    have v: "unset \<longrightarrow> v = None" using Cons.prems(3) kv by simp
    note val = set_attr_value(1,5) [OF u v]
    have k: "k \<notin> fst ` set attrs" using Cons.prems(2) kv by simp
    have f: "filter (\<lambda>(j, w). attr_value (m_attributes u) j \<noteq> w) attrs = filter (\<lambda>(j, w). attr_value (m_attributes t) j \<noteq> w) attrs"
      using k by (intro filter_cong refl) (auto simp: val(1) image_iff split: if_splits)
    have "map_of attrs k = None" using k by (simp add: map_of_eq_None_iff)
    then show ?case using Cons.IH [of u us] Cons.prems kv u f val by (auto simp: fun_eq_iff split: option.splits)
  qed simp
  from this [of s "[]" s' cs] show ?thesis using assms unfolding set_attrs_def by auto
qed

text \<open>C19. Listeners that only look on: a change returns, sets what was asked for, and makes exactly these calls: for every attribute that got
  another value, in the order in which they were given, the listeners of the event named after it and then those of all events, and in the
  end once those of the event \<open>change\<close>, if any attribute changed; all of them find the new attributes.\<close>

theorem set_events:
  assumes "distinct (map fst attrs)" "unset \<longrightarrow> (\<forall>kv\<in>set attrs. snd kv = None)" "\<not> m_changing s" "\<not> m_pending s" "plain_listeners s"
    and "changes = map fst (filter (\<lambda>(k, v). attr_value (m_attributes s) k \<noteq> v) attrs)"
  shows "\<exists>s'. run_action (Suc (Suc n)) quiet (SetAttrs attrs unset False) s = Some s' \<and>
    attr_value (m_attributes s') = (\<lambda>k. case map_of attrs k of None \<Rightarrow> attr_value (m_attributes s) k | Some v \<Rightarrow> v) \<and>
    m_calls s' = m_calls s @ concat (map (\<lambda>e. map (\<lambda>l. (l_callback l, e, m_attributes s')) (listeners_of s e @ listeners_of s ''all''))
      (concat (map (\<lambda>k. event_names (''change:'' @ k)) changes) @ (if changes = [] then [] else [''change''])))"
proof -
  let ?again = "run_action (Suc n) quiet"
  obtain t cs where t: "set_attrs attrs unset (begin_set attrs s) = (t, cs)" by (metis surj_pair)
  have b: "m_attributes (begin_set attrs s) = m_attributes s" "m_pending (begin_set attrs s) = m_pending s"
    using begin_set_core [of attrs s] by (auto simp: core_def split: if_splits)
  have tv: "cs = changes" "attr_value (m_attributes t) = (\<lambda>k. case map_of attrs k of None \<Rightarrow> attr_value (m_attributes s) k | Some v \<Rightarrow> v)"
    using set_attrs_changes [OF assms(1,2) t] unfolding assms(6) b by blast+
  have tp: "\<not> m_pending t" using set_attrs_values [OF t assms(2)] b assms(4) by simp
  have tf: "events t = events s" "arrays t = arrays s" "m_calls t = m_calls s"
    using set_attrs_frame [OF t] begin_set_frame [of attrs s] by simp_all
  then have lt: "listeners_of t = listeners_of s" "plain_listeners t"
    using assms(5) by (simp_all add: fun_eq_iff listeners_of_def plain_listeners_def split: option.split)
  define u where "u = t\<lparr>m_pending := (cs \<noteq> []), m_calls := m_calls s @ concat (map (calls_of t) (concat (map (\<lambda>attr. event_names (''change:'' @ attr)) cs)))\<rparr>"
  have r: "trigger_each ?again quiet (concat (map (\<lambda>attr. event_names (''change:'' @ attr)) cs)) (if cs \<noteq> [] then t\<lparr>m_pending := True\<rparr> else t) = Some u"
    using tp by (simp add: trigger_each_quiet calls_of_log lt(2) tf(3) u_def)
  have up: "plain_listeners u" "calls_of u = calls_of t" using lt(2) by (simp_all add: u_def calls_of_log)
  let ?v = "u\<lparr>m_pending := False, m_calls := m_calls u @ (if cs = [] then [] else calls_of t ''change'')\<rparr>"
  have l: "change_loop (Suc n) ?again quiet u = Some ?v"
  proof (cases "cs = []")
    case True
    then have "u = ?v" by (simp add: u_def)
    then show ?thesis using True by (simp add: u_def)
  next
    case False
    then have "m_pending u" by (simp add: u_def)
    moreover have "plain_listeners (u\<lparr>m_pending := False\<rparr>)" "calls_of (u\<lparr>m_pending := False\<rparr>) = calls_of t" using up by (simp_all add: calls_of_log)
    ultimately show ?thesis using False by (cases n) (simp_all add: trigger_name_quiet)
  qed
  have "run_action (Suc (Suc n)) quiet (SetAttrs attrs unset False) s = Some (?v\<lparr>m_pending := False, m_changing := False\<rparr>)"
    using assms(3) unfolding run_action.simps(2) action.case model_set_def t Let_def prod.case if_False r option.case l by simp
  moreover have "calls_of t = (\<lambda>e. map (\<lambda>l. (l_callback l, e, m_attributes t)) (listeners_of s e @ listeners_of s ''all''))"
    by (simp add: calls_of_def lt(1) fun_eq_iff)
  ultimately show ?thesis using tv by (intro exI [of _ "?v\<lparr>m_pending := False, m_changing := False\<rparr>"]) (simp add: u_def)
qed

subsection \<open>Examples\<close>

text \<open>A listener of \<open>change\<close> with the number 1 that doubles a value until it is large, and one with the number 2 that looks on.\<close>

definition doubling :: "nat \<Rightarrow> string \<Rightarrow> nat model \<Rightarrow> nat prog" where
  "doubling cb e s =
     (case attr_value (m_attributes s) ''v'' of
        Some x \<Rightarrow> if cb = 1 \<and> x < 3 then Step (SetAttrs [(''v'', Some (2 * x))] False False) (\<lambda>s. Done) else Done
      | None \<Rightarrow> Done)"

definition watched :: "nat model" where
  "watched = events_once ''change'' 3 None (events_on ''change'' (Fn 1) None (events_on ''change'' (Fn 2) None (new_attrs [(''v'', Some 0)])))"

definition bare :: "nat model" where
  "bare = \<lparr>events = [(''change'', 0)],
     arrays = (\<lambda>a. if a = 0 then [\<lparr>l_callback = Fn 2, l_context = None\<rparr>, \<lparr>l_callback = Fn 1, l_context = None\<rparr>,
                                  \<lparr>l_callback = OnceFn 0 ''change'' 3, l_context = None\<rparr>] else []),
     next_array = 1, next_once = 1, ran = [], m_attributes = (\<lambda>k. None)(''v'' := Some (Some 0)), m_changed = (\<lambda>k. None), m_previous = (\<lambda>k. None),
     m_changing = False, m_pending = False, m_id = None, m_calls = []\<rparr>"

lemma watched_eq: "watched = bare"
  by (simp add: watched_def bare_def new_attrs_def model_set_def begin_set_def set_attrs_def set_attr_def attr_value_def event_names_def
      trigger_name_def call_array_def events_on_def events_once_def once_name_def on_name_def is_ws_def fun_eq_iff numeral_eq_Suc)

lemma watched_ok: "listening 2 watched" "\<not> m_changing watched" "\<not> m_pending watched" "once_ok watched" "arrays_ok watched"
  unfolding watched_eq by (simp_all add: bare_def listening_def once_ok_def once_calls_def arrays_ok_def image_iff Bex_def)
    (rule exI [of _ "\<lparr>l_callback = Fn 2, l_context = None\<rparr>"], simp)

lemma doubling_ok: "prog_ok (steady c) (doubling cb e s)" "prog_ok plain_unset (doubling cb e s)"
  by (simp_all add: doubling_def split: option.split)

text \<open>Setting the value 1 calls the listeners again and again until it is 4.\<close>

lemma doubled:
  "map_option (\<lambda>s. (attr_value (m_attributes s) ''v'', map (\<lambda>c. (fst c, attr_value (snd (snd c)) ''v'')) (m_calls s)))
     (run_action 9 doubling (SetAttrs [(''v'', Some 1)] False False) watched) =
   Some (Some 4, [(Fn 2, Some 1), (Fn 1, Some 1), (OnceFn 0 ''change'' 3, Some 2), (Fn 2, Some 2), (Fn 1, Some 2), (Fn 2, Some 4), (Fn 1, Some 4)])"
  by code_simp

lemma set_tells_changes_witness:
  "\<exists>s'. run_action 9 doubling (SetAttrs [(''v'', Some 1)] False False) watched = Some s' \<and> m_previous s' = m_attributes watched \<and>
     m_changed s' ''v'' = Some (Some 4)"
proof -
  obtain s' where s': "run_action 9 doubling (SetAttrs [(''v'', Some 1)] False False) watched = Some s'" "attr_value (m_attributes s') ''v'' = Some 4"
    using doubled by auto
  have "attr_value (m_attributes watched) ''v'' = Some 0" by (simp add: watched_eq bare_def attr_value_def)
  then show ?thesis using set_tells_changes [OF _ _ watched_ok(2,3) s'(1)] doubling_ok(2) s' by simp
qed

lemma last_change_is_seen_witness:
  "\<exists>s'. run_action 9 doubling (SetAttrs [(''v'', Some 1)] False False) watched = Some s' \<and>
     last_seen 2 s' = Some (attr_value (m_attributes s')) \<and> attr_value (m_attributes s') ''v'' = Some 4"
proof -
  obtain s' where s': "run_action 9 doubling (SetAttrs [(''v'', Some 1)] False False) watched = Some s'" "attr_value (m_attributes s') ''v'' = Some 4"
    using doubled by auto
  have "attr_value (m_attributes watched) ''v'' = Some 0" by (simp add: watched_eq bare_def attr_value_def)
  then show ?thesis using last_change_is_seen [OF _ _ watched_ok(1-3) s'(1)] doubling_ok(1) s' by simp
qed

lemma once_is_once_witness: "\<exists>s'. run_action 9 doubling (SetAttrs [(''v'', Some 1)] False False) watched = Some s' \<and> once_calls 0 s' \<le> 1"
proof -
  obtain s' where s': "run_action 9 doubling (SetAttrs [(''v'', Some 1)] False False) watched = Some s'" using doubled by auto
  then show ?thesis using once_is_once [OF watched_ok(4) s', of 0] by blast
qed

lemma off_undoes_on_witness:
  "listeners_of (events_off (Some ''change:v'') (Some (Fn 7)) None (events_on ''change:v'' (Fn 7) (Some 1) watched)) = listeners_of watched"
proof -
  have "listeners_of watched ''change:v'' = []" by (simp add: watched_eq bare_def listeners_of_def)
  then show ?thesis using off_undoes_on [OF watched_ok(5), of "''change:v''" 7 "Some 1"] by (simp add: is_ws_def)
qed

lemma off_with_blank_unbinds_all_witness: "listeners_of (events_off (Some ''remove '') None None watched) ''change'' = []"
  using off_with_blank_unbinds_all [of "''remove''" watched "''change''"] by (simp add: is_ws_def)

definition looked_at :: "nat model" where
  "looked_at = bare\<lparr>arrays := (\<lambda>a. if a = 0 then [\<lparr>l_callback = Fn 2, l_context = None\<rparr>] else [])\<rparr>"

lemma set_events_witness:
  "\<exists>s'. run_action 2 quiet (SetAttrs [(''w'', Some 5), (''v'', Some 0)] False False) looked_at = Some s' \<and>
     attr_value (m_attributes s') ''w'' = Some 5 \<and> map (\<lambda>c. (fst c, fst (snd c))) (m_calls s') = [(Fn 2, ''change'')]"
proof -
  have p: "plain_listeners looked_at" by (simp add: looked_at_def bare_def plain_listeners_def)
  have c: "[''w''] = map fst (filter (\<lambda>(k, v). attr_value (m_attributes looked_at) k \<noteq> v) [(''w'', Some 5), (''v'', Some 0)])"
    by (simp add: looked_at_def bare_def attr_value_def)
  have f: "\<not> m_changing looked_at" "\<not> m_pending looked_at" by (simp_all add: looked_at_def bare_def)
  have l: "listeners_of looked_at e = (if e = ''change'' then [\<lparr>l_callback = Fn 2, l_context = None\<rparr>] else [])" "m_calls looked_at = []" for e
    by (simp_all add: listeners_of_def looked_at_def bare_def)
  have n: "event_names ''change:w'' = [''change:w'']" by (simp add: event_names_def is_ws_def)
  show ?thesis using set_events [OF _ _ f p c, of False 0] by (auto simp: l n numeral_2_eq_2)
qed

end
