(* ===== verification/Collection.thy ===== *)
theory Collection
  imports SearchBox
begin

text \<open>
  \<open>ext/documentcloud-visualsearch/js/dependencies.js\<close>, \<open>Backbone.Collection\<close> and the events of its
  models, as far as \<open>VS.model.SearchQuery\<close> uses them: models are made by \<open>new\<close> and have no id, so
  that the index knows them by their \<open>cid\<close> and merging never changes one. A model is its \<open>cid\<close>;
  the attributes of all models are a store beside the collection.
\<close>

subsection \<open>State\<close>

text \<open>The events that reach the listeners of the collection.\<close>

datatype coll_event = Added nat | Removed nat | ChangedValue nat | Changed nat | Sorted | WasReset

text \<open>\<open>listeners\<close> counts how often the collection listens to a model.\<close>

record collection =
  coll_models :: "nat list"
  by_id :: "nat \<Rightarrow> nat option"
  coll_length :: int
  listeners :: "nat \<Rightarrow> nat"
  attributes :: "nat \<Rightarrow> search_facet option"
  next_cid :: nat
  fired :: "coll_event list"

definition empty_collection :: collection where
  "empty_collection = \<lparr>coll_models = [], by_id = \<lambda>_. None, coll_length = 0, listeners = \<lambda>_. 0, attributes = \<lambda>_. None,
     next_cid = 0, fired = []\<rparr>"

subsection \<open>Events\<close>

definition listen :: "nat \<Rightarrow> collection \<Rightarrow> collection" where
  "listen m c = c\<lparr>listeners := (listeners c)(m := Suc (listeners c m))\<rparr>"

definition removeReference :: "nat \<Rightarrow> collection \<Rightarrow> collection" where
  "removeReference m c = c\<lparr>listeners := (listeners c)(m := 0)\<rparr>"

text \<open>A model triggers an event; the collection passes it on as often as it listens.\<close>

definition trigger :: "nat \<Rightarrow> coll_event \<Rightarrow> collection \<Rightarrow> collection" where
  "trigger m e c = c\<lparr>fired := fired c @ replicate (listeners c m) e\<rparr>"

subsection \<open>Operations\<close>

definition coll_get :: "nat \<Rightarrow> collection \<Rightarrow> nat option" where
  "coll_get m c = by_id c m"

definition remove_model :: "bool \<Rightarrow> collection \<Rightarrow> nat \<Rightarrow> collection" where
  "remove_model silent c m =
     (case coll_get m c of
        None \<Rightarrow> c
      | Some m \<Rightarrow>
          (let ms = coll_models c;
               c = c\<lparr>by_id := (by_id c)(m := None),
                     coll_models := (if m \<in> set ms then remove1 m ms else butlast ms),
                     coll_length := coll_length c - 1\<rparr>;
               c = (if silent then c else trigger m (Removed m) c)
           in removeReference m c))"

definition coll_remove :: "nat list \<Rightarrow> bool \<Rightarrow> collection \<Rightarrow> collection" where
  "coll_remove ms silent c = foldl (remove_model silent) c ms"

text \<open>One round of the loop of \<open>set\<close>: the collection, \<open>toAdd\<close>, \<open>modelMap\<close> and \<open>order\<close>.\<close>

definition set_model :: "bool \<Rightarrow> bool \<Rightarrow> collection \<times> nat list \<times> nat list \<times> nat list \<Rightarrow> nat \<Rightarrow>
    collection \<times> nat list \<times> nat list \<times> nat list" where
  "set_model add remove st m =
     (let (c, toAdd, modelMap, order) = st
      in case coll_get m c of
           Some existing \<Rightarrow> (c, toAdd, if remove then modelMap @ [existing] else modelMap, order @ [existing])
         | None \<Rightarrow>
             if add then ((listen m c)\<lparr>by_id := (by_id c)(m := Some m)\<rparr>, toAdd @ [m], modelMap, order @ [m])
             else st)"

definition splice_in :: "nat \<Rightarrow> nat list \<Rightarrow> nat list \<Rightarrow> nat list" where
  "splice_in pos toAdd ms = foldl (\<lambda>ms (i, m). take (pos + i) ms @ m # drop (pos + i) ms) ms (zip [0..<length toAdd] toAdd)"

definition coll_set :: "bool \<Rightarrow> bool \<Rightarrow> nat option \<Rightarrow> bool \<Rightarrow> nat list \<Rightarrow> collection \<Rightarrow> collection" where
  "coll_set add remove pos silent ms c =
     (let (c, toAdd, modelMap, order) = foldl (set_model add remove) (c, [], [], []) ms;
          ordered = (add \<and> remove \<and> order \<noteq> []);
          c = (if remove then
                 coll_remove (filter (\<lambda>m. m \<notin> set modelMap) (take (nat (coll_length c)) (coll_models c))) silent c
               else c);
          c = (if toAdd \<noteq> [] \<or> ordered then
                 c\<lparr>coll_length := coll_length c + int (length toAdd),
                   coll_models := (case pos of Some i \<Rightarrow> splice_in i toAdd (coll_models c)
                     | None \<Rightarrow> if add \<and> remove then order else coll_models c @ toAdd)\<rparr>
               else c)
      in if silent then c
         else (let c = foldl (\<lambda>c m. trigger m (Added m) c) c toAdd
               in if ordered then c\<lparr>fired := fired c @ [Sorted]\<rparr> else c))"

definition coll_add :: "nat option \<Rightarrow> bool \<Rightarrow> nat list \<Rightarrow> collection \<Rightarrow> collection" where
  "coll_add pos silent ms c = coll_set True False pos silent ms c"

definition coll_reset :: "nat list \<Rightarrow> collection \<Rightarrow> collection" where
  "coll_reset ms c =
     (let c = foldl (\<lambda>c m. removeReference m c) c (coll_models c);
          c = coll_add None True ms (c\<lparr>coll_length := 0, coll_models := [], by_id := \<lambda>_. None\<rparr>)
      in c\<lparr>fired := fired c @ [WasReset]\<rparr>)"

subsection \<open>Models\<close>

definition new_model :: "search_facet \<Rightarrow> collection \<Rightarrow> nat \<times> collection" where
  "new_model f c = (next_cid c, c\<lparr>attributes := (attributes c)(next_cid c := Some f), next_cid := Suc (next_cid c)\<rparr>)"

fun new_models :: "search_facet list \<Rightarrow> collection \<Rightarrow> nat list \<times> collection" where
  "new_models [] c = ([], c)"
| "new_models (f # fs) c = (let (m, c) = new_model f c; (ms, c) = new_models fs c in (m # ms, c))"

definition set_value :: "nat \<Rightarrow> string \<Rightarrow> collection \<Rightarrow> collection" where
  "set_value m v c =
     (let f = the (attributes c m)
      in if facet_text f \<noteq> v
         then trigger m (Changed m) (trigger m (ChangedValue m)
                (c\<lparr>attributes := (attributes c)(m := Some (f\<lparr>facet_text := v\<rparr>))\<rparr>))
         else c)"

subsection \<open>What the search box does with them\<close>

definition query_add :: "search_facet \<Rightarrow> nat \<Rightarrow> collection \<Rightarrow> collection" where
  "query_add f position c = (let (m, c) = new_model f c in coll_add (Some position) False [m] c)"

definition query_reset :: "search_facet list \<Rightarrow> collection \<Rightarrow> collection" where
  "query_reset fs c = (let (ms, c) = new_models fs c in coll_reset ms c)"

definition query_remove :: "nat \<Rightarrow> collection \<Rightarrow> collection" where
  "query_remove i c = coll_remove [coll_models c ! i] False c"

definition query_edit :: "nat \<Rightarrow> string \<Rightarrow> collection \<Rightarrow> collection" where
  "query_edit i v c = set_value (coll_models c ! i) v c"

text \<open>The facets that the box shows.\<close>

definition query_of :: "collection \<Rightarrow> search_facet list" where
  "query_of c = map (\<lambda>m. the (attributes c m)) (coll_models c)"

subsection \<open>The invariant\<close>

definition coll_ok :: "collection \<Rightarrow> bool" where
  "coll_ok c \<longleftrightarrow>
     coll_length c = int (length (coll_models c)) \<and> distinct (coll_models c) \<and>
     by_id c = (\<lambda>m. if m \<in> set (coll_models c) then Some m else None) \<and>
     listeners c = (\<lambda>m. if m \<in> set (coll_models c) then 1 else 0) \<and>
     (\<forall>m\<in>set (coll_models c). m < next_cid c)"

lemma empty_ok: "coll_ok empty_collection"
  by (simp add: coll_ok_def empty_collection_def)

lemma new_model_ok: "coll_ok c \<Longrightarrow> coll_ok (snd (new_model f c))"
  by (auto simp: coll_ok_def new_model_def)

lemma query_new_model: "coll_ok c \<Longrightarrow> query_of (snd (new_model f c)) = query_of c"
  by (auto simp: query_of_def new_model_def coll_ok_def)

lemma new_models_spec:
  "coll_ok c \<Longrightarrow> new_models fs c = (ms, c') \<Longrightarrow>
    coll_ok c' \<and> coll_models c' = coll_models c \<and> fired c' = fired c \<and> distinct ms \<and> next_cid c \<le> next_cid c' \<and>
    (\<forall>m\<in>set ms. next_cid c \<le> m \<and> m < next_cid c') \<and> (\<forall>m<next_cid c. attributes c' m = attributes c m) \<and>
    map (\<lambda>m. the (attributes c' m)) ms = fs"
proof (induction fs arbitrary: c ms)
  case (Cons f fs)
  obtain ns where ns: "new_models fs (snd (new_model f c)) = (ns, c')" and ms: "ms = next_cid c # ns"
    using Cons.prems(2) by (auto simp: new_model_def Let_def split: prod.splits)
  have "coll_ok (snd (new_model f c))" by (rule new_model_ok [OF Cons.prems(1)])
  from Cons.IH [OF this ns] show ?case by (auto simp: ms new_model_def)
qed simp

text \<open>Adding models that are not there yet.\<close>

lemma set_models_new:
  "distinct ms \<Longrightarrow> \<forall>m\<in>set ms. by_id c m = None \<Longrightarrow>
    foldl (set_model True remove) (c, as, mm, ord) ms =
      (c\<lparr>by_id := (\<lambda>m. if m \<in> set ms then Some m else by_id c m), listeners := (\<lambda>m. if m \<in> set ms then Suc (listeners c m) else listeners c m)\<rparr>,
       as @ ms, mm, ord @ ms)"
proof (induction ms arbitrary: c as ord)
  case (Cons m ms)
  let ?c = "(listen m c)\<lparr>by_id := (by_id c)(m := Some m)\<rparr>"
  have "\<forall>k\<in>set ms. by_id ?c k = None" using Cons.prems by auto
  from Cons.IH [OF _ this] Cons.prems show ?case
    by (simp add: set_model_def coll_get_def) (auto simp: listen_def fun_eq_iff)
qed simp

lemma add_new:
  assumes "distinct ms" "\<forall>m\<in>set ms. by_id c m = None"
  shows "coll_add pos silent ms c =
    (let c' = c\<lparr>by_id := (\<lambda>m. if m \<in> set ms then Some m else by_id c m),
               listeners := (\<lambda>m. if m \<in> set ms then Suc (listeners c m) else listeners c m),
               coll_length := coll_length c + int (length ms),
               coll_models := (case pos of Some i \<Rightarrow> splice_in i ms (coll_models c) | None \<Rightarrow> coll_models c @ ms)\<rparr>
     in if silent then c' else foldl (\<lambda>c m. trigger m (Added m) c) c' ms)"
proof -
  have "c\<lparr>by_id := (\<lambda>m. by_id c m), listeners := (\<lambda>m. listeners c m)\<rparr> = c" by simp
  then show ?thesis
    using set_models_new [OF assms, of False "[]" "[]" "[]"] by (cases "ms = []"; cases pos) (simp_all add: coll_add_def coll_set_def splice_in_def Let_def)
qed

lemma fire_simps [simp]:
  "coll_models (trigger m e c) = coll_models c" "by_id (trigger m e c) = by_id c" "coll_length (trigger m e c) = coll_length c"
  "listeners (trigger m e c) = listeners c" "attributes (trigger m e c) = attributes c" "next_cid (trigger m e c) = next_cid c"
  "fired (trigger m e c) = fired c @ replicate (listeners c m) e"
  by (simp_all add: trigger_def)

lemma query_trigger [simp]: "query_of (trigger m e c) = query_of c" "coll_ok (trigger m e c) = coll_ok c"
  by (simp_all add: query_of_def coll_ok_def)

lemma add_refines:
  assumes "coll_ok c"
  shows "coll_ok (query_add f pos c) \<and> query_of (query_add f pos c) = take pos (query_of c) @ f # drop pos (query_of c) \<and>
    fired (query_add f pos c) = fired c @ [Added (next_cid c)]"
proof -
  let ?m = "next_cid c" and ?c = "snd (new_model f c)"
  have n: "?m \<notin> set (coll_models c)" using assms by (auto simp: coll_ok_def)
  then have a: "query_add f pos c = trigger ?m (Added ?m)
      (?c\<lparr>by_id := (\<lambda>m. if m = ?m then Some m else by_id c m), listeners := (\<lambda>m. if m = ?m then Suc (listeners c m) else listeners c m),
         coll_length := coll_length c + 1, coll_models := take pos (coll_models c) @ ?m # drop pos (coll_models c)\<rparr>)"
    using assms by (simp add: query_add_def new_model_def add_new coll_ok_def Let_def splice_in_def cong: if_cong)
  have s: "set (take pos (coll_models c) @ ?m # drop pos (coll_models c)) = insert ?m (set (coll_models c))"
    by (metis Un_insert_right append_take_drop_id list.simps(15) set_append)
  have d: "distinct (take pos (coll_models c) @ ?m # drop pos (coll_models c))"
    using assms n by (auto simp: coll_ok_def set_take_disj_set_drop_if_distinct dest: in_set_takeD in_set_dropD)
  have "query_of (query_add f pos c) = take pos (query_of c) @ f # drop pos (query_of c)"
  proof -
    have "map (\<lambda>m. the (if m = ?m then Some f else attributes c m)) xs = map (\<lambda>m. the (attributes c m)) xs" if "set xs \<subseteq> set (coll_models c)" for xs
      using that n by (intro map_cong) auto
    from this [OF set_take_subset] this [OF set_drop_subset] show ?thesis
      by (simp add: a query_of_def new_model_def take_map drop_map fun_upd_def)
  qed
  moreover have "coll_ok (query_add f pos c)"
    using assms s d n unfolding coll_ok_def a by (auto simp: new_model_def fun_eq_iff)
  moreover have "fired (query_add f pos c) = fired c @ [Added ?m]"
    using assms n by (simp add: a new_model_def coll_ok_def)
  ultimately show ?thesis by simp
qed

lemma removeReferences:
  "foldl (\<lambda>c m. removeReference m c) c ms = c\<lparr>listeners := (\<lambda>m. if m \<in> set ms then 0 else listeners c m)\<rparr>"
  by (induction ms arbitrary: c) (auto simp: removeReference_def fun_eq_iff intro!: arg_cong [where f = "\<lambda>l. _\<lparr>listeners := l\<rparr>"])

lemma reset_refines:
  assumes "coll_ok c"
  shows "coll_ok (query_reset fs c) \<and> query_of (query_reset fs c) = fs \<and> fired (query_reset fs c) = fired c @ [WasReset]"
proof -
  obtain ms c' where n: "new_models fs c = (ms, c')" by fastforce
  note s = new_models_spec [OF assms n]
  let ?c = "c'\<lparr>listeners := (\<lambda>m. if m \<in> set (coll_models c') then 0 else listeners c' m), coll_length := 0, coll_models := [], by_id := \<lambda>_. None\<rparr>"
  have l: "listeners ?c = (\<lambda>_. 0)" using s by (auto simp: coll_ok_def)
  have "coll_add None True ms ?c = ?c\<lparr>by_id := (\<lambda>m. if m \<in> set ms then Some m else None),
      listeners := (\<lambda>m. if m \<in> set ms then 1 else 0), coll_length := int (length ms), coll_models := ms\<rparr>"
    using s l by (subst add_new) (simp_all add: fun_eq_iff)
  then have "query_reset fs c = ?c\<lparr>by_id := (\<lambda>m. if m \<in> set ms then Some m else None),
      listeners := (\<lambda>m. if m \<in> set ms then 1 else 0), coll_length := int (length ms), coll_models := ms, fired := fired c @ [WasReset]\<rparr>"
    using s by (simp add: query_reset_def n coll_reset_def removeReferences)
  then show ?thesis using s by (auto simp: coll_ok_def query_of_def)
qed

lemma remove_refines:
  assumes "coll_ok c" "i < length (query_of c)"
  shows "coll_ok (query_remove i c) \<and> query_of (query_remove i c) = take i (query_of c) @ drop (Suc i) (query_of c) \<and>
    fired (query_remove i c) = fired c @ [Removed (coll_models c ! i)]"
proof -
  let ?m = "coll_models c ! i"
  have i: "i < length (coll_models c)" using assms(2) by (simp add: query_of_def)
  then have m: "?m \<in> set (coll_models c)" by simp
  have "distinct (coll_models c)" using assms(1) by (simp add: coll_ok_def)
  then have r: "remove1 ?m (coll_models c) = take i (coll_models c) @ drop (Suc i) (coll_models c)"
    using i by (subst id_take_nth_drop [OF i]) (auto simp: remove1_append in_set_conv_nth nth_eq_iff_index_eq)
  have a: "query_remove i c = removeReference ?m (trigger ?m (Removed ?m)
      (c\<lparr>by_id := (by_id c)(?m := None), coll_models := remove1 ?m (coll_models c), coll_length := coll_length c - 1\<rparr>))"
    using assms(1) m by (simp add: query_remove_def coll_remove_def remove_model_def coll_get_def coll_ok_def Let_def)
  define ms where "ms = remove1 ?m (coll_models c)"
  have "set ms = set (coll_models c) - {?m}" "distinct ms" "length (coll_models c) = Suc (length ms)"
    using assms(1) m i by (simp_all add: ms_def coll_ok_def set_remove1_eq length_remove1)
  then have "coll_ok (query_remove i c)"
    using assms(1) m unfolding coll_ok_def a ms_def [symmetric] by (auto simp: removeReference_def fun_eq_iff)
  moreover have "query_of (query_remove i c) = take i (query_of c) @ drop (Suc i) (query_of c)"
    by (simp add: a query_of_def removeReference_def r take_map drop_map)
  moreover have "fired (query_remove i c) = fired c @ [Removed ?m]"
    using assms(1) m by (simp add: a removeReference_def coll_ok_def)
  ultimately show ?thesis by simp
qed

lemma edit_refines:
  assumes "coll_ok c" "i < length (query_of c)"
  shows "coll_ok (query_edit i v c) \<and> query_of (query_edit i v c) = (query_of c)[i := (query_of c ! i)\<lparr>facet_text := v\<rparr>] \<and>
    fired (query_edit i v c) = fired c @ (if facet_text (query_of c ! i) = v then []
      else [ChangedValue (coll_models c ! i), Changed (coll_models c ! i)])"
proof -
  let ?m = "coll_models c ! i"
  have i: "i < length (coll_models c)" using assms(2) by (simp add: query_of_def)
  have d: "distinct (coll_models c)" using assms(1) by (simp add: coll_ok_def)
  have "map (\<lambda>k. the (((attributes c)(?m := Some x)) k)) (coll_models c) = (map (\<lambda>k. the (attributes c k)) (coll_models c))[i := x]" for x
    using i d by (auto simp: list_eq_iff_nth_eq nth_list_update nth_eq_iff_index_eq)
  moreover have "listeners c ?m = 1" using assms(1) i by (simp add: coll_ok_def)
  moreover have f: "the (attributes c ?m) = query_of c ! i" using i by (simp add: query_of_def)
  moreover have "coll_ok (c\<lparr>attributes := g\<rparr>) = coll_ok c" for g by (simp add: coll_ok_def)
  moreover have "(query_of c)[i := (query_of c ! i)\<lparr>facet_text := facet_text (query_of c ! i)\<rparr>] = query_of c" by simp
  moreover have "query_of (c\<lparr>attributes := (attributes c)(?m := Some x)\<rparr>) = (query_of c)[i := x]" for x
    using calculation(1) by (simp add: query_of_def)
  ultimately show ?thesis
    using assms(1) by (cases "facet_text (query_of c ! i) = v") (simp_all add: query_edit_def set_value_def Let_def)
qed

subsection \<open>Theorems\<close>

text \<open>Everything the box does with its collection.\<close>

inductive coll_step :: "collection \<Rightarrow> collection \<Rightarrow> bool" where
  add: "coll_step c (query_add f i c)"
| reset: "coll_step c (query_reset fs c)"
| remove: "i < length (query_of c) \<Longrightarrow> coll_step c (query_remove i c)"
| edit: "i < length (query_of c) \<Longrightarrow> coll_step c (query_edit i v c)"

lemma coll_step_ok: "coll_step c c' \<Longrightarrow> coll_ok c \<Longrightarrow> coll_ok c'"
  by (erule coll_step.cases) (simp_all add: add_refines reset_refines remove_refines edit_refines)

lemma reachable_ok: "coll_step\<^sup>*\<^sup>* empty_collection c \<Longrightarrow> coll_ok c"
  by (induction rule: rtranclp_induct) (simp add: empty_ok, rule coll_step_ok)

text \<open>
  C14. The collection behind a box keeps the list of facets that the box is modelled with: in
  every state that it can reach, adding, resetting, removing and editing do to the facets of
  its models what \<open>addFacet\<close>, \<open>setQuery\<close>, \<open>remove_facet\<close> and \<open>disableEdit\<close> do to the list, and each
  tells its listeners once, editing only when the text is a new one; its length and its
  index agree with its models, and it listens once to each of them.
\<close>

theorem collection_refines_list:
  assumes "coll_step\<^sup>*\<^sup>* empty_collection c"
  shows "query_of (query_add f i c) = take i (query_of c) @ f # drop i (query_of c) \<and>
    fired (query_add f i c) = fired c @ [Added (next_cid c)] \<and>
    query_of (query_reset fs c) = fs \<and> fired (query_reset fs c) = fired c @ [WasReset] \<and>
    (\<forall>j<length (query_of c).
       query_of (query_remove j c) = take j (query_of c) @ drop (Suc j) (query_of c) \<and>
       fired (query_remove j c) = fired c @ [Removed (coll_models c ! j)] \<and>
       query_of (query_edit j v c) = (query_of c)[j := (query_of c ! j)\<lparr>facet_text := v\<rparr>] \<and>
       fired (query_edit j v c) = fired c @ (if facet_text (query_of c ! j) = v then []
         else [ChangedValue (coll_models c ! j), Changed (coll_models c ! j)])) \<and>
    coll_length c = int (length (query_of c)) \<and> distinct (coll_models c) \<and>
    (\<forall>m. coll_get m c = (if m \<in> set (coll_models c) then Some m else None) \<and>
      listeners c m = (if m \<in> set (coll_models c) then 1 else 0))"
proof -
  note ok = reachable_ok [OF assms]
  have "coll_length c = int (length (query_of c)) \<and> distinct (coll_models c) \<and>
    (\<forall>m. coll_get m c = (if m \<in> set (coll_models c) then Some m else None) \<and>
      listeners c m = (if m \<in> set (coll_models c) then 1 else 0))"
    using ok by (simp add: coll_ok_def query_of_def coll_get_def)
  then show ?thesis using add_refines [OF ok] reset_refines [OF ok] remove_refines [OF ok] edit_refines [OF ok] by blast
qed

lemma collection_refines_list_witness:
  "query_of (query_remove 0 (query_add \<lparr>category = ''imo'', facet_text = ''7''\<rparr> 1
     (query_reset [\<lparr>category = ''name'', facet_text = ''A''\<rparr>] empty_collection))) = [\<lparr>category = ''imo'', facet_text = ''7''\<rparr>]"
proof -
  let ?c0 = "query_reset [\<lparr>category = ''name'', facet_text = ''A''\<rparr>] empty_collection"
  let ?c1 = "query_add \<lparr>category = ''imo'', facet_text = ''7''\<rparr> 1 ?c0"
  have 0: "coll_step\<^sup>*\<^sup>* empty_collection empty_collection" "coll_step\<^sup>*\<^sup>* empty_collection ?c0"
    by (auto intro: coll_step.reset)
  then have 1: "coll_step\<^sup>*\<^sup>* empty_collection ?c1" by (auto intro: coll_step.add rtranclp.rtrancl_into_rtrancl)
  have "query_of ?c0 = [\<lparr>category = ''name'', facet_text = ''A''\<rparr>]" using collection_refines_list [OF 0(1)] by blast
  moreover from this have "query_of ?c1 = [\<lparr>category = ''name'', facet_text = ''A''\<rparr>, \<lparr>category = ''imo'', facet_text = ''7''\<rparr>]"
    using collection_refines_list [OF 0(2)] by simp
  ultimately show ?thesis using collection_refines_list [OF 1] by simp
qed

text \<open>
  A model that was taken out of the collection: what is written to it no longer changes what
  the collection shows, nor does anybody hear of it.
\<close>

lemma removed_model_unheard:
  "coll_ok c \<Longrightarrow> m \<notin> set (coll_models c) \<Longrightarrow> query_of (set_value m v c) = query_of c \<and> fired (set_value m v c) = fired c"
  by (auto simp: set_value_def Let_def query_of_def coll_ok_def)

text \<open>
  The general \<open>set\<close>, which the box does not call, can break the invariant: a new model that is
  given twice is counted once and listed twice.
\<close>

lemma set_twice:
  "coll_models (coll_set True True None True [0, 0] empty_collection) = [0, 0]" "coll_length (coll_set True True None True [0, 0] empty_collection) = 1"
  by (simp_all add: coll_set_def set_model_def coll_get_def coll_remove_def empty_collection_def listen_def Let_def)

end
