(* ===== verification/Autocomplete.thy ===== *)
theory Autocomplete
  imports BaseData "HOL-Library.Multiset"
begin

text \<open>
  \<open>ext/documentcloud-visualsearch/js/dependencies.js\<close>, the widgets \<open>ui.autocomplete\<close> and \<open>ui.menu\<close>: the
  menu of suggestions below a field of the search box. Geometry, paging, markup and the
  mouse are not modelled. The source of the suggestions may answer at any time, in any
  order, or never.
\<close>

subsection \<open>State\<close>

text \<open>
  The options that matter: the shortest text that is searched, whether the first entry becomes
  active at once, and whether an entry that becomes active by a key is put into the field
  (the callback \<open>focus\<close> does not return false) and one that is selected (\<open>select\<close>).
\<close>

record ac_options =
  minLength :: nat
  autoFocus :: bool
  focus_puts :: bool
  select_puts :: bool

text \<open>\<open>asked\<close> has the requests under way with their numbers and terms.\<close>

record autocomplete =
  field_value :: string
  ac_term :: string
  requestIndex :: nat
  pending :: int
  loading :: bool
  cancelSearch :: bool
  menu_visible :: bool
  menu_items :: "choice list"
  menu_active :: "nat option"
  selectedItem :: "choice option"
  searching :: bool
  asked :: "(nat \<times> string) list"

definition new_autocomplete :: "string \<Rightarrow> autocomplete" where
  "new_autocomplete v =
     \<lparr>field_value = v, ac_term = [], requestIndex = 0, pending = 0, loading = False, cancelSearch = False,
      menu_visible = False, menu_items = [], menu_active = None, selectedItem = None, searching = False, asked = []\<rparr>"

subsection \<open>The menu\<close>

definition hide_menu :: "autocomplete \<Rightarrow> autocomplete" where
  "hide_menu a = (if menu_visible a then a\<lparr>menu_visible := False, menu_active := None\<rparr> else a)"

definition ac_close :: "autocomplete \<Rightarrow> autocomplete" where
  "ac_close a = hide_menu (a\<lparr>cancelSearch := True\<rparr>)"

definition menu_focus :: "ac_options \<Rightarrow> bool \<Rightarrow> nat \<Rightarrow> autocomplete \<Rightarrow> autocomplete" where
  "menu_focus opts by_key i a =
     (let a = a\<lparr>menu_active := Some i\<rparr>
      in if focus_puts opts \<and> by_key then a\<lparr>field_value := choice_value (menu_items a ! i)\<rparr> else a)"

definition menu_next :: "ac_options \<Rightarrow> bool \<Rightarrow> autocomplete \<Rightarrow> autocomplete" where
  "menu_next opts by_key a =
     (case menu_active a of
        Some i \<Rightarrow> menu_focus opts by_key (if Suc i < length (menu_items a) then Suc i else 0) a
      | None \<Rightarrow> menu_focus opts by_key 0 a)"

definition menu_previous :: "ac_options \<Rightarrow> bool \<Rightarrow> autocomplete \<Rightarrow> autocomplete" where
  "menu_previous opts by_key a =
     (case menu_active a of
        Some i \<Rightarrow> menu_focus opts by_key (if 0 < i then i - 1 else length (menu_items a) - 1) a
      | None \<Rightarrow> menu_focus opts by_key (length (menu_items a) - 1) a)"

definition ac_suggest :: "ac_options \<Rightarrow> choice list \<Rightarrow> autocomplete \<Rightarrow> autocomplete" where
  "ac_suggest opts items a =
     (let a = a\<lparr>menu_items := items, menu_active := None, menu_visible := True\<rparr>
      in if autoFocus opts then menu_next opts False a else a)"

subsection \<open>Requests and answers\<close>

text \<open>Entries without a label or a value take it from the other; only the first entry decides whether that is done.\<close>

definition ac_normalize :: "choice list \<Rightarrow> choice list" where
  "ac_normalize items =
     (if items \<noteq> [] \<and> label (hd items) \<noteq> [] \<and> choice_value (hd items) \<noteq> [] then items
      else map (\<lambda>c. \<lparr>label = (if label c \<noteq> [] then label c else choice_value c),
                     choice_value = (if choice_value c \<noteq> [] then choice_value c else label c)\<rparr>) items)"

definition ac_response :: "ac_options \<Rightarrow> choice list \<Rightarrow> autocomplete \<Rightarrow> autocomplete" where
  "ac_response opts content a =
     (if content \<noteq> [] \<and> \<not> cancelSearch a then ac_suggest opts (ac_normalize content) a else hide_menu a)"

definition ac_answer :: "ac_options \<Rightarrow> nat \<Rightarrow> choice list \<Rightarrow> autocomplete \<Rightarrow> autocomplete" where
  "ac_answer opts index content a =
     (let a = (if index = requestIndex a then ac_response opts content a else a);
          a = a\<lparr>pending := pending a - 1\<rparr>
      in if pending a = 0 then a\<lparr>loading := False\<rparr> else a)"

definition ac_search :: "ac_options \<Rightarrow> autocomplete \<Rightarrow> autocomplete" where
  "ac_search opts a =
     (let v = field_value a; a = a\<lparr>ac_term := v\<rparr>
      in if length v < minLength opts then ac_close a
         else a\<lparr>pending := pending a + 1, loading := True, cancelSearch := False,
                requestIndex := Suc (requestIndex a), asked := asked a @ [(Suc (requestIndex a), v)]\<rparr>)"

definition searchTimeout :: "autocomplete \<Rightarrow> autocomplete" where
  "searchTimeout a = a\<lparr>searching := True\<rparr>"

definition timer_fires :: "ac_options \<Rightarrow> autocomplete \<Rightarrow> autocomplete" where
  "timer_fires opts a =
     (let a = a\<lparr>searching := False\<rparr>
      in if ac_term a \<noteq> field_value a then ac_search opts (a\<lparr>selectedItem := None\<rparr>) else a)"

text \<open>One of the requests under way is answered.\<close>

definition take_answer :: "ac_options \<Rightarrow> (string \<Rightarrow> choice list) \<Rightarrow> autocomplete \<Rightarrow> nat \<times> string \<Rightarrow> autocomplete" where
  "take_answer opts source a r = ac_answer opts (fst r) (source (snd r)) (a\<lparr>asked := remove1 r (asked a)\<rparr>)"

subsection \<open>Keys\<close>

definition isFirstItem :: "autocomplete \<Rightarrow> bool" where
  "isFirstItem a \<longleftrightarrow> menu_active a = Some 0"

definition isLastItem :: "autocomplete \<Rightarrow> bool" where
  "isLastItem a \<longleftrightarrow> (case menu_active a of None \<Rightarrow> False | Some i \<Rightarrow> \<not> Suc i < length (menu_items a))"

definition ac_move :: "ac_options \<Rightarrow> bool \<Rightarrow> autocomplete \<Rightarrow> autocomplete" where
  "ac_move opts forward a =
     (if \<not> menu_visible a then ac_search opts a
      else if (isFirstItem a \<and> \<not> forward) \<or> (isLastItem a \<and> forward) then a\<lparr>field_value := ac_term a, menu_active := None\<rparr>
      else if forward then menu_next opts True a else menu_previous opts True a)"

definition menu_select :: "ac_options \<Rightarrow> autocomplete \<Rightarrow> autocomplete" where
  "menu_select opts a =
     (case menu_active a of
        None \<Rightarrow> a
      | Some i \<Rightarrow>
          (let item = menu_items a ! i;
               a = (if select_puts opts then a\<lparr>field_value := choice_value item\<rparr> else a);
               a = ac_close (a\<lparr>ac_term := field_value a\<rparr>)
           in a\<lparr>selectedItem := Some item\<rparr>))"

definition ac_escape :: "autocomplete \<Rightarrow> autocomplete" where
  "ac_escape a = (if menu_visible a then ac_close (a\<lparr>field_value := ac_term a\<rparr>) else a)"

definition ac_blur :: "autocomplete \<Rightarrow> autocomplete" where
  "ac_blur a = ac_close (a\<lparr>searching := False\<rparr>)"

definition ac_type :: "string \<Rightarrow> autocomplete \<Rightarrow> autocomplete" where
  "ac_type v a = searchTimeout (a\<lparr>field_value := v\<rparr>)"

subsection \<open>Everything that can happen\<close>

inductive ac_step :: "ac_options \<Rightarrow> (string \<Rightarrow> choice list) \<Rightarrow> autocomplete \<Rightarrow> autocomplete \<Rightarrow> bool"
  for opts :: ac_options and source :: "string \<Rightarrow> choice list" where
  type_key: "ac_step opts source a (ac_type v a)"
| timer: "searching a \<Longrightarrow> ac_step opts source a (timer_fires opts a)"
| search_now: "ac_step opts source a (ac_search opts a)"
| answer: "r \<in> set (asked a) \<Longrightarrow> ac_step opts source a (take_answer opts source a r)"
| move: "ac_step opts source a (ac_move opts forward a)"
| select: "ac_step opts source a (menu_select opts a)"
| escape: "ac_step opts source a (ac_escape a)"
| leave: "ac_step opts source a (ac_blur a)"
| close: "ac_step opts source a (ac_close a)"

definition ac_ok :: "autocomplete \<Rightarrow> bool" where
  "ac_ok a \<longleftrightarrow>
     pending a = int (length (asked a)) \<and> loading a = (asked a \<noteq> []) \<and>
     distinct (map fst (asked a)) \<and> (\<forall>r\<in>set (asked a). fst r \<le> requestIndex a) \<and>
     (menu_visible a \<longrightarrow> menu_items a \<noteq> []) \<and>
     (\<forall>i. menu_active a = Some i \<longrightarrow> menu_visible a \<and> i < length (menu_items a))"

lemma menu_focus_simps [simp]:
  "menu_active (menu_focus opts k i a) = Some i" "menu_items (menu_focus opts k i a) = menu_items a"
  "menu_visible (menu_focus opts k i a) = menu_visible a" "pending (menu_focus opts k i a) = pending a"
  "loading (menu_focus opts k i a) = loading a" "asked (menu_focus opts k i a) = asked a" "requestIndex (menu_focus opts k i a) = requestIndex a"
  "cancelSearch (menu_focus opts k i a) = cancelSearch a" "ac_term (menu_focus opts k i a) = ac_term a"
  by (simp_all add: menu_focus_def Let_def)

lemma hide_simps [simp]:
  "menu_items (hide_menu a) = menu_items a" "pending (hide_menu a) = pending a" "loading (hide_menu a) = loading a"
  "asked (hide_menu a) = asked a" "requestIndex (hide_menu a) = requestIndex a" "cancelSearch (hide_menu a) = cancelSearch a"
  "\<not> menu_visible (hide_menu a)" "field_value (hide_menu a) = field_value a" "ac_term (hide_menu a) = ac_term a"
  by (simp_all add: hide_menu_def)

text \<open>What belongs to the requests, and what belongs to the menu.\<close>

definition requests_ok :: "autocomplete \<Rightarrow> bool" where
  "requests_ok a \<longleftrightarrow> pending a = int (length (asked a)) \<and> loading a = (asked a \<noteq> []) \<and>
     distinct (map fst (asked a)) \<and> (\<forall>r\<in>set (asked a). fst r \<le> requestIndex a)"

definition menu_ok :: "autocomplete \<Rightarrow> bool" where
  "menu_ok a \<longleftrightarrow> (menu_visible a \<longrightarrow> menu_items a \<noteq> []) \<and>
     (\<forall>i. menu_active a = Some i \<longrightarrow> menu_visible a \<and> i < length (menu_items a))"

lemma ac_ok_parts: "ac_ok a \<longleftrightarrow> requests_ok a \<and> menu_ok a"
  by (auto simp: ac_ok_def requests_ok_def menu_ok_def)

lemma requests_frame:
  "pending b = pending a \<Longrightarrow> asked b = asked a \<Longrightarrow> loading b = loading a \<Longrightarrow> requestIndex b = requestIndex a \<Longrightarrow>
    requests_ok b = requests_ok a"
  by (simp add: requests_ok_def)

lemma menu_frame:
  "menu_visible b = menu_visible a \<Longrightarrow> menu_items b = menu_items a \<Longrightarrow> menu_active b = menu_active a \<Longrightarrow> menu_ok b = menu_ok a"
  by (simp add: menu_ok_def)

lemma hide_ok: "menu_ok a \<Longrightarrow> menu_ok (hide_menu a)"
  by (auto simp: menu_ok_def hide_menu_def)

lemma close_ok: "ac_ok a \<Longrightarrow> ac_ok (ac_close a)"
  using hide_ok [of "a\<lparr>cancelSearch := True\<rparr>"]
  by (simp add: ac_ok_parts ac_close_def requests_frame [of "hide_menu _"] menu_frame [of "a\<lparr>cancelSearch := True\<rparr>" a] requests_ok_def)

lemma search_ok: "ac_ok a \<Longrightarrow> ac_ok (ac_search opts a)"
proof -
  assume a: "ac_ok a"
  have "ac_ok (a\<lparr>ac_term := field_value a\<rparr>)" using a by (simp add: ac_ok_def)
  then show ?thesis using a close_ok [of "a\<lparr>ac_term := field_value a\<rparr>"]
    by (auto simp: ac_search_def Let_def ac_ok_def dest: le_SucI intro: le_SucI) 
qed

lemma step_items: "menu_ok a \<Longrightarrow> menu_visible a \<Longrightarrow> menu_ok (menu_next opts k a) \<and> menu_ok (menu_previous opts k a)"
  by (auto simp: menu_ok_def menu_next_def menu_previous_def split: option.splits)

lemma step_requests [simp]:
  "pending (menu_next opts k a) = pending a" "asked (menu_next opts k a) = asked a" "loading (menu_next opts k a) = loading a"
  "requestIndex (menu_next opts k a) = requestIndex a" "cancelSearch (menu_next opts k a) = cancelSearch a"
  "pending (menu_previous opts k a) = pending a" "asked (menu_previous opts k a) = asked a" "loading (menu_previous opts k a) = loading a"
  "requestIndex (menu_previous opts k a) = requestIndex a" "cancelSearch (menu_previous opts k a) = cancelSearch a"
  by (simp_all add: menu_next_def menu_previous_def split: option.splits)

lemma response_requests [simp]:
  "pending (ac_response opts c a) = pending a" "asked (ac_response opts c a) = asked a" "loading (ac_response opts c a) = loading a"
  "requestIndex (ac_response opts c a) = requestIndex a" "cancelSearch (ac_response opts c a) = cancelSearch a"
  by (simp_all add: ac_response_def ac_suggest_def Let_def)

lemma response_ok: "menu_ok a \<Longrightarrow> menu_ok (ac_response opts c a)"
proof -
  assume a: "menu_ok a"
  have "ac_normalize c \<noteq> []" if "c \<noteq> []" using that by (simp add: ac_normalize_def)
  then have "menu_ok (ac_suggest opts (ac_normalize c) a)" if "c \<noteq> []"
    using that step_items [of "a\<lparr>menu_items := ac_normalize c, menu_active := None, menu_visible := True\<rparr>" opts False]
    by (simp add: ac_suggest_def menu_ok_def Let_def)
  then show ?thesis using hide_ok [OF a] by (simp add: ac_response_def)
qed

lemma take_answer_requests:
  "asked (take_answer opts src a r) = remove1 r (asked a)" "pending (take_answer opts src a r) = pending a - 1"
  "requestIndex (take_answer opts src a r) = requestIndex a" "cancelSearch (take_answer opts src a r) = cancelSearch a"
  "loading (take_answer opts src a r) = (pending a \<noteq> 1 \<and> loading a)"
  by (simp_all add: take_answer_def ac_answer_def Let_def)

lemma answer_ok: "ac_ok a \<Longrightarrow> r \<in> set (asked a) \<Longrightarrow> ac_ok (take_answer opts src a r)"
proof -
  assume a: "ac_ok a" "r \<in> set (asked a)"
  have "length (remove1 r (asked a)) = length (asked a) - 1" "0 < length (asked a)"
    using a(2) length_pos_if_in_set [OF a(2)] by (simp_all add: length_remove1)
  then have "length (asked a) = 1 \<longleftrightarrow> length (remove1 r (asked a)) = 0" by linarith
  then have "length (asked a) = 1 \<longleftrightarrow> remove1 r (asked a) = []" by simp
  moreover have "requests_ok a" using a(1) by (simp add: ac_ok_parts)
  ultimately have "requests_ok (take_answer opts src a r)"
    using a(2) by (auto simp: requests_ok_def take_answer_requests length_remove1 of_nat_diff Suc_le_eq length_pos_if_in_set distinct_map distinct_remove1
      intro: inj_on_diff dest: notin_set_remove1)
  moreover have "menu_ok (take_answer opts src a r)"
    using a(1) response_ok [of "a\<lparr>asked := remove1 r (asked a)\<rparr>" opts "src (snd r)"] menu_frame [of "a\<lparr>asked := remove1 r (asked a)\<rparr>" a]
    by (simp add: ac_ok_parts take_answer_def ac_answer_def Let_def menu_ok_def)
  ultimately show ?thesis by (simp add: ac_ok_parts)
qed

lemma move_ok: "ac_ok a \<Longrightarrow> ac_ok (ac_move opts forward a)"
proof -
  assume a: "ac_ok a"
  have "ac_ok (a\<lparr>field_value := ac_term a, menu_active := None\<rparr>)" using a by (simp add: ac_ok_def)
  moreover have "ac_ok (menu_next opts True a) \<and> ac_ok (menu_previous opts True a)" if "menu_visible a"
    using a step_items [OF _ that, of opts True] by (simp add: ac_ok_parts requests_ok_def)
  ultimately show ?thesis using a search_ok [OF a] by (simp add: ac_move_def)
qed

lemma ac_step_ok: "ac_step opts source a a' \<Longrightarrow> ac_ok a \<Longrightarrow> ac_ok a'"
proof (induction rule: ac_step.induct)
  case (type_key a v)
  then show ?case by (simp add: ac_type_def searchTimeout_def ac_ok_def)
next
  case (timer a)
  then have "ac_ok (a\<lparr>searching := False, selectedItem := None\<rparr>)" "ac_ok (a\<lparr>searching := False\<rparr>)" by (simp_all add: ac_ok_def)
  then show ?case using search_ok [of "a\<lparr>searching := False, selectedItem := None\<rparr>" opts] by (simp add: timer_fires_def Let_def)
next
  case (select a)
  have "ac_ok (ac_close b\<lparr>selectedItem := x\<rparr>)" if "ac_ok b" for b x using close_ok [OF that] by (simp add: ac_ok_def)
  moreover have "ac_ok (a\<lparr>ac_term := t\<rparr>)" "ac_ok (a\<lparr>field_value := t, ac_term := u\<rparr>)" for t u using select by (simp_all add: ac_ok_def)
  ultimately show ?case using select by (auto simp: menu_select_def Let_def split: option.split)
next
  case (escape a)
  then have "ac_ok (a\<lparr>field_value := ac_term a\<rparr>)" by (simp add: ac_ok_def)
  then show ?case using escape close_ok by (simp add: ac_escape_def)
next
  case (leave a)
  then have "ac_ok (a\<lparr>searching := False\<rparr>)" by (simp add: ac_ok_def)
  then show ?case using close_ok by (simp add: ac_blur_def)
qed (simp_all add: search_ok answer_ok move_ok close_ok)

lemma reachable_ac_ok: "(ac_step opts source)\<^sup>*\<^sup>* (new_autocomplete v) a \<Longrightarrow> ac_ok a"
  by (induction rule: rtranclp_induct) (simp add: ac_ok_def new_autocomplete_def, rule ac_step_ok)

subsection \<open>Theorems\<close>

text \<open>What the user sees.\<close>

definition shown :: "autocomplete \<Rightarrow> string \<times> bool \<times> choice list \<times> nat option" where
  "shown a = (field_value a, menu_visible a, menu_items a, menu_active a)"

lemma shown_response: "shown a = shown b \<Longrightarrow> cancelSearch a = cancelSearch b \<Longrightarrow> shown (ac_response opts c a) = shown (ac_response opts c b)"
  by (simp add: shown_def ac_response_def ac_suggest_def hide_menu_def menu_next_def menu_focus_def Let_def)

lemma shown_answer:
  "shown (take_answer opts source a r) = (if fst r = requestIndex a then shown (ac_response opts (source (snd r)) a) else shown a)"
proof -
  have "shown (ac_response opts c (a\<lparr>asked := rs\<rparr>)) = shown (ac_response opts c a)" for c rs by (rule shown_response) (simp_all add: shown_def)
  then show ?thesis by (simp add: take_answer_def ac_answer_def Let_def) (simp add: shown_def)
qed

lemma answers_old:
  "\<forall>r\<in>set rs. fst r \<noteq> requestIndex a \<Longrightarrow>
    shown (foldl (take_answer opts source) a rs) = shown a"
  by (induction rs arbitrary: a) (simp_all add: shown_answer take_answer_requests)

lemma answers_requests:
  "mset rs = mset (asked a) \<Longrightarrow> ac_ok a \<Longrightarrow>
    pending (foldl (take_answer opts source) a rs) = 0 \<and> \<not> loading (foldl (take_answer opts source) a rs)"
proof (induction rs arbitrary: a)
  case (Cons r rs)
  then have r: "r \<in> set (asked a)" by (metis list.set_intros(1) set_mset_mset)
  then have "mset rs = mset (asked (take_answer opts source a r))" using Cons.prems(1) by (simp add: take_answer_requests flip: Cons.prems(1))
  then show ?case using Cons.IH answer_ok [OF Cons.prems(2) r] by simp
qed (simp add: ac_ok_def)

text \<open>
  C25. Suggestions are never those of an older text: whatever was typed, pressed and answered
  before, when all requests under way are answered, in any order, the field and its menu are
  as if only the newest request had been answered, and as they were if that one has been
  answered before; and no request counts as under way any more.
\<close>

theorem answers_in_any_order:
  assumes "(ac_step opts source)\<^sup>*\<^sup>* (new_autocomplete v) a" "mset rs = mset (asked a)"
  shows "let a' = foldl (take_answer opts source) a rs in
    shown a' = (case map_of (asked a) (requestIndex a) of
      Some t \<Rightarrow> shown (ac_response opts (source t) a) | None \<Rightarrow> shown a) \<and>
    pending a' = 0 \<and> \<not> loading a'"
proof -
  note ok = reachable_ac_ok [OF assms(1)]
  have d: "distinct (map fst (asked a))" using ok by (simp add: ac_ok_def)
  have s: "set rs = set (asked a)" using assms(2) by (metis set_mset_mset)
  have "distinct (map fst rs)" using d assms(2) by (metis mset_map mset_eq_imp_distinct_iff)
  have "shown (foldl (take_answer opts source) a rs) =
      (case map_of (asked a) (requestIndex a) of Some t \<Rightarrow> shown (ac_response opts (source t) a) | None \<Rightarrow> shown a)"
  proof (cases "map_of (asked a) (requestIndex a)")
    case None
    then have "\<forall>r\<in>set rs. fst r \<noteq> requestIndex a" by (force simp: map_of_eq_None_iff s)
    then show ?thesis using None answers_old by simp
  next
    case (Some t)
    then have "(requestIndex a, t) \<in> set rs" by (simp add: s map_of_SomeD)
    then obtain xs ys where rs: "rs = xs @ (requestIndex a, t) # ys" by (meson split_list)
    then have o: "\<forall>r\<in>set xs. fst r \<noteq> requestIndex a" "\<forall>r\<in>set ys. fst r \<noteq> requestIndex a"
      using \<open>distinct (map fst rs)\<close> unfolding rs map_append distinct_append list.map distinct.simps
      by (metis IntI empty_iff fst_conv image_eqI list.set_intros(1) list.set_map)+
    define b where "b = foldl (take_answer opts source) a xs"
    have "requestIndex (foldl (take_answer opts source) a zs) = requestIndex a \<and>
        cancelSearch (foldl (take_answer opts source) a zs) = cancelSearch a" for a zs
      by (induction zs arbitrary: a) (simp_all add: take_answer_requests)
    then have b: "requestIndex b = requestIndex a" "cancelSearch b = cancelSearch a" by (simp_all add: b_def)
    have "shown b = shown a" unfolding b_def by (rule answers_old [OF o(1)])
    then have "shown (take_answer opts source b (requestIndex a, t)) = shown (ac_response opts (source t) a)"
      using shown_response [of b a opts "source t"] b by (simp add: shown_answer)
    moreover have "\<forall>r\<in>set ys. fst r \<noteq> requestIndex (take_answer opts source b (requestIndex a, t))" using o(2) b by (simp add: take_answer_requests)
    ultimately show ?thesis using answers_old Some by (simp add: rs b_def)
  qed
  then show ?thesis using answers_requests [OF assms(2) ok] by (simp add: Let_def)
qed

definition sample_options :: ac_options where
  "sample_options = \<lparr>minLength = 0, autoFocus = True, focus_puts = True, select_puts = False\<rparr>"

lemma answers_in_any_order_witness:
  "\<exists>a. asked a = [(1, ''D''), (2, ''DN'')] \<and>
    menu_items (foldl (take_answer sample_options (\<lambda>t. [\<lparr>label = t, choice_value = t\<rparr>])) a [(2, ''DN''), (1, ''D'')]) =
      [\<lparr>label = ''DN'', choice_value = ''DN''\<rparr>]"
proof -
  let ?src = "\<lambda>t. [\<lparr>label = t, choice_value = t\<rparr>]" and ?o = sample_options
  define a where "a = timer_fires ?o (ac_type ''DN'' (timer_fires ?o (ac_type ''D'' (new_autocomplete []))))"
  have s: "(ac_step ?o ?src)\<^sup>*\<^sup>* b (timer_fires ?o (ac_type u b))" for b u
  proof (rule rtranclp_trans)
    show "(ac_step ?o ?src)\<^sup>*\<^sup>* b (ac_type u b)" by (rule r_into_rtranclp) (rule ac_step.type_key)
    show "(ac_step ?o ?src)\<^sup>*\<^sup>* (ac_type u b) (timer_fires ?o (ac_type u b))"
      by (rule r_into_rtranclp) (rule ac_step.timer, simp add: ac_type_def searchTimeout_def)
  qed
  have r: "(ac_step ?o ?src)\<^sup>*\<^sup>* (new_autocomplete []) a" unfolding a_def by (rule rtranclp_trans [OF s s])
  have a: "asked a = [(1, ''D''), (2, ''DN'')]" "requestIndex a = 2" "\<not> cancelSearch a"
    by (simp_all add: a_def new_autocomplete_def ac_type_def searchTimeout_def timer_fires_def ac_search_def sample_options_def Let_def)
  have "shown (foldl (take_answer ?o ?src) a [(2, ''DN''), (1, ''D'')]) = shown (ac_response ?o (?src ''DN'') a)"
    using answers_in_any_order [OF r, of "[(2, ''DN''), (1, ''D'')]"] a by (simp add: Let_def)
  moreover have "menu_items (ac_response ?o (?src ''DN'') a) = ?src ''DN''"
    using a(3) by (simp add: ac_response_def ac_suggest_def ac_normalize_def menu_next_def sample_options_def Let_def)
  ultimately show ?thesis using a(1) by (intro exI [of _ a]) (simp add: shown_def)
qed

text \<open>
  The arrow keys go round: with a menu of \<open>n\<close> entries, none of them active, pressing down \<open>k\<close>
  times makes entry \<open>k\<close> active and puts its value into the field, once more after the last
  entry gives the typed text back with no entry active; up goes the same way backwards.
\<close>

theorem arrows_go_round:
  assumes "menu_visible a" "menu_active a = None" "field_value a = ac_term a" "focus_puts opts" "k \<le> length (menu_items a)"
  shows "(ac_move opts True ^^ k) a =
      (if k = 0 then a else a\<lparr>menu_active := Some (k - 1), field_value := choice_value (menu_items a ! (k - 1))\<rparr>) \<and>
    (ac_move opts False ^^ k) a =
      (if k = 0 then a else a\<lparr>menu_active := Some (length (menu_items a) - k), field_value := choice_value (menu_items a ! (length (menu_items a) - k))\<rparr>) \<and>
    (menu_items a \<noteq> [] \<longrightarrow> (ac_move opts True ^^ Suc (length (menu_items a))) a = a \<and>
      (ac_move opts False ^^ Suc (length (menu_items a))) a = a)"
proof -
  let ?n = "length (menu_items a)"
  have self: "a\<lparr>field_value := ac_term a, menu_active := None\<rparr> = a" "a\<lparr>menu_active := None, field_value := ac_term a\<rparr> = a"
    using assms(2,3) by (cases a; simp)+
  have down: "(ac_move opts True ^^ k) a =
      (if k = 0 then a else a\<lparr>menu_active := Some (k - 1), field_value := choice_value (menu_items a ! (k - 1))\<rparr>)" if "k \<le> ?n" for k
    using that
  proof (induction k)
    case (Suc k)
    then show ?case using assms
      by (auto simp: ac_move_def isFirstItem_def isLastItem_def menu_next_def menu_focus_def Let_def)
  qed simp
  have up: "(ac_move opts False ^^ k) a =
      (if k = 0 then a else a\<lparr>menu_active := Some (?n - k), field_value := choice_value (menu_items a ! (?n - k))\<rparr>)" if "k \<le> ?n" for k
    using that
  proof (induction k)
    case (Suc k)
    then show ?case using assms
      by (auto simp: ac_move_def isFirstItem_def isLastItem_def menu_previous_def menu_focus_def Let_def)
  qed simp
  have "(ac_move opts True ^^ Suc ?n) a = a" "(ac_move opts False ^^ Suc ?n) a = a" if "menu_items a \<noteq> []"
    using down [of ?n] up [of ?n] that assms(1) self by (simp_all add: ac_move_def isFirstItem_def isLastItem_def)
  then show ?thesis using down [OF assms(5)] up [OF assms(5)] by simp
qed

lemma arrows_go_round_witness:
  "field_value ((ac_move sample_options True ^^ 2) (ac_suggest (sample_options\<lparr>autoFocus := False\<rparr>)
     [\<lparr>label = ''A'', choice_value = ''a''\<rparr>, \<lparr>label = ''B'', choice_value = ''b''\<rparr>] (new_autocomplete []))) = ''b''"
proof -
  let ?a = "ac_suggest (sample_options\<lparr>autoFocus := False\<rparr>)
     [\<lparr>label = ''A'', choice_value = ''a''\<rparr>, \<lparr>label = ''B'', choice_value = ''b''\<rparr>] (new_autocomplete [])"
  have "menu_visible ?a" "menu_active ?a = None" "field_value ?a = ac_term ?a" "focus_puts sample_options" "2 \<le> length (menu_items ?a)"
    by (simp_all add: ac_suggest_def sample_options_def new_autocomplete_def)
  from arrows_go_round [OF this] show ?thesis by (simp add: ac_suggest_def sample_options_def Let_def)
qed

end
