(* ===== verification/UiPosition.thy ===== *)
theory UiPosition
  imports Prelude
begin

text \<open>
  \<open>ext/documentcloud-visualsearch/js/dependencies.js\<close>, \<open>$.ui.position\<close>: where a menu is put beside its
  field, and how it is moved when it leaves the window. Coordinates are rational numbers: the
  browsers place elements at multiples of a fixed fraction of a pixel, whose sums are exact.
\<close>

subsection \<open>One direction\<close>

text \<open>Left or top, center, right or bottom.\<close>

datatype side = Near | Middle | Far

text \<open>What \<open>data\<close> and \<open>within\<close> hold for one direction; \<open>offset_sum\<close> is the sum of the two offsets asked for.\<close>

record placement =
  my :: side
  at_side :: side
  is_window :: bool
  within_offset :: rat
  within_scroll :: rat
  outer_size :: rat
  target_size :: rat
  elem_size :: rat
  margin :: rat
  collision_size :: rat
  offset_sum :: rat

definition start_position :: "rat \<Rightarrow> placement \<Rightarrow> rat" where
  "start_position target d =
     (let p = (case at_side d of Far \<Rightarrow> target + target_size d | Middle \<Rightarrow> target + target_size d / 2 | Near \<Rightarrow> target);
          p = (case my d of Far \<Rightarrow> p - elem_size d | Middle \<Rightarrow> p - elem_size d / 2 | Near \<Rightarrow> p)
      in p + offset_sum d)"

text \<open>\<open>fit\<close> is the same in both directions.\<close>

definition fit :: "placement \<Rightarrow> rat \<Rightarrow> rat" where
  "fit d position =
     (let withinOffset = (if is_window d then within_scroll d else within_offset d);
          collisionPos = position - margin d;
          overNear = withinOffset - collisionPos;
          overFar = collisionPos + collision_size d - outer_size d - withinOffset
      in if collision_size d > outer_size d then
           (if overNear > 0 \<and> overFar \<le> 0 then
              (let newOverFar = position + overNear + collision_size d - outer_size d - withinOffset
               in position + (overNear - newOverFar))
            else if overFar > 0 \<and> overNear \<le> 0 then withinOffset
            else if overNear > overFar then withinOffset + outer_size d - collision_size d
            else withinOffset)
         else if overNear > 0 then position + overNear
         else if overFar > 0 then position - overFar
         else max (position - collisionPos) position)"

text \<open>The step to the other side of the target.\<close>

definition flip_step :: "placement \<Rightarrow> rat" where
  "flip_step d =
     (case my d of Near \<Rightarrow> - elem_size d | Far \<Rightarrow> elem_size d | Middle \<Rightarrow> 0) +
     (case at_side d of Near \<Rightarrow> target_size d | Far \<Rightarrow> - target_size d | Middle \<Rightarrow> 0) +
     (- 2 * offset_sum d)"

definition flip_left :: "placement \<Rightarrow> rat \<Rightarrow> rat" where
  "flip_left d position =
     (let withinOffset = within_offset d + within_scroll d;
          offsetLeft = (if is_window d then within_scroll d else within_offset d);
          collisionPosLeft = position - margin d;
          overLeft = collisionPosLeft - offsetLeft;
          overRight = collisionPosLeft + collision_size d - outer_size d - offsetLeft
      in if overLeft < 0 then
           (let newOverRight = position + flip_step d + collision_size d - outer_size d - withinOffset
            in if newOverRight < 0 \<or> newOverRight < \<bar>overLeft\<bar> then position + flip_step d else position)
         else if overRight > 0 then
           (let newOverLeft = position - margin d + flip_step d - offsetLeft
            in if newOverLeft > 0 \<or> \<bar>newOverLeft\<bar> < overRight then position + flip_step d else position)
         else position)"

definition flip_top :: "placement \<Rightarrow> rat \<Rightarrow> rat" where
  "flip_top d position =
     (let withinOffset = within_offset d + within_scroll d;
          offsetTop = (if is_window d then within_scroll d else within_offset d);
          collisionPosTop = position - margin d;
          overTop = collisionPosTop - offsetTop;
          overBottom = collisionPosTop + collision_size d - outer_size d - offsetTop
      in if overTop < 0 then
           (let newOverBottom = position + flip_step d + collision_size d - outer_size d - withinOffset
            in if position + flip_step d > overTop \<and> (newOverBottom < 0 \<or> newOverBottom < \<bar>overTop\<bar>)
               then position + flip_step d else position)
         else if overBottom > 0 then
           (let newOverTop = position - margin d + flip_step d - offsetTop
            in if position + flip_step d > overBottom \<and> (newOverTop > 0 \<or> \<bar>newOverTop\<bar> < overBottom)
               then position + flip_step d else position)
         else position)"

subsection \<open>The menus of the search box\<close>

text \<open>
  A menu of a facet: its top left corner goes below the bottom left corner of the field, in
  the window. The library passes an option \<open>offset\<close>, which this version does not read.
\<close>

definition menu_placement :: "side \<Rightarrow> rat \<Rightarrow> rat \<Rightarrow> rat \<Rightarrow> rat \<Rightarrow> placement" where
  "menu_placement at_s scroll window target elem =
     \<lparr>my = Near, at_side = at_s, is_window = True, within_offset = 0, within_scroll = scroll, outer_size = window,
      target_size = target, elem_size = elem, margin = 0, collision_size = elem, offset_sum = 0\<rparr>"

definition menu_top :: "rat \<Rightarrow> rat \<Rightarrow> rat \<Rightarrow> rat \<Rightarrow> rat \<Rightarrow> rat" where
  "menu_top scroll window field_top field_height height =
     (let d = menu_placement Far scroll window field_height height in flip_top d (start_position field_top d))"

subsection \<open>Theorems\<close>

text \<open>
  Whatever is fitted and is not larger than its container is inside of it afterwards, and
  stays where it is when it was inside before; what is larger covers the container and is
  aligned with one of its edges. (A container that does not begin left of or above the page,
  and an element without margins.)
\<close>

theorem fit_stays_inside:
  assumes "0 \<le> (if is_window d then within_scroll d else within_offset d)" "margin d = 0" "0 \<le> outer_size d"
  shows "let lo = (if is_window d then within_scroll d else within_offset d); hi = lo + outer_size d; q = fit d p in
    (collision_size d \<le> outer_size d \<longrightarrow> lo \<le> q \<and> q + collision_size d \<le> hi) \<and>
    (lo \<le> p \<and> p + collision_size d \<le> hi \<longrightarrow> q = p) \<and>
    (outer_size d < collision_size d \<longrightarrow> q \<le> lo \<and> hi \<le> q + collision_size d \<and> (q = lo \<or> q + collision_size d = hi))"
proof -
  define lo where "lo = (if is_window d then within_scroll d else within_offset d)"
  have lo: "0 \<le> lo" using assms(1) by (simp add: lo_def)
  have q: "fit d p =
     (if collision_size d > outer_size d then
        (if lo > p \<and> p + collision_size d - outer_size d \<le> lo then lo + outer_size d - collision_size d
         else if p + collision_size d - outer_size d > lo \<and> lo \<le> p then lo
         else if lo - p > p + collision_size d - outer_size d - lo then lo + outer_size d - collision_size d
         else lo)
      else if lo > p then lo
      else if p + collision_size d - outer_size d > lo then lo + outer_size d - collision_size d
      else max 0 p)"
    by (simp add: fit_def lo_def [symmetric] assms(2) Let_def)
  show ?thesis
    unfolding lo_def [symmetric] Let_def q using lo assms(3) by (auto simp: max_def)
qed

lemma fit_stays_inside_witness:
  "fit (menu_placement Far 0 100 20 30) 90 + 30 \<le> 100"
  using fit_stays_inside [of "menu_placement Far 0 100 20 30" 90] by (simp add: menu_placement_def Let_def)

text \<open>
  A menu stays below its field when it fits there. When it does not, it goes above the field,
  but only if it is hidden less there, and only if its new top is larger than the
  part that is hidden below: a long menu of a field at the bottom of the window is left below,
  where next to nothing of it is seen, although it would fit above.
\<close>

theorem menu_flips:
  assumes "scroll \<le> field_top + field_height" "0 < height"
  shows "let below = field_top + field_height; above = field_top - height; over = below + height - (scroll + window) in
    (over \<le> 0 \<longrightarrow> menu_top scroll window field_top field_height height = below) \<and>
    (0 < over \<longrightarrow> menu_top scroll window field_top field_height height =
       (if over < above \<and> (scroll < above \<or> scroll - above < over) then above else below))"
  using assms by (auto simp: menu_top_def flip_top_def flip_step_def start_position_def menu_placement_def Let_def)

lemma menu_flips_witness: "menu_top 0 600 560 20 100 = 460 \<and> menu_top 0 600 560 20 500 = 580"
  using menu_flips [of 0 560 20 100 600] menu_flips [of 0 560 20 500 600] by (simp add: Let_def)

end
