(* ===== verification/Underscore.thy ===== *)
theory Underscore
  imports Prelude "HOL-Library.Multiset" "HOL-Library.Option_ord" "HOL-Library.Product_Lexorder"
begin

text \<open>
  \<open>ext/documentcloud-visualsearch/js/dependencies.js\<close>, functions of Underscore on arrays and
  texts: sorting and searching, removing duplicates, number ranges, the escaping of markup. The values of an
  array are compared by a key with a linear order, as numbers and as texts are.
\<close>

subsection \<open>Sorting\<close>

text \<open>The comparison of \<open>_.sortBy\<close>: by criteria, the undefined one last, then by index.\<close>

definition compare :: "'k::linorder option \<times> nat \<Rightarrow> 'k option \<times> nat \<Rightarrow> int" where
  "compare left right =
     (let a = fst left; b = fst right
      in if a \<noteq> b \<and> (a = None \<or> (b \<noteq> None \<and> the a > the b)) then 1
         else if a \<noteq> b \<and> (b = None \<or> (a \<noteq> None \<and> the a < the b)) then - 1
         else int (snd left) - int (snd right))"

text \<open>\<open>sort\<close> of an array with such a comparison.\<close>

fun insert_by :: "('a \<Rightarrow> 'a \<Rightarrow> int) \<Rightarrow> 'a \<Rightarrow> 'a list \<Rightarrow> 'a list" where
  "insert_by c x [] = [x]"
| "insert_by c x (y # ys) = (if c x y \<le> 0 then x # y # ys else y # insert_by c x ys)"

definition sort_by :: "('a \<Rightarrow> 'a \<Rightarrow> int) \<Rightarrow> 'a list \<Rightarrow> 'a list" where
  "sort_by c xs = foldr (insert_by c) xs []"

definition sortBy :: "('a \<Rightarrow> 'k::linorder option) \<Rightarrow> 'a list \<Rightarrow> 'a list" where
  "sortBy iterator obj =
     map fst (sort_by (\<lambda>l r. compare (iterator (fst l), snd l) (iterator (fst r), snd r)) (zip obj [0..<length obj]))"

subsection \<open>Searching\<close>

function sorted_index :: "('a \<Rightarrow> 'k::linorder) \<Rightarrow> 'a list \<Rightarrow> 'k \<Rightarrow> nat \<Rightarrow> nat \<Rightarrow> nat" where
  "sorted_index f array v low high =
     (if low < high then
        (let mid = (low + high) div 2
         in if f (array ! mid) < v then sorted_index f array v (Suc mid) high else sorted_index f array v low mid)
      else low)"
  by pat_completeness auto
termination by (relation "measure (\<lambda>(f, array, v, low, high). high - low)") auto

declare sorted_index.simps [simp del]

definition sortedIndex :: "('a \<Rightarrow> 'k::linorder) \<Rightarrow> 'a list \<Rightarrow> 'a \<Rightarrow> nat" where
  "sortedIndex f array x = sorted_index f array (f x) 0 (length array)"

fun index_from :: "nat \<Rightarrow> 'a list \<Rightarrow> 'a \<Rightarrow> int" where
  "index_from i [] x = - 1"
| "index_from i (y # ys) x = (if y = x then int i else index_from (Suc i) ys x)"

definition indexOf :: "'a::linorder list \<Rightarrow> 'a \<Rightarrow> bool \<Rightarrow> int" where
  "indexOf array item isSorted =
     (if isSorted then
        (let i = sortedIndex id array item in if i < length array \<and> array ! i = item then int i else - 1)
      else index_from 0 array item)"

subsection \<open>Duplicates and ranges\<close>

definition uniq_step :: "bool \<Rightarrow> 'b list \<times> 'a list \<Rightarrow> 'b \<times> 'a \<Rightarrow> 'b list \<times> 'a list" where
  "uniq_step isSorted st vx =
     (let (seen, results) = st; (v, x) = vx
      in if (if isSorted then seen = [] \<or> last seen \<noteq> v else v \<notin> set seen) then (seen @ [v], results @ [x]) else st)"

definition uniq :: "bool \<Rightarrow> ('a \<Rightarrow> 'b) \<Rightarrow> 'a list \<Rightarrow> 'a list" where
  "uniq isSorted iterator array = snd (foldl (uniq_step isSorted) ([], []) (zip (map iterator array) array))"

definition range_list :: "int \<Rightarrow> int \<Rightarrow> int \<Rightarrow> int list" where
  "range_list start stop step =
     (let step = (if step = 0 then 1 else step);
          n = max (- ((start - stop) div step)) 0
      in map (\<lambda>i. start + int i * step) [0..<nat n])"

subsection \<open>Markup\<close>

definition escape_map :: "(char \<times> string) list" where
  "escape_map = [(CHR ''&'', ''&amp;''), (CHR ''<'', ''&lt;''), (CHR ''>'', ''&gt;''), (CHR 0x22, ''&quot;''), (CHR 0x27, ''&#x27;'')]"

definition escape_html :: "string \<Rightarrow> string" where
  "escape_html s = concat (map (\<lambda>c. case map_of escape_map c of None \<Rightarrow> [c] | Some e \<Rightarrow> e) s)"

text \<open>The first entity, in the order of the map, that the text begins with.\<close>

definition entity_at :: "string \<Rightarrow> (char \<times> string) option" where
  "entity_at s = (case filter (\<lambda>(c, e). take (length e) s = e) escape_map of [] \<Rightarrow> None | x # _ \<Rightarrow> Some x)"

lemma entity_length: "entity_at s = Some (c, e) \<Longrightarrow> 0 < length e"
proof -
  assume "entity_at s = Some (c, e)"
  then have "(c, e) \<in> set (filter (\<lambda>(c, e). take (length e) s = e) escape_map)"
    by (cases "filter (\<lambda>(c, e). take (length e) s = e) escape_map") (simp_all add: entity_at_def)
  then have "(c, e) \<in> set escape_map" by simp
  moreover have "\<forall>x\<in>set escape_map. 0 < length (snd x)" by (simp add: escape_map_def)
  ultimately show ?thesis by fastforce
qed

function unescape_html :: "string \<Rightarrow> string" where
  "unescape_html [] = []"
| "unescape_html (x # s) =
     (case entity_at (x # s) of None \<Rightarrow> x # unescape_html s | Some (c, e) \<Rightarrow> c # unescape_html (drop (length e) (x # s)))"
  by pat_completeness auto
termination by (relation "measure length") (auto dest: entity_length)

subsection \<open>Sorting is stable\<close>

definition sort_rank :: "('a \<Rightarrow> 'k::linorder option) \<Rightarrow> 'a \<Rightarrow> bool \<times> 'k option" where
  "sort_rank f x = (f x = None, f x)"

lemma compare_rank: "compare (f x, i) (f y, j) \<le> 0 \<longleftrightarrow> (sort_rank f x, i) \<le> (sort_rank f y, j)"
  by (cases "f x"; cases "f y") (auto simp: compare_def sort_rank_def Let_def less_eq_prod_def less_prod_def)

lemma insert_by_rank: "(\<And>x y. c x y \<le> 0 \<longleftrightarrow> r x \<le> r y) \<Longrightarrow> insert_by c x xs = insort_key r x xs"
  by (induction xs) auto

lemma sort_by_rank: "(\<And>x y. c x y \<le> 0 \<longleftrightarrow> r x \<le> r y) \<Longrightarrow> sort_by c xs = sort_key r xs"
  by (induction xs) (simp_all add: sort_by_def insert_by_rank)

lemma sort_indexed:
  fixes r :: "'a \<Rightarrow> 'r::linorder"
  shows "map fst (sort_key (\<lambda>p. (r (fst p), snd p)) (zip xs [0..<length xs])) = sort_key r xs"
proof -
  let ?R = "\<lambda>p. (r (fst p), snd p :: nat)" and ?zs = "zip xs [0..<length xs]"
  let ?ys = "map fst (sort_key ?R ?zs)"
  have f: "filter (\<lambda>x. k = r x) ?ys = filter (\<lambda>x. k = r x) xs" for k
  proof -
    let ?fs = "filter (\<lambda>p. k = r (fst p)) ?zs"
    have "sorted (map snd ?zs)" by (simp add: sorted_upt)
    then have "sorted_wrt (\<lambda>p q. snd p \<le> snd q) ?zs" by (simp only: sorted_map)
    then have "sorted_wrt (\<lambda>p q. snd p \<le> snd q) ?fs" by (rule sorted_wrt_filter)
    then have "sorted_wrt (\<lambda>p q. ?R p \<le> ?R q) ?fs"
      by (rule sorted_wrt_mono_rel [rotated]) (auto simp: less_eq_prod_def)
    then have "sorted (map ?R ?fs)" by (simp only: sorted_map)
    then have "sort_key ?R ?fs = ?fs" by (rule sort_key_id_if_sorted)
    then have "filter (\<lambda>p. k = r (fst p)) (sort_key ?R ?zs) = ?fs" by (simp add: filter_sort)
    note sorted_part = this
    have part: "filter (\<lambda>x. k = r x) (map fst ps) = map fst (filter (\<lambda>p. k = r (fst p)) ps)" for ps :: "('a \<times> nat) list"
      by (simp add: filter_map comp_def)
    have "map fst ?zs = xs" by simp
    then have "map fst ?fs = filter (\<lambda>x. k = r x) xs" using part [of ?zs] by (simp only:)
    then show ?thesis by (simp only: part sorted_part)
  qed
  have "sorted (map ?R (sort_key ?R ?zs))" by simp
  then have "sorted (map r ?ys)"
    unfolding sorted_map by (simp add: sorted_wrt_map) (erule sorted_wrt_mono_rel [rotated], auto simp: less_eq_prod_def)
  moreover have "mset ?ys = mset xs"
  proof -
    have "mset ?ys = image_mset fst (mset ?zs)" by simp
    also have "\<dots> = mset (map fst ?zs)" by (simp only: mset_map)
    finally show ?thesis by simp
  qed
  ultimately show ?thesis using f by (intro properties_for_sort_key [symmetric])
qed

text \<open>
  \<open>_.sortBy\<close> sorts stably: the entries with a key in the order of their keys, those with the
  same key in their old order, and those without a key at the end.
\<close>

theorem sortBy_stable: "sortBy f xs = sort_key (sort_rank f) xs"
  unfolding sortBy_def
  by (subst sort_by_rank [of _ "\<lambda>p. (sort_rank f (fst p), snd p)"]) (simp_all add: compare_rank sort_indexed)

subsection \<open>Binary search\<close>

lemma sorted_index_bounds:
  "sorted (map f xs) \<Longrightarrow> high \<le> length xs \<Longrightarrow> low \<le> high \<Longrightarrow> \<forall>j<low. f (xs ! j) < v \<Longrightarrow> \<forall>j. high \<le> j \<and> j < length xs \<longrightarrow> v \<le> f (xs ! j) \<Longrightarrow>
    sorted_index f xs v low high \<le> length xs \<and> (\<forall>j<length xs. f (xs ! j) < v \<longleftrightarrow> j < sorted_index f xs v low high)"
proof (induction f xs v low high rule: sorted_index.induct)
  case (1 f xs v low high)
  define mid where "mid = (low + high) div 2"
  have mono: "f (xs ! i) \<le> f (xs ! j)" if "i \<le> j" "j < length xs" for i j using 1(3) that by (simp add: sorted_iff_nth_mono)
  show ?case
  proof (cases "low < high")
    case True
    then have m: "low \<le> mid" "mid < high" by (simp_all add: mid_def)
    show ?thesis
    proof (cases "f (xs ! mid) < v")
      case less: True
      have "\<forall>j<Suc mid. f (xs ! j) < v"
      proof (intro allI impI)
        fix j assume "j < Suc mid"
        then have "f (xs ! j) \<le> f (xs ! mid)" using mono [of j mid] m 1(4) by simp
        also note less
        finally show "f (xs ! j) < v" .
      qed
      then show ?thesis using 1(1) [OF True mid_def less 1(3,4) _ _ 1(7)] less m True
        by (simp add: sorted_index.simps [of f xs v low] mid_def [symmetric] Let_def Suc_le_eq)
    next
      case not_less: False
      have "\<forall>j. mid \<le> j \<and> j < length xs \<longrightarrow> v \<le> f (xs ! j)"
      proof (intro allI impI)
        fix j assume "mid \<le> j \<and> j < length xs"
        then have "f (xs ! mid) \<le> f (xs ! j)" using mono [of mid j] by simp
        then show "v \<le> f (xs ! j)" using not_less by simp
      qed
      then show ?thesis using 1(2) [OF True mid_def not_less 1(3) _ m(1) 1(6)] not_less m True 1(4)
        by (simp add: sorted_index.simps [of f xs v low] mid_def [symmetric] Let_def)
    qed
  next
    case False
    then have "sorted_index f xs v low high = low" "high = low" using 1(5) by (simp_all add: sorted_index.simps)
    then show ?thesis using 1(4,6,7) by (metis linorder_not_less)
  qed
qed

text \<open>
  \<open>_.sortedIndex\<close> finds the place of a value in an array sorted by a key: the entries with a
  smaller key are exactly those before it, and an array into which the value is inserted there is sorted.
\<close>

theorem sortedIndex_place:
  assumes "sorted (map f xs)"
  shows "sortedIndex f xs x \<le> length xs \<and> (\<forall>j<length xs. f (xs ! j) < f x \<longleftrightarrow> j < sortedIndex f xs x) \<and>
    sorted (map f (take (sortedIndex f xs x) xs @ x # drop (sortedIndex f xs x) xs))"
proof -
  define i where "i = sortedIndex f xs x"
  have b: "i \<le> length xs" "\<forall>j<length xs. f (xs ! j) < f x \<longleftrightarrow> j < i"
  proof -
    have "sorted_index f xs (f x) 0 (length xs) \<le> length xs \<and> (\<forall>j<length xs. f (xs ! j) < f x \<longleftrightarrow> j < sorted_index f xs (f x) 0 (length xs))"
      by (rule sorted_index_bounds [OF assms]) auto
    then show "i \<le> length xs" "\<forall>j<length xs. f (xs ! j) < f x \<longleftrightarrow> j < i" by (simp_all add: i_def sortedIndex_def)
  qed
  have "f y < f x" if y: "y \<in> set (take i xs)" for y using y b by (auto simp: in_set_conv_nth)
  moreover have "f x \<le> f y" if y: "y \<in> set (drop i xs)" for y
  proof -
    obtain k where "k < length (drop i xs)" "y = xs ! (i + k)" using y by (auto simp: in_set_conv_nth)
    then show ?thesis using b(2) [rule_format, of "i + k"] by (simp add: linorder_not_less)
  qed
  ultimately have "sorted (map f (take i xs @ x # drop i xs))"
    using sorted_wrt_take [OF assms, of i] sorted_wrt_drop [OF assms, of i]
    by (auto simp: sorted_append take_map drop_map dest!: less_imp_le intro: order_trans)
  then show ?thesis using b by (simp add: i_def)
qed

lemma sortedIndex_place_witness: "sortedIndex id [1, 3, 5 :: int] 4 = 2"
proof -
  note p = sortedIndex_place [of id "[1, 3, 5 :: int]" 4]
  have "sorted (map id [1, 3, 5 :: int])" by simp
  note p = p [OF this, THEN conjunct2, THEN conjunct1, rule_format]
  have "1 < sortedIndex id [1, 3, 5 :: int] 4" "\<not> 2 < sortedIndex id [1, 3, 5 :: int] 4" using p [of 1] p [of 2] by simp_all
  then show ?thesis by simp
qed

lemma index_from_spec: "index_from k xs x = (if x \<in> set xs then int k + int (LEAST j. j < length xs \<and> xs ! j = x) else - 1)"
proof (induction xs arbitrary: k)
  case (Cons y ys)
  show ?case
  proof (cases "y = x")
    case True
    then have "(LEAST j. j < length (y # ys) \<and> (y # ys) ! j = x) = 0" by (intro Least_equality) auto
    then show ?thesis using True by simp
  next
    case False
    have "(LEAST j. j < length (y # ys) \<and> (y # ys) ! j = x) = Suc (LEAST j. j < length ys \<and> ys ! j = x)" if "x \<in> set ys"
    proof -
      obtain j where "j < length ys" "ys ! j = x" using \<open>x \<in> set ys\<close> by (auto simp: in_set_conv_nth)
      then show ?thesis using False Least_Suc [of "\<lambda>j. j < length (y # ys) \<and> (y # ys) ! j = x" "Suc j"] by simp
    qed
    then show ?thesis using False Cons.IH by simp
  qed
qed simp

text \<open>
  The binary search of \<open>_.indexOf\<close> in a sorted array finds what the linear search finds: the
  first place of the value, or none.
\<close>

theorem indexOf_sorted:
  assumes "sorted xs"
  shows "indexOf xs x True = indexOf xs x False"
proof -
  define i where "i = sortedIndex id xs x"
  have b: "i \<le> length xs" "\<And>j. j < length xs \<Longrightarrow> xs ! j < x \<longleftrightarrow> j < i"
    using sortedIndex_place [of id xs x] assms by (auto simp: i_def)
  show ?thesis
  proof (cases "i < length xs \<and> xs ! i = x")
    case True
    have "(LEAST j. j < length xs \<and> xs ! j = x) = i"
      by (rule Least_equality) (use True b(2) in \<open>auto simp: linorder_not_less [symmetric]\<close>)
    moreover have "x \<in> set xs" using True nth_mem by blast
    ultimately show ?thesis using True by (simp add: indexOf_def index_from_spec i_def [symmetric] Let_def)
  next
    case False
    have "x \<notin> set xs"
    proof
      assume "x \<in> set xs"
      then obtain j where j: "j < length xs" "xs ! j = x" by (auto simp: in_set_conv_nth)
      then have "i \<le> j" using b(2) by (metis linorder_not_less order_less_irrefl)
      then have "xs ! i \<le> x" "i < length xs" using assms j by (auto simp: sorted_iff_nth_mono)
      moreover have "\<not> xs ! i < x" using b(2) \<open>i < length xs\<close> by blast
      ultimately show False using False by simp
    qed
    then show ?thesis using False by (auto simp: indexOf_def index_from_spec i_def [symmetric] Let_def)
  qed
qed

lemma indexOf_sorted_witness: "indexOf [1, 3, 3, 5 :: int] 3 True = 1"
  using indexOf_sorted [of "[1, 3, 3, 5 :: int]" 3] by (simp add: indexOf_def)

text \<open>Duplicates: a sorted array needs only its last seen value.\<close>

lemma uniq_steps:
  "sorted (seen @ map fst ps) \<Longrightarrow> foldl (uniq_step True) (seen, rs) ps = foldl (uniq_step False) (seen, rs) ps"
proof (induction ps arbitrary: seen rs)
  case (Cons p ps)
  have "last seen = fst p \<longleftrightarrow> fst p \<in> set seen" if "seen \<noteq> []"
  proof
    assume "fst p \<in> set seen"
    moreover have "\<forall>v\<in>set seen. v \<le> last seen"
      using that Cons.prems by (induction seen rule: rev_induct) (auto simp: sorted_append)
    moreover have "last seen \<le> fst p" using Cons.prems last_in_set [OF that] by (auto simp: sorted_append)
    ultimately show "last seen = fst p" by force
  qed (use that last_in_set in force)
  then have "uniq_step True (seen, rs) p = uniq_step False (seen, rs) p" 
    by (cases "seen = []"; cases p) (simp_all add: uniq_step_def)
  moreover obtain t us where u: "uniq_step False (seen, rs) p = (t, us)" by fastforce
  then have "t = seen \<or> t = seen @ [fst p]" by (auto simp: uniq_step_def Let_def split: prod.splits if_splits)
  then have "sorted (t @ map fst ps)" using Cons.prems by (elim disjE) (force simp: sorted_append)+
  ultimately show ?case using Cons.IH [of t us] u by simp
qed simp

text \<open>
  \<open>_.uniq\<close> of a sorted array that is known to be sorted looks only at the last value seen, and
  gives what it gives when it looks at all.
\<close>

theorem uniq_sorted: "sorted (map f xs) \<Longrightarrow> uniq True f xs = uniq False f xs"
  by (simp add: uniq_def uniq_steps)

subsection \<open>Escaped markup\<close>

lemma entity_at_plain: "map_of escape_map c = None \<Longrightarrow> entity_at (c # s) = None"
  by (auto simp: entity_at_def escape_map_def split: if_splits)

text \<open>Escaping markup loses nothing.\<close>

theorem unescape_escape: "unescape_html (escape_html s) = s"
proof (induction s)
  case (Cons c s)
  show ?case
  proof (cases "map_of escape_map c")
    case None
    then show ?thesis using Cons entity_at_plain [OF None] by (simp add: escape_html_def)
  next
    case (Some e)
    then have "entity_at (e @ t) = Some (c, e)" "e \<noteq> []" for t by (auto simp: entity_at_def escape_map_def split: if_splits)
    then show ?thesis using Cons Some by (cases e) (auto simp: escape_html_def)
  qed
qed (simp add: escape_html_def)

lemma uniq_sorted_witness: "uniq True id [1, 1, 2 :: int] = [1, 2]"
  using uniq_sorted [of id "[1, 1, 2 :: int]"] by (simp add: uniq_def uniq_step_def)

text \<open>\<open>_.range\<close>: the numbers from the start in steps, as long as they are before the end.\<close>

theorem range_before_stop:
  assumes "0 < step"
  shows "set (range_list start stop step) = {k. start \<le> k \<and> k < stop \<and> step dvd k - start} \<and> sorted (range_list start stop step)"
proof
  define n where "n = - ((start - stop) div step)"
  have n: "i < n \<longleftrightarrow> start + i * step < stop" for i
  proof -
    have "i < n \<longleftrightarrow> (start - stop) div step < - i" by (auto simp: n_def)
    also have "\<dots> \<longleftrightarrow> start - stop < - i * step" 
    proof
      assume "(start - stop) div step < - i"
      then have "((start - stop) div step + 1) * step \<le> - i * step" using assms by (intro mult_right_mono) simp_all
      moreover have "start - stop < ((start - stop) div step + 1) * step"
        using div_mult_mod_eq [of "start - stop" step] pos_mod_bound [OF assms, of "start - stop"]
        unfolding distrib_right by linarith
      ultimately show "start - stop < - i * step" by simp
    next
      assume "start - stop < - i * step"
      then show "(start - stop) div step < - i"
        using assms zdiv_mono1 [of "start - stop" "- i * step - 1" step] by (smt (verit) nonzero_mult_div_cancel_right div_mult_mod_eq mult_less_cancel_right pos_mod_sign)
    qed
    also have "\<dots> \<longleftrightarrow> start + i * step < stop" by auto
    finally show ?thesis .
  qed
  have l: "range_list start stop step = map (\<lambda>i. start + int i * step) [0..<nat n]"
    using assms by (simp add: range_list_def n_def Let_def max_def)
  show "set (range_list start stop step) = {k. start \<le> k \<and> k < stop \<and> step dvd k - start}"
  proof (intro set_eqI iffI)
    fix k assume "k \<in> set (range_list start stop step)"
    then have "k \<in> (\<lambda>i. start + int i * step) ` {..<nat n}" by (simp add: l atLeast0LessThan)
    then obtain i where "k = start + int i * step" "i < nat n" by (elim imageE) (simp only: lessThan_iff)
    then show "k \<in> {k. start \<le> k \<and> k < stop \<and> step dvd k - start}" using n [of "int i"] assms zless_nat_conj [of i n] by (simp add: zless_nat_eq_int_zless)
  next
    fix k assume "k \<in> {k. start \<le> k \<and> k < stop \<and> step dvd k - start}"
    then obtain j where j: "k = start + step * j" "start \<le> k" "k < stop" by (auto simp: dvd_def algebra_simps)
    then have "0 \<le> j" using assms by (simp add: zero_le_mult_iff)
    then have "j = int (nat j)" "nat j < nat n" using j n [of j] by (simp_all add: mult.commute nat_less_eq_zless)
    then have "k = start + int (nat j) * step" "nat j < nat n" using j(1) by (simp_all add: mult.commute)
    then have "k \<in> (\<lambda>i. start + int i * step) ` {..<nat n}" by (intro image_eqI [of _ _ "nat j"]) (simp_all only: lessThan_iff)
    then show "k \<in> set (range_list start stop step)" by (simp add: l atLeast0LessThan)
  qed
  show "sorted (range_list start stop step)"
    unfolding l sorted_map using assms by (auto simp: sorted_wrt_iff_nth_less mult_right_mono)
qed

lemma range_before_stop_witness: "range_list 1 10 3 = [1, 4, 7]"
proof -
  have "set (range_list 1 10 3) = {k. 1 \<le> k \<and> k < 10 \<and> 3 dvd k - 1}" using range_before_stop [of 3 1 10] by simp
  then show ?thesis by (simp add: range_list_def upt_rec)
qed

end
