(* ===== verification/FilterText.thy ===== *)
theory FilterText
  imports QueryCtrl BaseData
begin

text \<open>
  The text of the simple filter (\<open>updateDownloadUrl\<close> in \<open>js/app-ctrl.js\<close>) as a small language:
  clauses separated by \<open>&\<close>, each a name, an equals sign and values separated by commas. The
  code encodes the values that a user types and pastes the country and type values of the
  tables as they are. A reader that splits and decodes gets back what the user picked.
\<close>

subsection \<open>Reading a filter\<close>

definition read_clause :: "string \<Rightarrow> string \<times> string option list" where
  "read_clause c = (takeWhile (\<lambda>x. x \<noteq> CHR ''='') c,
     map decode_component (split_on (CHR '','') (drop 1 (dropWhile (\<lambda>x. x \<noteq> CHR ''='') c))))"

definition read_filter :: "string \<Rightarrow> (string \<times> string option list) list" where
  "read_filter s = map (read_clause \<circ> trim) (split_on (CHR ''&'') s)"

text \<open>The clauses the user means: a name, whether its values are pasted as they are, and the values.\<close>

definition clause_table :: "search_params \<Rightarrow> (string \<times> bool \<times> string list) list" where
  "clause_table p = [
     (''s.type'', True, if sourceType p \<in> {''SAT'', ''LIVE''} then [sourceType p] else []),
     (''s.bs'', False, sourceBs p),
     (''s.country'', True, sourceCountries p),
     (''s.region'', False, sourceRegions p),
     (''t.country'', True, targetCountries p),
     (''t.imo'', False, targetImos p),
     (''t.name'', False, targetNames p),
     (''t.cs'', False, targetCallsigns p),
     (''t.type'', True, targetTypes p),
     (''t.navstat'', False, targetNavstats p),
     (''m.country'', True, messageCountries p),
     (''m.mmsi'', False, messageMmsi p),
     (''m.imo'', False, messageImos p),
     (''m.name'', False, messageNames p),
     (''m.cs'', False, messageCallsigns p),
     (''m.type'', True, messageTypes p),
     (''m.navstat'', False, messageNavstats p)]"

definition meant_clauses :: "search_params \<Rightarrow> (string \<times> string list) list" where
  "meant_clauses p = filter (\<lambda>c. snd c \<noteq> []) (map (\<lambda>(k, _, vs). (k, vs)) (clause_table p))"

definition coded :: "string \<times> bool \<times> string list \<Rightarrow> string \<times> string list" where
  "coded t = (case t of (k, raw, vs) \<Rightarrow> (k, if raw then vs else map encodeURIComponent vs))"

lemma filter_clauses_coded: "filter_clauses p = filter (\<lambda>c. snd c \<noteq> []) (map coded (clause_table p))"
  by (simp add: filter_clauses_def clause_table_def coded_def del: filter.simps)

text \<open>The values that are pasted as they are need no encoding.\<close>

definition raw_values :: "search_params \<Rightarrow> string list" where
  "raw_values p = sourceCountries p @ targetCountries p @ targetTypes p @ messageCountries p @ messageTypes p"

subsection \<open>Splitting\<close>

lemma trim_pad:
  assumes "t \<noteq> []" "\<forall>c\<in>set t. \<not> is_ws c" "\<forall>c\<in>set a. is_ws c" "\<forall>c\<in>set b. is_ws c"
  shows "trim (a @ t @ b) = t"
proof -
  have d: "dropWhile is_ws (xs @ ys) = ys" if "\<forall>c\<in>set xs. is_ws c" "ys \<noteq> []" "\<not> is_ws (hd ys)" for xs ys
    using that by (induction xs) (auto simp: neq_Nil_conv)
  have 1: "dropWhile is_ws (a @ t @ b) = t @ b" using assms by (intro d) auto
  have 2: "dropWhile is_ws (rev b @ rev t) = rev t" using assms by (intro d) (auto simp: hd_rev)
  show ?thesis using 2 by (simp add: trim_def trim_start_def 1)
qed

definition tight :: "string \<Rightarrow> bool" where
  "tight s \<longleftrightarrow> s \<noteq> [] \<and> (\<forall>c\<in>set s. \<not> is_ws c \<and> c \<noteq> CHR ''&'')"

lemma is_ws_space [simp]: "is_ws (CHR '' '')"
  by code_simp

lemma split_clauses:
  assumes "ss \<noteq> []" "\<forall>s\<in>set ss. tight s" "w \<in> {[], '' ''}"
  shows "map trim (split_on (CHR ''&'') (w @ join '' & '' ss)) = ss"
  using assms
proof (induction "'' & ''" ss arbitrary: w rule: join.induct)
  case (2 s)
  then have w: "\<forall>c\<in>set w. is_ws c" "CHR ''&'' \<notin> set w" by auto
  have s: "s \<noteq> []" "\<forall>c\<in>set s. \<not> is_ws c" "CHR ''&'' \<notin> set s" using 2(2) by (auto simp: tight_def)
  have "split_on (CHR ''&'') (w @ s) = [w @ s]" using w(2) s(3) by (intro split_on_no_sep) simp
  with trim_pad [OF s(1,2) w(1), of "[]"] show ?case by simp
next
  case (3 s t ss)
  then have w: "\<forall>c\<in>set w. is_ws c" "CHR ''&'' \<notin> set w" by auto
  have s: "s \<noteq> []" "\<forall>c\<in>set s. \<not> is_ws c" "CHR ''&'' \<notin> set s" using 3(3) by (auto simp: tight_def)
  have n: "CHR ''&'' \<notin> set (w @ s @ '' '')" using w(2) s(3) by simp
  have e: "w @ join '' & '' (s # t # ss) = (w @ s @ '' '') @ CHR ''&'' # ('' '' @ join '' & '' (t # ss))" by simp
  have "map trim (split_on (CHR ''&'') ('' '' @ join '' & '' (t # ss))) = t # ss"
    by (rule 3(1)) (use 3(3) in auto)
  moreover have "trim (w @ s @ '' '') = s" by (rule trim_pad [OF s(1,2) w(1)]) simp
  ultimately show ?case unfolding e split_on_append [OF n] by simp
qed simp

text \<open>A value in a clause: its characters need no encoding, or are those of an encoding.\<close>

definition clean :: "string \<Rightarrow> bool" where
  "clean v \<longleftrightarrow> (\<forall>c\<in>set v. unreserved c \<or> c = CHR ''%'')"

lemma clean_encode [simp]: "clean (encodeURIComponent v)"
  using encode_safe by (auto simp: clean_def)

lemma clean_word: "filter_word v \<Longrightarrow> clean v"
  by (simp add: filter_word_def clean_def)

lemma unreserved_not_ws: "unreserved c \<Longrightarrow> \<not> is_ws c"
  by (auto simp: unreserved_def is_ws_def is_digit_def Let_def)

lemma clean_char: "clean v \<Longrightarrow> c \<in> set v \<Longrightarrow> \<not> is_ws c \<and> c \<noteq> CHR ''&'' \<and> c \<noteq> CHR '',''"
proof -
  assume "clean v" "c \<in> set v"
  then have "unreserved c \<or> c = CHR ''%''" by (simp add: clean_def)
  moreover have "\<not> unreserved (CHR '','')" "\<not> is_ws (CHR ''%'')" by code_simp+
  ultimately show ?thesis using unreserved_not_ws by auto
qed

definition good_clause :: "string \<times> string list \<Rightarrow> bool" where
  "good_clause c \<longleftrightarrow> snd c \<noteq> [] \<and> (\<forall>x\<in>set (fst c). \<not> is_ws x \<and> x \<noteq> CHR ''&'' \<and> x \<noteq> CHR ''='') \<and> (\<forall>v\<in>set (snd c). clean v)"

lemma tight_clause: "good_clause c \<Longrightarrow> tight (clause_text c)"
proof -
  assume g: "good_clause c"
  have w: "\<not> is_ws (CHR ''='')" "\<not> is_ws (CHR '','')" by code_simp+
  have "\<not> is_ws x \<and> x \<noteq> CHR ''&''" if "x \<in> set (join '','' (snd c))" for x
  proof -
    have "x = CHR '','' \<or> (\<exists>v\<in>set (snd c). x \<in> set v)" using that set_join [of "'',''" "snd c"] by auto
    with g clean_char [of _ x] w(2) show ?thesis by (auto simp: good_clause_def)
  qed
  with g w show ?thesis by (auto simp: tight_def clause_text_def good_clause_def)
qed

lemma read_clause_text: "good_clause c \<Longrightarrow> read_clause (clause_text c) = (fst c, map decode_component (snd c))"
proof -
  assume g: "good_clause c"
  have e: "clause_text c = fst c @ CHR ''='' # join '','' (snd c)" by (simp add: clause_text_def)
  have s: "\<forall>x\<in>set (fst c). x \<noteq> CHR ''=''" using g by (simp add: good_clause_def)
  have t: "takeWhile (\<lambda>x. x \<noteq> CHR ''='') (clause_text c) = fst c"
    unfolding e by (rule takeWhile_append_stop [OF s]) simp
  have d: "dropWhile (\<lambda>x. x \<noteq> CHR ''='') (clause_text c) = CHR ''='' # join '','' (snd c)"
    unfolding e by (rule dropWhile_append_stop [OF s]) simp
  have "split_on (CHR '','') (join '','' (snd c)) = snd c"
    using g clean_char by (intro split_on_join) (auto simp: good_clause_def)
  then show ?thesis unfolding read_clause_def t d by simp
qed

lemma read_filter_join:
  assumes "cs \<noteq> []" "\<forall>c\<in>set cs. good_clause c"
  shows "read_filter (join '' & '' (map clause_text cs)) = map (\<lambda>c. (fst c, map decode_component (snd c))) cs"
proof -
  have "map trim (split_on (CHR ''&'') ([] @ join '' & '' (map clause_text cs))) = map clause_text cs"
    using assms tight_clause by (intro split_clauses) auto
  then have "read_filter (join '' & '' (map clause_text cs)) = map read_clause (map clause_text cs)"
    unfolding read_filter_def by (simp only: map_map [symmetric] append.simps)
  with assms(2) read_clause_text show ?thesis by simp
qed

subsection \<open>The filter of a search\<close>

lemma clause_names: "(k, r, vs) \<in> set (clause_table p) \<Longrightarrow> \<forall>x\<in>set k. \<not> is_ws x \<and> x \<noteq> CHR ''&'' \<and> x \<noteq> CHR ''=''"
proof -
  assume "(k, r, vs) \<in> set (clause_table p)"
  then have "k \<in> set (map fst (clause_table p))" by force
  also have "map fst (clause_table p) = map fst (clause_table (clearParams sample_moment NaN NaN))"
    by (simp add: clause_table_def)
  finally have k: "k \<in> set (map fst (clause_table (clearParams sample_moment NaN NaN)))" .
  have "list_all (list_all (\<lambda>x. \<not> is_ws x \<and> x \<noteq> CHR ''&'' \<and> x \<noteq> CHR ''='')) (map fst (clause_table (clearParams sample_moment NaN NaN)))"
    unfolding clause_table_def list.map fst_conv by code_simp
  with k show ?thesis by (auto simp: list_all_iff)
qed

lemma type_words: "filter_word ''SAT''" "filter_word ''LIVE''"
  by code_simp+

lemma clause_raw_values:
  "(k, True, vs) \<in> set (clause_table p) \<Longrightarrow> v \<in> set vs \<Longrightarrow> v \<in> set (raw_values p) \<or> v \<in> {''SAT'', ''LIVE''}"
proof -
  assume "(k, True, vs) \<in> set (clause_table p)" "v \<in> set vs"
  then have "v \<in> set (concat (map (snd \<circ> snd) (filter (fst \<circ> snd) (clause_table p))))" by force
  also have "concat (map (snd \<circ> snd) (filter (fst \<circ> snd) (clause_table p))) =
      (if sourceType p \<in> {''SAT'', ''LIVE''} then [sourceType p] else []) @ raw_values p"
    by (simp add: clause_table_def raw_values_def)
  finally show ?thesis by (auto split: if_splits)
qed

lemma word_value: "filter_word v \<Longrightarrow> decode_component v = Some v"
proof (rule decode_plain)
  assume "filter_word v"
  then have "\<forall>c\<in>set v. unreserved c" by (simp add: filter_word_def)
  moreover have "\<not> unreserved (CHR ''%'')" "\<not> unreserved (CHR ''&'')" by simp_all
  ultimately show "plain v" using unreserved_ascii by (auto simp: plain_def)
qed

lemma coded_clause:
  assumes "\<forall>v\<in>set (raw_values p). filter_word v" "t \<in> set (clause_table p)" "snd (snd t) \<noteq> []"
  shows "good_clause (coded t)"
    and "map decode_component (snd (coded t)) = map Some (snd (snd t))"
proof -
  obtain k r vs where t: "t = (k, r, vs)" by (cases t)
  have raw: "\<forall>v\<in>set vs. filter_word v" if r
    using that assms clause_raw_values [of k vs p] type_words unfolding t by auto
  show "good_clause (coded t)"
    using raw assms(3) clause_names [OF assms(2) [unfolded t]] clean_word by (auto simp: good_clause_def coded_def t)
  show "map decode_component (snd (coded t)) = map Some (snd (snd t))"
    using raw word_value by (simp add: coded_def t)
qed

lemma snd_coded [simp]: "snd (coded t) = [] \<longleftrightarrow> snd (snd t) = []" "fst (coded t) = fst t"
  by (simp_all add: coded_def split: prod.split)

lemma filter_text_read:
  assumes "\<forall>v\<in>set (raw_values p). filter_word v" "filter_clauses p \<noteq> []"
  shows "read_filter (filter_text p) = map (\<lambda>(k, vs). (k, map Some vs)) (meant_clauses p)"
proof -
  define ts where "ts = filter (\<lambda>t. snd (snd t) \<noteq> []) (clause_table p)"
  have fc: "filter_clauses p = map coded ts"
    by (simp add: filter_clauses_coded filter_map comp_def ts_def)
  have mc: "meant_clauses p = map (\<lambda>t. (fst t, snd (snd t))) ts"
    by (simp add: meant_clauses_def filter_map comp_def ts_def case_prod_unfold)
  have ts: "t \<in> set (clause_table p)" "snd (snd t) \<noteq> []" if "t \<in> set ts" for t
    using that by (simp_all add: ts_def)
  have "read_filter (filter_text p) = map (\<lambda>c. (fst c, map decode_component (snd c))) (map coded ts)"
    unfolding filter_text_def fc using assms(2) coded_clause(1) [OF assms(1) ts]
    by (intro read_filter_join) (auto simp: fc)
  also have "\<dots> = map (\<lambda>t. (fst t, map Some (snd (snd t)))) ts"
    using coded_clause(2) [OF assms(1) ts] by (simp add: comp_def)
  finally show ?thesis by (simp add: mc comp_def)
qed

lemma meant_clauses_empty: "meant_clauses p = [] \<longleftrightarrow> filter_clauses p = []"
  by (simp add: meant_clauses_def filter_clauses_coded filter_map comp_def case_prod_unfold filter_empty_conv)

text \<open>
  A filter is not ambiguous: splitting the text of the simple filter into clauses and
  values and decoding the values gives exactly the picked values, for every facet that has
  any and in the order of the code, whatever characters the typed values have, when the
  country and type values are words.
\<close>

theorem filter_text_read_back:
  assumes "\<forall>v\<in>set (raw_values p). filter_word v" "simple_filter p \<noteq> []"
  shows "read_filter (drop 3 (simple_filter p)) = map (\<lambda>(k, vs). (k, map Some vs)) (meant_clauses p)"
  using filter_text_read [OF assms(1)] assms(2) by (simp add: filter_clauses_empty filter_text_eq)

lemma filter_text_read_back_witness:
  "read_filter (drop 3 (simple_filter ((clearParams sample_moment NaN NaN)\<lparr>targetNames := [''A & B'', ''t=1,2''], targetCountries := [''DNK'', ''SWE'']\<rparr>))) =
     [(''t.country'', [Some ''DNK'', Some ''SWE'']), (''t.name'', [Some ''A & B'', Some ''t=1,2''])]"
proof -
  let ?p = "(clearParams sample_moment NaN NaN)\<lparr>targetNames := [''A & B'', ''t=1,2''], targetCountries := [''DNK'', ''SWE'']\<rparr>"
  have "raw_values ?p = [''DNK'', ''SWE'']" by (simp add: raw_values_def clearParams_def)
  moreover have "list_all filter_word [''DNK'', ''SWE'']" by code_simp
  ultimately have "\<forall>v\<in>set (raw_values ?p). filter_word v" by (simp only: list_all_iff)
  moreover have m: "meant_clauses ?p = [(''t.country'', [''DNK'', ''SWE'']), (''t.name'', [''A & B'', ''t=1,2''])]"
    by (simp add: meant_clauses_def clause_table_def clearParams_def)
  moreover have "simple_filter ?p \<noteq> []" using m by (simp add: filter_clauses_empty flip: meant_clauses_empty)
  ultimately show ?thesis using filter_text_read_back [of ?p] by simp
qed

subsection \<open>Values picked from the tables\<close>

text \<open>The tables behind the values that the callbacks \<open>valueMatches\<close> of the boxes offer.\<close>

definition offered :: "value_table \<Rightarrow> choice list" where
  "offered t = (case t of SourceTypes \<Rightarrow> sourceTypes | CountryList \<Rightarrow> countryList
     | ShipTypes \<Rightarrow> shipTypes | NavstatValues \<Rightarrow> navstatValues)"

text \<open>The values of a box come from the tables, where its facet has one.\<close>

definition picked :: "(string \<Rightarrow> value_table option) \<Rightarrow> search_box \<Rightarrow> bool" where
  "picked tables b \<longleftrightarrow> (\<forall>f\<in>set (box_facets b). \<forall>(k, v)\<in>set f.
     (case tables k of None \<Rightarrow> True | Some t \<Rightarrow> v \<in> set (values_of (offered t))))"

lemma offered_words: "v \<in> set (values_of (offered t)) \<Longrightarrow> filter_word v"
  using country_values_alpha3 alpha3_word other_values_words by (cases t) (auto simp: offered_def)

lemma facet_value_member: "facet_value f k = Some v \<Longrightarrow> (k, v) \<in> set f"
  by (auto simp: facet_value_def map_of_SomeD split: option.splits if_splits)

lemma chosen_value: "chosen ks f = Some (k, v) \<Longrightarrow> facet_value f k = Some v"
  by (induction ks) (auto split: option.splits)

lemma collected_member: "v \<in> set (collected ks fs k) \<Longrightarrow> \<exists>f\<in>set fs. (k, v) \<in> set f"
  using chosen_value facet_value_member by (fastforce simp: collected_def)

lemma picked_words: "picked tables b \<Longrightarrow> tables k = Some t \<Longrightarrow> v \<in> set (collected ks (box_facets b) k) \<Longrightarrow> filter_word v"
  using collected_member [of v ks "box_facets b" k] offered_words [of v t] by (force simp: picked_def)

lemma picked_raw_values:
  assumes "picked source_values (sourceFilter s)" "picked target_values (targetFilter s)" "picked message_values (messageFilter s)"
  shows "\<forall>v\<in>set (raw_values (params (recomputeDownloadUrl M s))). filter_word v"
proof -
  define p where "p = params (recomputeDownloadUrl M s)"
  have parts: "source_part p = source_of_box (sourceFilter s)" "target_part p = target_of_box (targetFilter s)"
    "message_part p = message_of_box (messageFilter s)"
    by (simp_all add: p_def recomputeDownloadUrl_def updateDownloadUrl_def Let_def part_message part_target part_source
        message_frame [of source_part] message_frame [of target_part] target_frame [of source_part])
  have c: "sourceCountries p = collected source_facets (box_facets (sourceFilter s)) ''country''"
    "targetCountries p = collected target_facets (box_facets (targetFilter s)) ''country''"
    "targetTypes p = collected target_facets (box_facets (targetFilter s)) ''type''"
    "messageCountries p = collected message_facets (box_facets (messageFilter s)) ''country''"
    "messageTypes p = collected message_facets (box_facets (messageFilter s)) ''type''"
    using parts by (simp_all add: source_part_def source_of_box_def target_part_def target_of_box_def message_part_def
        message_of_box_def target_facets_def message_facets_def)
  have t: "source_values ''country'' = Some CountryList" "target_values ''country'' = Some CountryList"
    "target_values ''type'' = Some ShipTypes" "message_values ''country'' = Some CountryList" "message_values ''type'' = Some ShipTypes"
    by (simp_all add: source_values_def target_values_def message_values_def)
  show ?thesis
    unfolding p_def [symmetric] raw_values_def c set_append ball_Un
    using picked_words [OF assms(1) t(1)] picked_words [OF assms(2) t(2)] picked_words [OF assms(2) t(3)]
      picked_words [OF assms(3) t(4)] picked_words [OF assms(3) t(5)] by blast
qed

lemma filter_item_iff: "(''filter'', t) \<in> set (request M p) \<longleftrightarrow> (''filter'', t) \<in> set (filter_items p)"
proof -
  have "fst i \<noteq> ''filter''" if "i \<in> set (mmsi_items p)" for i
    using that by (auto simp: mmsi_items_def split: option.splits)
  moreover have "fst i \<noteq> ''filter''" if "i \<in> set (box_items p)" for i
    using that by (simp add: box_items_def split: if_splits)
  moreover have "fst i \<noteq> ''filter''" if "i \<in> set (output_items p)" for i
    using that by (auto simp: output_items_def split: if_splits)
  moreover have "fst i \<noteq> ''filter''" if "i \<in> set (sampling_items p)" for i
    using that by (auto simp: sampling_items_def number_item_def split: if_splits)
  ultimately show ?thesis by (force simp: request_def)
qed

lemma filterType_recompute [simp]: "filterType (params (recomputeDownloadUrl M s)) = filterType (params s)"
proof -
  have "filterType (no_source p) = filterType p" "filterType (no_target p) = filterType p"
    "filterType (no_message p) = filterType p" for p
    by (simp_all add: no_source_def no_target_def no_message_def)
  then show ?thesis
    by (simp add: recomputeDownloadUrl_def updateDownloadUrl_def message_frame [of filterType]
        target_frame [of filterType] source_frame [of filterType])
qed

text \<open>
  C3. What the user picked is what the server filters by. When the country, type and
  navigation status facets of the three boxes hold values of the offered tables and the
  simple filter is on, the query text sent has a \<open>filter\<close> parameter exactly if something was
  picked, and that parameter, decoded, split and decoded, is the list of picked values.
\<close>

theorem picked_filter_received:
  assumes "moment_laws M" "raw_fields_plain (params s)" "simple (filterType (params s))"
    "picked source_values (sourceFilter s)" "picked target_values (targetFilter s)" "picked message_values (messageFilter s)"
  shows "let s' = recomputeDownloadUrl M s; cs = meant_clauses (params s'); qs = query_params (downloadUrl s') in
     if cs = [] then \<forall>t. (''filter'', t) \<notin> set qs
     else (\<exists>t. (''filter'', Some t) \<in> set qs \<and> read_filter t = map (\<lambda>(k, vs). (k, map Some vs)) cs) \<and>
          (\<forall>t u. (''filter'', t) \<in> set qs \<longrightarrow> (''filter'', u) \<in> set qs \<longrightarrow> t = u)"
proof -
  define p where "p = params (recomputeDownloadUrl M s)"
  have qs: "query_params (downloadUrl (recomputeDownloadUrl M s)) = map (\<lambda>(k, v). (k, Some v)) (request M p)"
    using download_url_query [OF assms(1), of p] assms(2) raw_fields_recompute by (simp add: p_def)
  have items: "filter_items p = (if filter_clauses p = [] then [] else [(''filter'', filter_text p)])"
    using assms(3) by (simp add: filter_items_def p_def)
  have f: "(''filter'', t) \<in> set (query_params (downloadUrl (recomputeDownloadUrl M s))) \<longleftrightarrow>
      filter_clauses p \<noteq> [] \<and> t = Some (filter_text p)" for t
  proof -
    have "(''filter'', t) \<in> set (query_params (downloadUrl (recomputeDownloadUrl M s))) \<longleftrightarrow>
        (\<exists>v. t = Some v \<and> (''filter'', v) \<in> set (request M p))"
      unfolding qs set_map by force
    then show ?thesis by (auto simp: filter_item_iff items)
  qed
  show ?thesis
    using filter_text_read [OF picked_raw_values [OF assms(4-6), of M], folded p_def]
    unfolding Let_def f p_def [symmetric] meant_clauses_empty by simp
qed

definition picked_box :: search_box where
  "picked_box = \<lparr>query_facets = [\<lparr>category = ''country'', facet_text = ''DNK''\<rparr>, \<lparr>category = ''name'', facet_text = ''A & B''\<rparr>],
     input_values = [[], [], []]\<rparr>"

definition picked_scope :: query_scope where
  "picked_scope = sample_scope\<lparr>targetFilter := picked_box\<rparr>"

lemma picked_filter_received_witness:
  "\<exists>t. (''filter'', Some t) \<in> set (query_params (downloadUrl (recomputeDownloadUrl sample_moment picked_scope))) \<and>
     read_filter t = [(''t.country'', [Some ''DNK'']), (''t.name'', [Some ''A & B''])]"
proof -
  have p: "params picked_scope = clearParams sample_moment (Fin 0) (Fin 0)"
    "box_facets (sourceFilter picked_scope) = []" "box_facets (messageFilter picked_scope) = []"
    "box_facets (targetFilter picked_scope) = [[(''country'', ''DNK'')], [(''name'', ''A & B'')]]"
    by (simp_all add: picked_scope_def sample_scope_def init_scope_def box_facets_def picked_box_def empty_box_def)
  have "raw_fields_plain (params picked_scope)" "simple (filterType (params picked_scope))"
    by (simp_all add: p clearParams_def raw_fields_plain_def)
  moreover have "''DNK'' \<in> set (values_of countryList)" by code_simp
  then have "picked target_values (targetFilter picked_scope)" "picked source_values (sourceFilter picked_scope)"
    "picked message_values (messageFilter picked_scope)"
    by (simp_all add: p picked_def target_values_def offered_def)
  moreover have "meant_clauses (params (recomputeDownloadUrl sample_moment picked_scope)) = [(''t.country'', [''DNK'']), (''t.name'', [''A & B''])]"
    by (simp add: recomputeDownloadUrl_def updateDownloadUrl_def updateSourceFilter_def updateTargetFilter_def updateMessageFilter_def
        p Let_def target_facet_def facet_value_def meant_clauses_def clause_table_def clearParams_def)
  ultimately show ?thesis
    using picked_filter_received [OF moment_laws_sample, of picked_scope] by (simp add: Let_def)
qed

end
