(* ===== verification/AreaMap.thy ===== *)
theory AreaMap
  imports QueryCtrl "HOL-Library.Sublist"
begin

text \<open>
  \<open>js/app-directives.js\<close>, the directive \<open>aisMap\<close>: a map that shows the area of the search as
  a box and lets the user draw one. The map library is a parameter: \<open>to_merc\<close> and
  \<open>from_merc\<close> are its two projections (\<open>to_merc\<close> may throw, which is \<open>None\<close>), the vertices of
  a drawn shape are those it reports. Adding a shape to the layer raises the event
  \<open>featureadded\<close> at once. A digest checks the two watches in the order in which the code
  registers them, runs the listeners of the values that changed, and starts over until
  nothing has changed; after ten rounds it gives up.
\<close>

subsection \<open>State\<close>

type_synonym point = "jsnum \<times> jsnum"

record area_map =
  map_area :: area
  boxActive :: bool
  quiescent :: bool
  control_active :: bool
  features :: "point list list"
  seen_active :: "bool option"
  seen_area :: "area option"

text \<open>The state after linking: no digest has run, the watches have seen nothing.\<close>

definition link_map :: "area \<Rightarrow> area_map" where
  "link_map a = \<lparr>map_area = a, boxActive = False, quiescent = False, control_active = False,
     features = [], seen_active = None, seen_area = None\<rparr>"

subsection \<open>Feature events\<close>

definition map_max :: "jsnum \<Rightarrow> jsnum option \<Rightarrow> jsnum" where
  "map_max m1 m2 = (case m2 of None \<Rightarrow> m1 | Some v \<Rightarrow> math_max m1 v)"

definition map_min :: "jsnum \<Rightarrow> jsnum option \<Rightarrow> jsnum" where
  "map_min m1 m2 = (case m2 of None \<Rightarrow> m1 | Some v \<Rightarrow> math_min m1 v)"

definition read_vertex :: "(point \<Rightarrow> point) \<Rightarrow> area \<Rightarrow> point \<Rightarrow> area" where
  "read_vertex from_merc a v =
     (let pt = from_merc v;
          a = a\<lparr>maxLon := Some (map_max (fst pt) (maxLon a))\<rparr>;
          a = a\<lparr>maxLat := Some (map_max (snd pt) (maxLat a))\<rparr>;
          a = a\<lparr>minLon := Some (map_min (fst pt) (minLon a))\<rparr>
      in a\<lparr>minLat := Some (map_min (snd pt) (minLat a))\<rparr>)"

text \<open>The digest that \<open>readFeatureGeometry\<close> starts outside of a digest is in \<open>draw\<close> below.\<close>

definition readFeatureGeometry :: "(point \<Rightarrow> point) \<Rightarrow> point list \<Rightarrow> area_map \<Rightarrow> area_map" where
  "readFeatureGeometry from_merc vertices s =
     (if quiescent s then s else s\<lparr>map_area := foldl (read_vertex from_merc) (map_area s) vertices\<rparr>)"

definition removeArea :: "area_map \<Rightarrow> area_map" where
  "removeArea s = s\<lparr>map_area := (map_area s)\<lparr>maxLat := None, maxLon := None, minLat := None, minLon := None\<rparr>\<rparr>"

subsection \<open>Watches\<close>

definition active_listener :: "area_map \<Rightarrow> area_map" where
  "active_listener s = (if boxActive s then s\<lparr>control_active := True\<rparr> else s\<lparr>control_active := False\<rparr>)"

definition corners :: "area \<Rightarrow> point list" where
  "corners a = [(the (minLon a), the (minLat a)), (the (minLon a), the (maxLat a)),
     (the (maxLon a), the (maxLat a)), (the (maxLon a), the (minLat a))]"

definition all_edges :: "area \<Rightarrow> bool" where
  "all_edges a \<longleftrightarrow> truthy (maxLat a) \<and> truthy (maxLon a) \<and> truthy (minLat a) \<and> truthy (minLon a)"

text \<open>The shape the listener of the area adds to the layer; none when a projection throws.\<close>

definition box_shape :: "(point \<Rightarrow> point option) \<Rightarrow> area \<Rightarrow> point list option" where
  "box_shape to_merc a = (if all_edges a then those (map to_merc (corners a)) else None)"

definition feature_added :: "(point \<Rightarrow> point) \<Rightarrow> point list \<Rightarrow> area_map \<Rightarrow> area_map" where
  "feature_added from_merc vertices s = (readFeatureGeometry from_merc vertices s)\<lparr>boxActive := False\<rparr>"

definition area_listener :: "(point \<Rightarrow> point option) \<Rightarrow> (point \<Rightarrow> point) \<Rightarrow> area_map \<Rightarrow> area_map" where
  "area_listener to_merc from_merc s =
     (let s = s\<lparr>features := []\<rparr>;
          s = s\<lparr>quiescent := True\<rparr>;
          s = (case box_shape to_merc (map_area s) of
                 None \<Rightarrow> s
               | Some ps \<Rightarrow> feature_added from_merc ps (s\<lparr>features := features s @ [ps]\<rparr>))
      in s\<lparr>quiescent := False\<rparr>)"

text \<open>The comparison of the deep watch: \<open>NaN\<close> equals itself, and the zeros are equal.\<close>

definition same_num :: "jsnum option \<Rightarrow> jsnum option \<Rightarrow> bool" where
  "same_num x y \<longleftrightarrow> x = y \<or> (\<exists>u v. x = Some u \<and> y = Some v \<and> is_zero u \<and> is_zero v)"

definition same_area :: "area \<Rightarrow> area \<Rightarrow> bool" where
  "same_area a b \<longleftrightarrow> same_num (maxLat a) (maxLat b) \<and> same_num (maxLon a) (maxLon b) \<and>
     same_num (minLat a) (minLat b) \<and> same_num (minLon a) (minLon b)"

definition active_dirty :: "area_map \<Rightarrow> bool" where
  "active_dirty s \<longleftrightarrow> seen_active s \<noteq> Some (boxActive s)"

definition area_dirty :: "area_map \<Rightarrow> bool" where
  "area_dirty s \<longleftrightarrow> (case seen_area s of None \<Rightarrow> True | Some a \<Rightarrow> \<not> same_area (map_area s) a)"

definition check_active :: "area_map \<Rightarrow> area_map" where
  "check_active s = (if active_dirty s then active_listener (s\<lparr>seen_active := Some (boxActive s)\<rparr>) else s)"

definition check_area :: "(point \<Rightarrow> point option) \<Rightarrow> (point \<Rightarrow> point) \<Rightarrow> area_map \<Rightarrow> area_map" where
  "check_area tm fm s = (if area_dirty s then area_listener tm fm (s\<lparr>seen_area := Some (map_area s)\<rparr>) else s)"

fun digest :: "nat \<Rightarrow> (point \<Rightarrow> point option) \<Rightarrow> (point \<Rightarrow> point) \<Rightarrow> area_map \<Rightarrow> area_map option" where
  "digest 0 tm fm s = None"
| "digest (Suc n) tm fm s =
     (let s1 = check_active s; s2 = check_area tm fm s1
      in if active_dirty s \<or> area_dirty s1 then digest n tm fm s2 else Some s2)"

definition ttl :: nat where
  "ttl = 10"

subsection \<open>What the user does\<close>

text \<open>The user draws a shape: the library adds it to the layer and raises \<open>featureadded\<close>.\<close>

definition draw :: "(point \<Rightarrow> point option) \<Rightarrow> (point \<Rightarrow> point) \<Rightarrow> point list \<Rightarrow> area_map \<Rightarrow> area_map option" where
  "draw tm fm vertices s =
     (case digest ttl tm fm (readFeatureGeometry fm vertices (s\<lparr>features := features s @ [vertices]\<rparr>)) of
        None \<Rightarrow> None
      | Some s \<Rightarrow> Some (s\<lparr>boxActive := False\<rparr>))"

text \<open>The pencil button switches drawing on or off and removes the area.\<close>

definition pencil :: "(point \<Rightarrow> point option) \<Rightarrow> (point \<Rightarrow> point) \<Rightarrow> area_map \<Rightarrow> area_map option" where
  "pencil tm fm s = digest ttl tm fm (removeArea (s\<lparr>boxActive := \<not> boxActive s\<rparr>))"

inductive map_step :: "(point \<Rightarrow> point option) \<Rightarrow> (point \<Rightarrow> point) \<Rightarrow> area_map \<Rightarrow> area_map \<Rightarrow> bool"
  for tm :: "point \<Rightarrow> point option" and fm :: "point \<Rightarrow> point" where
  press: "pencil tm fm s = Some t \<Longrightarrow> map_step tm fm s t"
| drawn: "control_active s \<Longrightarrow> draw tm fm vs s = Some t \<Longrightarrow> map_step tm fm s t"
| edited: "digest ttl tm fm (s\<lparr>map_area := a\<rparr>) = Some t \<Longrightarrow> map_step tm fm s t"

inductive map_reachable :: "(point \<Rightarrow> point option) \<Rightarrow> (point \<Rightarrow> point) \<Rightarrow> area_map \<Rightarrow> bool"
  for tm :: "point \<Rightarrow> point option" and fm :: "point \<Rightarrow> point" where
  linked: "digest ttl tm fm (link_map a) = Some s \<Longrightarrow> map_reachable tm fm s"
| next_step: "map_reachable tm fm s \<Longrightarrow> map_step tm fm s t \<Longrightarrow> map_reachable tm fm t"

subsection \<open>The listeners do not feed back\<close>

definition shape :: "(point \<Rightarrow> point option) \<Rightarrow> area \<Rightarrow> point list list" where
  "shape tm a = (case box_shape tm a of None \<Rightarrow> [] | Some ps \<Rightarrow> [ps])"

lemma area_listener_eq:
  "area_listener tm fm s = s\<lparr>features := shape tm (map_area s), quiescent := False,
     boxActive := boxActive s \<and> shape tm (map_area s) = []\<rparr>"
  by (cases s) (simp add: area_listener_def feature_added_def readFeatureGeometry_def shape_def Let_def split: option.split)

lemma same_num_refl [simp]: "same_num x x"
  by (simp add: same_num_def)

lemma same_area_refl [simp]: "same_area a a"
  by (simp add: same_area_def)

lemma same_num_truthy: "same_num x y \<Longrightarrow> truthy x \<Longrightarrow> x = y"
  by (auto simp: same_num_def truthy_def num_truthy_def)

lemma same_num_sym: "same_num x y \<Longrightarrow> same_num y x"
  by (auto simp: same_num_def)

lemma same_area_edges: "same_area a b \<Longrightarrow> all_edges a \<or> all_edges b \<Longrightarrow> a = b"
  using same_num_truthy same_num_sym by (cases a; cases b) (auto simp: same_area_def all_edges_def; metis)

lemma same_area_shape: "same_area a b \<Longrightarrow> shape tm a = shape tm b"
  using same_area_edges [of a b] by (cases "all_edges a \<or> all_edges b") (auto simp: shape_def box_shape_def)

text \<open>What holds of the watches whenever no listener is running.\<close>

definition watches_ok :: "(point \<Rightarrow> point option) \<Rightarrow> area_map \<Rightarrow> bool" where
  "watches_ok tm s \<longleftrightarrow> \<not> quiescent s \<and> (\<forall>b. seen_active s = Some b \<longrightarrow> control_active s = b) \<and>
     (\<forall>a. seen_area s = Some a \<longrightarrow> prefix (shape tm a) (features s))"

lemma check_active_eq:
  "check_active s = (if active_dirty s then s\<lparr>seen_active := Some (boxActive s), control_active := boxActive s\<rparr> else s)"
  by (simp add: check_active_def active_listener_def)

lemma check_area_eq:
  "check_area tm fm s = (if area_dirty s then s\<lparr>seen_area := Some (map_area s), features := shape tm (map_area s),
     quiescent := False, boxActive := boxActive s \<and> shape tm (map_area s) = []\<rparr> else s)"
  by (simp add: check_area_def area_listener_eq)

lemma area_dirty_simps [simp]:
  "area_dirty (check_active s) = area_dirty s" "\<not> area_dirty (check_area tm fm s)"
  by (simp_all add: area_dirty_def check_active_eq check_area_eq split: option.split)

lemma active_clean [simp]: "\<not> active_dirty (check_active s)"
  by (simp add: active_dirty_def check_active_eq)

lemma check_clean: "\<not> active_dirty s \<Longrightarrow> check_active s = s" "\<not> area_dirty s \<Longrightarrow> check_area tm fm s = s"
  by (simp_all add: check_active_def check_area_def)

text \<open>Two rounds are enough to settle, and a third one finds nothing to do.\<close>

lemma digest_three:
  "digest (Suc (Suc (Suc n))) tm fm s = Some (check_active (check_area tm fm (check_active s)))"
proof -
  let ?s = "check_area tm fm (check_active s)"
  have "\<not> area_dirty ?s" "\<not> active_dirty (check_active ?s)" by simp_all
  then have "digest (Suc (Suc n)) tm fm ?s = Some (check_active ?s)"
    by (simp add: Let_def check_clean)
  moreover have "?s = s" if "\<not> active_dirty s" "\<not> area_dirty s" using that by (simp add: check_clean)
  ultimately show ?thesis by (auto simp: Let_def check_clean)
qed

lemma digest_ttl: "digest ttl tm fm s = Some (check_active (check_area tm fm (check_active s)))"
  using digest_three [of 7] by (simp add: ttl_def eval_nat_numeral)

lemma check_area_keeps [simp]: "map_area (check_active s) = map_area s" "map_area (check_area tm fm s) = map_area s"
  "features (check_active s) = features s" "seen_area (check_active s) = seen_area s" "quiescent (check_active s) = quiescent s"
  "boxActive (check_active s) = boxActive s" "seen_active (check_area tm fm s) = seen_active s"
  "control_active (check_area tm fm s) = control_active s"
  by (simp_all add: check_active_eq check_area_eq)

lemma watches_ok_active: "watches_ok tm s \<Longrightarrow> watches_ok tm (check_active s)"
  by (simp add: watches_ok_def check_active_eq)

lemma watches_ok_area: "watches_ok tm s \<Longrightarrow> watches_ok tm (check_area tm fm s)"
  by (simp add: watches_ok_def check_area_eq)

lemma control_settled: "watches_ok tm s \<Longrightarrow> control_active (check_active s) = boxActive s \<and> seen_active (check_active s) = Some (boxActive s)"
  by (auto simp: watches_ok_def check_active_eq active_dirty_def)

text \<open>
  C27. A digest of the map always settles, far below the limit of rounds: it returns a state
  with the same area, so the boxes that the map draws for itself are never read back as an
  area; drawing mode is on exactly when the button says so; if the area had changed, the
  layer shows its box and nothing else; and a second digest finds nothing to do.
\<close>

theorem map_digest_settles:
  assumes "watches_ok tm s"
  shows "\<exists>t. digest ttl tm fm s = Some t \<and> map_area t = map_area s \<and> watches_ok tm t \<and>
     control_active t = boxActive t \<and> (area_dirty s \<longrightarrow> features t = shape tm (map_area s)) \<and>
     digest ttl tm fm t = Some t"
proof -
  let ?u = "check_area tm fm (check_active s)" and ?t = "check_active (check_area tm fm (check_active s))"
  have u: "watches_ok tm ?u" using assms by (intro watches_ok_area watches_ok_active)
  have "digest ttl tm fm ?t = Some ?t" by (simp add: digest_ttl check_clean)
  moreover have "area_dirty s \<longrightarrow> features ?t = shape tm (map_area s)" by (simp add: check_area_eq)
  ultimately show ?thesis
    using control_settled [OF u] watches_ok_active [OF u] by (simp add: digest_ttl)
qed

lemma map_digest_settles_witness:
  "\<exists>t. digest ttl (\<lambda>p. Some p) id (link_map no_area) = Some t \<and> \<not> control_active t \<and> features t = []"
proof -
  have "watches_ok (\<lambda>p. Some p) (link_map no_area)" by (simp add: watches_ok_def link_map_def)
  moreover have "all_edges no_area = False" by (simp add: all_edges_def no_area_def truthy_def)
  moreover have "digest ttl (\<lambda>p. Some p) id (link_map no_area) = Some (check_active (check_area (\<lambda>p. Some p) id (check_active (link_map no_area))))"
    by (rule digest_ttl)
  ultimately show ?thesis using map_digest_settles [of "\<lambda>p. Some p" "link_map no_area" id]
    by (auto simp: area_dirty_def link_map_def shape_def box_shape_def check_active_eq check_area_eq active_dirty_def)
qed

subsection \<open>Drawing\<close>

lemma read_vertex_extend: "read_vertex fm a v = extend_area a (fm v)"
  by (cases a) (simp add: read_vertex_def extend_area_def Let_def map_max_def map_min_def max_opt_def min_opt_def)

lemma foldl_read_vertex: "foldl (read_vertex fm) a vs = foldl extend_area a (map fm vs)"
  by (induction vs arbitrary: a) (simp_all add: read_vertex_extend)

definition after_read :: "(point \<Rightarrow> point) \<Rightarrow> point list \<Rightarrow> area_map \<Rightarrow> area_map" where
  "after_read fm vs s = s\<lparr>features := features s @ [vs], map_area := foldl extend_area (map_area s) (map fm vs)\<rparr>"

lemma draw_eq:
  assumes "watches_ok tm s"
  shows "draw tm fm vs s = Some ((check_active (check_area tm fm (check_active (after_read fm vs s))))\<lparr>boxActive := False\<rparr>)"
proof -
  have "\<not> quiescent s" using assms by (simp add: watches_ok_def)
  then have "readFeatureGeometry fm vs (s\<lparr>features := features s @ [vs]\<rparr>) = after_read fm vs s"
    by (simp add: readFeatureGeometry_def after_read_def foldl_read_vertex)
  then show ?thesis by (simp add: draw_def digest_ttl)
qed

lemma after_read_ok: "watches_ok tm s \<Longrightarrow> watches_ok tm (after_read fm vs s)"
  by (simp add: watches_ok_def after_read_def)

text \<open>
  C33. A box that is drawn on the map gives the same area as the operation of the query page
  that computes the area of a list of coordinates, if the map showed no area before: the
  two pieces of code, written separately, agree.
\<close>

theorem drawing_equals_updateArea:
  assumes "watches_ok tm s" "map_area s = no_area"
  shows "map_option map_area (draw tm fm vs s) = Some (area (params (updateArea (Some (map fm vs)) q)))"
  using assms by (simp add: draw_eq after_read_def updateArea_def)

lemma drawing_equals_updateArea_witness:
  "map_option map_area (draw (\<lambda>p. Some p) id [(Fin 1, Fin 2), (Fin 3, Fin 5)] (link_map no_area)) =
     Some (area (params (updateArea (Some [(Fin 1, Fin 2), (Fin 3, Fin 5)]) sample_scope)))"
  using drawing_equals_updateArea [of "\<lambda>p. Some p" "link_map no_area" id "[(Fin 1, Fin 2), (Fin 3, Fin 5)]" sample_scope]
  by (simp add: watches_ok_def link_map_def no_area_def)

lemma edge_grows:
  assumes "edge e q" "\<forall>v\<in>set vs. is_finite v"
  shows "edge (foldl (\<lambda>m v. Some (max_opt v m)) e vs) (Max (insert q (valQ ` set vs)))"
    and "edge (foldl (\<lambda>m v. Some (min_opt v m)) e vs) (Min (insert q (valQ ` set vs)))"
proof -
  obtain m where m: "e = Some m" "is_finite m" "valQ m = q" using assms(1) by (auto simp: edge_def)
  show "edge (foldl (\<lambda>m v. Some (max_opt v m)) e vs) (Max (insert q (valQ ` set vs)))"
    using upper_edge.fold_from [OF m(2) assms(2)] Max.set_eq_fold [of q "map valQ vs"] m by (auto simp: edge_def max_opt_def)
  show "edge (foldl (\<lambda>m v. Some (min_opt v m)) e vs) (Min (insert q (valQ ` set vs)))"
    using lower_edge.fold_from [OF m(2) assms(2)] Min.set_eq_fold [of q "map valQ vs"] m by (auto simp: edge_def min_opt_def)
qed

text \<open>
  Drawing does not replace an area that is there, it extends it: each edge becomes the
  extreme of the old edge and of the vertices drawn.
\<close>

theorem drawing_extends_area:
  assumes "watches_ok tm s" "edge (maxLat (map_area s)) t" "edge (maxLon (map_area s)) r"
    "edge (minLat (map_area s)) b" "edge (minLon (map_area s)) l"
    "\<forall>v\<in>set vs. is_finite (fst (fm v)) \<and> is_finite (snd (fm v))"
  shows "\<exists>a. map_option map_area (draw tm fm vs s) = Some a \<and>
     edge (maxLat a) (Max (insert t ((\<lambda>v. valQ (snd (fm v))) ` set vs))) \<and>
     edge (maxLon a) (Max (insert r ((\<lambda>v. valQ (fst (fm v))) ` set vs))) \<and>
     edge (minLat a) (Min (insert b ((\<lambda>v. valQ (snd (fm v))) ` set vs))) \<and>
     edge (minLon a) (Min (insert l ((\<lambda>v. valQ (fst (fm v))) ` set vs)))"
proof -
  have f: "\<forall>v\<in>set (map (snd \<circ> fm) vs). is_finite v" "\<forall>v\<in>set (map (fst \<circ> fm) vs). is_finite v"
    using assms(6) by simp_all
  show ?thesis
    using edge_grows(1) [OF assms(2) f(1)] edge_grows(1) [OF assms(3) f(2)]
      edge_grows(2) [OF assms(4) f(1)] edge_grows(2) [OF assms(5) f(2)]
    by (simp add: draw_eq [OF assms(1)] after_read_def foldl_extend_area image_image)
qed

definition shown_area :: area where
  "shown_area = \<lparr>maxLat = Some (Fin 10), maxLon = Some (Fin 10), minLat = Some (Fin 5), minLon = Some (Fin 5)\<rparr>"

lemma drawing_extends_area_witness:
  "\<exists>a. map_option map_area (draw (\<lambda>p. Some p) id [(Fin 20, Fin 30)] (link_map shown_area)) = Some a \<and>
     edge (maxLat a) 30 \<and> edge (maxLon a) 20 \<and> edge (minLat a) 5 \<and> edge (minLon a) 5"
  using drawing_extends_area [of "\<lambda>p. Some p" "link_map shown_area" 10 10 5 5 "[(Fin 20, Fin 30)]" id]
  by (simp add: watches_ok_def link_map_def shown_area_def edge_def)

text \<open>
  Drawing mode ends with the drawing only if the map then redraws the area as a box: the
  handler clears the button after the digest it has started itself, so it is the redraw,
  inside that digest, that switches drawing off. When the drawn area has an edge that is
  zero (or has not changed) drawing stays on, although the button says it is off, until
  something else starts a digest.
\<close>

theorem drawing_mode_ends_iff:
  assumes "watches_ok tm s" "boxActive s" "seen_area s = Some (map_area s)"
  shows "\<exists>t. draw tm fm vs s = Some t \<and> \<not> boxActive t \<and>
     (\<not> control_active t \<longleftrightarrow> shape tm (map_area t) \<noteq> [] \<and> \<not> same_area (map_area t) (map_area s)) \<and>
     (\<exists>u. digest ttl tm fm t = Some u \<and> \<not> control_active u)"
proof -
  let ?r = "after_read fm vs s"
  let ?c = "check_area tm fm (check_active ?r)"
  let ?t = "(check_active ?c)\<lparr>boxActive := False\<rparr>"
  have ok: "watches_ok tm ?r" by (rule after_read_ok [OF assms(1)])
  have c: "watches_ok tm ?c" by (intro watches_ok_area watches_ok_active ok)
  have d: "area_dirty ?r \<longleftrightarrow> \<not> same_area (map_area ?r) (map_area s)"
    using assms(3) by (simp add: area_dirty_def after_read_def)
  have b: "boxActive ?c \<longleftrightarrow> \<not> (area_dirty ?r \<and> shape tm (map_area ?r) \<noteq> [])"
    using assms(2) by (simp add: check_area_eq after_read_def)
  have 1: "control_active (check_active ?c) = boxActive ?c" using control_settled [OF c] by simp
  have t: "watches_ok tm ?t" using watches_ok_active [OF c] by (simp add: watches_ok_def)
  have 2: "\<not> boxActive (check_area tm fm (check_active ?t))" by (simp add: check_area_eq)
  have 3: "\<not> control_active (check_active (check_area tm fm (check_active ?t)))"
    using control_settled [OF watches_ok_area [OF watches_ok_active [OF t]]] 2 by simp
  show ?thesis using 1 3 b d by (auto simp: draw_eq [OF assms(1)] digest_ttl)
qed

definition drawing_map :: area_map where
  "drawing_map = (link_map no_area)\<lparr>boxActive := True, control_active := True, seen_active := Some True, seen_area := Some no_area\<rparr>"

lemma drawing_map_ok: "watches_ok tm drawing_map"
  by (simp add: watches_ok_def drawing_map_def link_map_def shape_def box_shape_def all_edges_def no_area_def truthy_def)

lemma drawing_mode_ends_iff_witness:
  "\<exists>t. draw (\<lambda>p. Some p) id [(Fin 0, Fin 2), (Fin 3, Fin 5)] drawing_map = Some t \<and> \<not> boxActive t \<and> control_active t"
proof -
  have d: "boxActive drawing_map" "seen_area drawing_map = Some (map_area drawing_map)" "map_area drawing_map = no_area"
    by (simp_all add: drawing_map_def link_map_def)
  have "map_area t = extend_area (extend_area no_area (Fin 0, Fin 2)) (Fin 3, Fin 5)"
    if "draw (\<lambda>p. Some p) id [(Fin 0, Fin 2), (Fin 3, Fin 5)] drawing_map = Some t" for t
    using that d(3) by (auto simp: draw_eq [OF drawing_map_ok] after_read_def)
  then have "shape (\<lambda>p. Some p) (map_area t) = []"
    if "draw (\<lambda>p. Some p) id [(Fin 0, Fin 2), (Fin 3, Fin 5)] drawing_map = Some t" for t
    using that by (simp add: shape_def box_shape_def all_edges_def extend_area_def no_area_def truthy_def num_truthy_def
        max_opt_def min_opt_def math_min_def math_max_def)
  then show ?thesis
    using drawing_mode_ends_iff [OF drawing_map_ok d(1,2), of "\<lambda>p. Some p" id "[(Fin 0, Fin 2), (Fin 3, Fin 5)]"] by blast
qed

subsection \<open>The map in every state\<close>

definition map_inv :: "(point \<Rightarrow> point option) \<Rightarrow> area_map \<Rightarrow> bool" where
  "map_inv tm s \<longleftrightarrow> watches_ok tm s \<and> seen_active s = Some (control_active s) \<and> (boxActive s \<longrightarrow> control_active s) \<and>
     (\<exists>a. seen_area s = Some a \<and> same_area (map_area s) a)"

lemma digest_inv: "watches_ok tm s \<Longrightarrow> digest ttl tm fm s = Some t \<Longrightarrow> map_inv tm t"
proof -
  assume s: "watches_ok tm s" "digest ttl tm fm s = Some t"
  let ?u = "check_area tm fm (check_active s)"
  have t: "t = check_active ?u" using s(2) by (simp add: digest_ttl)
  have u: "watches_ok tm ?u" by (intro watches_ok_area watches_ok_active s(1))
  have "\<not> area_dirty t" by (simp add: t)
  then show ?thesis
    using control_settled [OF u] watches_ok_active [OF u] unfolding t
    by (auto simp: map_inv_def area_dirty_def split: option.splits)
qed

lemma ok_changes:
  "watches_ok tm s \<Longrightarrow> watches_ok tm (removeArea (s\<lparr>boxActive := b\<rparr>))"
  "watches_ok tm s \<Longrightarrow> watches_ok tm (s\<lparr>map_area := a\<rparr>)"
  "watches_ok tm s \<Longrightarrow> watches_ok tm (s\<lparr>boxActive := b\<rparr>)"
  by (simp_all add: watches_ok_def removeArea_def)

lemma map_step_inv:
  assumes "map_step tm fm s t" "map_inv tm s"
  shows "map_inv tm t"
proof -
  have ok: "watches_ok tm s" using assms(2) by (simp add: map_inv_def)
  from assms(1) show ?thesis
  proof cases
    case press
    then show ?thesis using digest_inv [OF ok_changes(1) [OF ok]] by (simp add: pencil_def)
  next
    case (drawn vs)
    let ?u = "check_active (check_area tm fm (check_active (after_read fm vs s)))"
    have "map_inv tm ?u" using digest_inv [OF after_read_ok [OF ok]] by (simp add: digest_ttl)
    then show ?thesis using drawn(2) by (auto simp: draw_eq [OF ok] map_inv_def watches_ok_def)
  next
    case (edited a)
    then show ?thesis using digest_inv ok_changes(2) [OF ok] by blast
  qed
qed

lemma map_reachable_inv: "map_reachable tm fm s \<Longrightarrow> map_inv tm s"
proof (induction rule: map_reachable.induct)
  case (linked a s)
  then show ?case by (intro digest_inv) (auto simp: watches_ok_def link_map_def)
next
  case (next_step s t)
  then show ?case using map_step_inv by blast
qed

text \<open>
  C28. However the map is used, whenever it is at rest it shows the box of its area (if all
  four edges are there and not zero), it listens to drawn boxes again, and drawing mode is
  on whenever the button says so.
\<close>

theorem map_shows_area:
  assumes "map_reachable tm fm s"
  shows "prefix (shape tm (map_area s)) (features s) \<and> \<not> quiescent s \<and> (boxActive s \<longrightarrow> control_active s)"
  using map_reachable_inv [OF assms] same_area_shape by (fastforce simp: map_inv_def watches_ok_def)

lemma map_shows_area_witness:
  "features (the (digest ttl (\<lambda>p. Some p) id (link_map shown_area))) \<noteq> []"
proof -
  let ?t = "the (digest ttl (\<lambda>p. Some p) id (link_map shown_area))"
  have d: "digest ttl (\<lambda>p. Some p) id (link_map shown_area) = Some ?t" by (simp add: digest_ttl)
  have "map_area ?t = shown_area" by (simp add: digest_ttl link_map_def)
  moreover have "shape (\<lambda>p. Some p) shown_area \<noteq> []"
    by (simp add: shape_def box_shape_def all_edges_def corners_def shown_area_def truthy_def num_truthy_def)
  ultimately show ?thesis using map_shows_area [OF map_reachable.linked [OF d]] by auto
qed

end
