(* ===== verification/Position.thy ===== *)
theory Position
  imports JsText "HOL-Library.Monad_Syntax"
begin

text \<open>
  \<open>js/position.js\<close>: unit conversion between nautical miles and kilometres, and the text
  form of a latitude or longitude (degrees, minutes with three decimals, hemisphere).
  A \<open>throw\<close> is \<open>Inl\<close>; \<open>undefined\<close> is \<open>None\<close> in \<open>nm2km\<close>, \<open>km2nm\<close> and \<open>m2nm\<close>;
  the formatting functions return \<open>None\<close> when their padding loop does not end.
\<close>

datatype js_error = FormatException

subsection \<open>Units\<close>

definition nm2km :: "jsnum option \<Rightarrow> jsnum option" where
  "nm2km nm = (case nm of None \<Rightarrow> None
     | Some v \<Rightarrow> if \<not> num_truthy v then None
                else Some (math_round (num_div (num_mul v (Fin 1852)) (Fin 1000))))"

definition km2nm :: "jsnum option \<Rightarrow> jsnum option" where
  "km2nm km = (case km of None \<Rightarrow> None
     | Some v \<Rightarrow> if \<not> num_truthy v then None
                else Some (math_round (num_div (num_mul v (Fin 1000)) (Fin 1852))))"

definition m2nm :: "jsnum option \<Rightarrow> jsnum option" where
  "m2nm m = (case m of None \<Rightarrow> None
     | Some v \<Rightarrow> if \<not> num_truthy v then None else Some (math_round (num_div v (Fin 1852))))"

subsection \<open>Formatting\<close>

text \<open>\<open>while (s.indexOf('.') < 2) s = "0" + s\<close>: it ends only when there is a point.\<close>

partial_function (option) pad_point :: "string \<Rightarrow> string option" where
  "pad_point s = (if index_of (CHR ''.'') s < 2 then pad_point (CHR ''0'' # s) else Some s)"

definition formatLongitude :: "jsnum \<Rightarrow> string option" where
  "formatLongitude longitude =
     (let (ns, lon) = (if num_lt longitude (Fin 0) then (''W'', num_mul longitude (Fin (- 1)))
                       else (''E'', longitude));
          hours = math_floor lon;
          minutes = num_mul (num_sub lon hours) (Fin 60)
      in do {
           lonStr \<leftarrow> pad_point (to_fixed 3 minutes);
           Some (drop 2 (to_fixed 3 (num_div hours (Fin 1000))) @ '' '' @ lonStr @ ns)
         })"

definition formatLatitude :: "jsnum \<Rightarrow> string option" where
  "formatLatitude latitude =
     (let (ns, lat) = (if num_lt latitude (Fin 0) then (''S'', num_mul latitude (Fin (- 1)))
                       else (''N'', latitude));
          hours = math_floor lat;
          minutes = num_mul (num_sub lat hours) (Fin 60)
      in do {
           latStr \<leftarrow> pad_point (to_fixed 3 minutes);
           Some (drop 2 (to_fixed 2 (num_div hours (Fin 100))) @ '' '' @ latStr @ ns)
         })"

record lonlat =
  lon :: jsnum
  lat :: jsnum

definition formatLonLat :: "lonlat \<Rightarrow> string option" where
  "formatLonLat lonlat = do {
     a \<leftarrow> formatLatitude (lat lonlat);
     b \<leftarrow> formatLongitude (lon lonlat);
     Some (a @ ''  '' @ b)
   }"

subsection \<open>Parsing\<close>

text \<open>The three parts of a position text: degrees, minutes, and its last character.\<close>

definition splitFormattedPos :: "string \<Rightarrow> js_error + string \<times> string \<times> string" where
  "splitFormattedPos posStr =
     (let p2 = drop (length posStr - 1) posStr;
          posParts = split_on (CHR '' '') (trim (take (length posStr - 1) posStr))
      in if length posParts \<noteq> 2 then Inl FormatException
         else Inr (posParts ! 0, posParts ! 1, p2))"

definition parseString :: "string \<Rightarrow> string option" where
  "parseString str = (let s = trim str in if length s = 0 then None else Some s)"

text \<open>\<open>parseInt\<close> and \<open>parseFloat\<close> return a number, never \<open>null\<close>: only the hemisphere can be missing.\<close>

definition parseLat :: "string \<Rightarrow> string \<Rightarrow> string \<Rightarrow> js_error + jsnum" where
  "parseLat hours minutes northSouth =
     (let h = parse_int10 hours; m = parse_float minutes
      in case parseString northSouth of
           None \<Rightarrow> Inl FormatException
         | Some s \<Rightarrow>
             (let ns = to_upper s
              in if ns \<noteq> ''N'' \<and> ns \<noteq> ''S'' then Inl FormatException
                 else let lat = num_add h (num_div m (Fin 60))
                      in Inr (if ns = ''S'' then num_mul lat (Fin (- 1)) else lat)))"

definition parseLon :: "string \<Rightarrow> string \<Rightarrow> string \<Rightarrow> js_error + jsnum" where
  "parseLon hours minutes eastWest =
     (let h = parse_int10 hours; m = parse_float minutes
      in case parseString eastWest of
           None \<Rightarrow> Inl FormatException
         | Some s \<Rightarrow>
             (let ew = to_upper s
              in if ew \<noteq> ''E'' \<and> ew \<noteq> ''W'' then Inl FormatException
                 else let lon = num_add h (num_div m (Fin 60))
                      in Inr (if ew = ''W'' then num_mul lon (Fin (- 1)) else lon)))"

text \<open>A text without a space is first tried as a plain number.\<close>

definition plain_number :: "string \<Rightarrow> jsnum option" where
  "plain_number value =
     (if index_of (CHR '' '') (trim value) < 0 then
        (let parsed = parse_float value
         in if num_eq parsed (to_number value) then Some parsed else None)
      else None)"

definition parseLatitude :: "string \<Rightarrow> js_error + jsnum" where
  "parseLatitude value =
     (case plain_number value of Some parsed \<Rightarrow> Inr parsed
      | None \<Rightarrow> (case splitFormattedPos value of Inl e \<Rightarrow> Inl e
                 | Inr (p0, p1, p2) \<Rightarrow> parseLat p0 p1 p2))"

definition parseLongitude :: "string \<Rightarrow> js_error + jsnum" where
  "parseLongitude value =
     (case plain_number value of Some parsed \<Rightarrow> Inr parsed
      | None \<Rightarrow> (case splitFormattedPos value of Inl e \<Rightarrow> Inl e
                 | Inr (p0, p1, p2) \<Rightarrow> parseLon p0 p1 p2))"

subsection \<open>The padding loop\<close>

lemma pad_point_done: "2 \<le> index_of (CHR ''.'') s \<Longrightarrow> pad_point s = Some s"
  by (subst pad_point.simps) simp

lemma pad_point_step: "index_of (CHR ''.'') s < 2 \<Longrightarrow> pad_point s = pad_point (CHR ''0'' # s)"
  by (subst pad_point.simps) simp

lemma pad_point_Some: "pad_point s = Some r \<Longrightarrow> \<exists>k. r = replicate k (CHR ''0'') @ s \<and> CHR ''.'' \<in> set r"
proof (rule pad_point.raw_induct [where P = "\<lambda>s r. \<exists>k. r = replicate k (CHR ''0'') @ s \<and> CHR ''.'' \<in> set r"])
  fix f :: "string \<Rightarrow> string option" and s r
  assume IH: "\<And>s r. f s = Some r \<Longrightarrow> \<exists>k. r = replicate k (CHR ''0'') @ s \<and> CHR ''.'' \<in> set r"
    and eq: "(if index_of (CHR ''.'') s < 2 then f (CHR ''0'' # s) else Some s) = Some r"
  show "\<exists>k. r = replicate k (CHR ''0'') @ s \<and> CHR ''.'' \<in> set r"
  proof (cases "index_of (CHR ''.'') s < 2")
    case True
    with eq obtain k where "r = replicate k (CHR ''0'') @ CHR ''0'' # s" "CHR ''.'' \<in> set r"
      using IH by fastforce
    then have "r = replicate (Suc k) (CHR ''0'') @ s \<and> CHR ''.'' \<in> set r"
      by (simp add: replicate_app_Cons_same)
    then show ?thesis by blast
  next
    case False
    with eq have "r = replicate 0 (CHR ''0'') @ s \<and> CHR ''.'' \<in> set r"
      using index_of_neg_iff [of "CHR ''.''" s] by auto
    then show ?thesis by blast
  qed
qed

lemma pad_point_no_point: "CHR ''.'' \<notin> set s \<Longrightarrow> pad_point s = None"
proof (rule ccontr)
  assume "CHR ''.'' \<notin> set s" "pad_point s \<noteq> None"
  then show False using pad_point_Some [of s] by fastforce
qed

lemma pad_point_returns:
  assumes "CHR ''.'' \<notin> set a"
  shows "pad_point (a @ CHR ''.'' # b) = Some (replicate (2 - length a) (CHR ''0'') @ a @ CHR ''.'' # b)"
proof -
  have i: "index_of (CHR ''.'') (x @ CHR ''.'' # b) = int (length x)" if "CHR ''.'' \<notin> set x" for x
    using that index_of_append [of "CHR ''.''" x b] by simp
  consider "length a = 0" | "length a = 1" | "2 \<le> length a" by linarith
  then show ?thesis
  proof cases
    case 1
    then show ?thesis using i [of "[]"] i [of "''0''"] i [of "''00''"]
      by (simp add: pad_point_step pad_point_done numeral_2_eq_2)
  next
    case 2
    then show ?thesis using assms i [of a] i [of "CHR ''0'' # a"]
      by (simp add: pad_point_step pad_point_done)
  next
    case 3
    then show ?thesis using assms i [of a] by (simp add: pad_point_done)
  qed
qed

subsection \<open>Degrees and thousandths of a minute\<close>

definition thousandths :: "rat \<Rightarrow> nat" where
  "thousandths a = nat \<lfloor>rnd ((a - of_int \<lfloor>a\<rfloor>) * 60) * 1000 + 1/2\<rfloor>"

text \<open>The text of \<open>h\<close> degrees (on \<open>w\<close> digits), \<open>n\<close> thousandths of a minute and a hemisphere.\<close>

definition coord_text :: "nat \<Rightarrow> nat \<Rightarrow> nat \<Rightarrow> char \<Rightarrow> string" where
  "coord_text w h n c = zpad w h @ '' '' @ (zpad 2 (n div 1000) @ ''.'' @ zpad 3 n) @ [c]"

text \<open>The number the parser computes from them.\<close>

definition coord_value :: "nat \<Rightarrow> nat \<Rightarrow> rat" where
  "coord_value h n = rnd (of_nat h + rnd (rnd (of_nat n / 1000) / 60))"

lemma rnd_close: "\<bar>q\<bar> \<le> b \<Longrightarrow> 1 \<le> b \<Longrightarrow> \<bar>rnd q - q\<bar> \<le> b / 4503599627370496"
proof -
  assume b: "\<bar>q\<bar> \<le> b" "1 \<le> b"
  have "(2 :: rat) powi (- 1075) \<le> 2 powi (- 53)" by (rule powi2_mono) simp
  also have "\<dots> = 1 / 2 ^ 53" by (simp add: power_int_minus_divide)
  also have "\<dots> \<le> b / 2 ^ 53" using b(2) by (intro divide_right_mono) simp_all
  finally have "\<bar>rnd q - q\<bar> \<le> b / 2 ^ 53 + b / 2 ^ 53"
    using b64.error_le [OF b(1)] by simp
  also have "\<dots> = b / 4503599627370496" by simp
  finally show ?thesis .
qed

lemma thousandths_close:
  assumes "0 \<le> a"
  shows "\<bar>of_nat (thousandths a) / 1000 - (a - of_int \<lfloor>a\<rfloor>) * 60\<bar> \<le> 1/2000 + 60 / 4503599627370496"
    and "thousandths a \<le> 60000"
proof -
  define f where "f = a - of_int \<lfloor>a\<rfloor>"
  have f: "0 \<le> f" "f < 1" using floor_bounds [of a] by (simp_all add: f_def)
  define p where "p = rnd (f * 60)"
  have p: "\<bar>p - f * 60\<bar> \<le> 60 / 4503599627370496" using f unfolding p_def by (intro rnd_close) auto
  have "representable 60" using representable_of_int [of 60] by simp
  then have p60: "p \<le> 60" "0 \<le> p" unfolding p_def using f b64.rd_le [of "f * 60" 60] b64.rd_ge [of 0 "f * 60"]
    by simp_all
  define n where "n = \<lfloor>p * 1000 + 1/2\<rfloor>"
  have n: "of_int n \<le> p * 1000 + 1/2" "p * 1000 + 1/2 < of_int n + 1" "0 \<le> n"
    using floor_bounds [of "p * 1000 + 1/2"] p60(2) by (simp_all add: n_def)
  have t: "thousandths a = nat n" by (simp add: thousandths_def n_def p_def f_def)
  then have r: "(of_nat (thousandths a) :: rat) = of_int n" using n(3) by simp
  show "\<bar>of_nat (thousandths a) / 1000 - (a - of_int \<lfloor>a\<rfloor>) * 60\<bar> \<le> 1/2000 + 60 / 4503599627370496"
    using n p unfolding r f_def [symmetric] by linarith
  have "(of_int n :: rat) < of_int 60001" using n(1) p60(1) by simp
  then have "n < 60001" by (simp only: of_int_less_iff)
  then show "thousandths a \<le> 60000" using t by simp
qed

lemma coord_value_close:
  assumes "h < 1000" "n \<le> 60000"
  shows "\<bar>coord_value h n - (of_nat h + of_nat n / 60000)\<bar> \<le> 1066 / 4503599627370496"
proof -
  have n: "(of_nat n :: rat) \<le> 60000" "(of_nat h :: rat) \<le> 1000" "0 \<le> (of_nat n :: rat)"
    using assms of_nat_mono [of n 60000, where 'a = rat] of_nat_mono [of h 1000, where 'a = rat] by simp_all
  define v where "v = rnd (of_nat n / 1000)"
  define q where "q = rnd (v / 60)"
  have v: "\<bar>v - of_nat n / 1000\<bar> \<le> 60 / 4503599627370496" unfolding v_def
    using n by (intro rnd_close) simp_all
  then have v': "\<bar>v\<bar> \<le> 61" using n by linarith
  then have q: "\<bar>q - v / 60\<bar> \<le> 2 / 4503599627370496" unfolding q_def by (intro rnd_close) simp_all
  with v' have q': "\<bar>q\<bar> \<le> 2" by linarith
  with n have "\<bar>rnd (of_nat h + q) - (of_nat h + q)\<bar> \<le> 1002 / 4503599627370496"
    by (intro rnd_close) (simp_all add: abs_le_iff)
  moreover have "coord_value h n = rnd (of_nat h + q)" by (simp add: coord_value_def q_def v_def)
  ultimately show ?thesis using v q by linarith
qed

lemma coord_value_representable: "representable (coord_value h n)"
  by (simp add: coord_value_def rnd_representable)

lemma coord_value_floor:
  assumes "h < 1000" "n < 60000"
  shows "\<lfloor>coord_value h n\<rfloor> = int h"
proof (rule floor_unique)
  have r: "representable (of_int (int h))" using assms by (intro representable_of_int) simp
  have "0 \<le> rnd (of_nat n / 1000)" by (intro b64.rd_ge) simp_all
  then have "0 \<le> rnd (rnd (of_nat n / 1000) / 60)" by (intro b64.rd_ge) simp_all
  then show "of_int (int h) \<le> coord_value h n"
    unfolding coord_value_def using r by (intro b64.rd_ge) simp_all
  have "(of_nat n :: rat) \<le> 59999" using assms(2) of_nat_mono [of n 59999, where 'a = rat] by simp
  then show "coord_value h n < of_int (int h) + 1"
    using coord_value_close [OF assms(1) less_imp_le [OF assms(2)]] unfolding of_int_of_nat_eq by linarith
qed

text \<open>Reading a text and writing it again gives the same number of thousandths.\<close>

lemma thousandths_coord_value:
  assumes "h < 1000" "n < 60000"
  shows "thousandths (coord_value h n) = n"
proof -
  define f where "f = coord_value h n - of_int \<lfloor>coord_value h n\<rfloor>"
  have fl: "\<lfloor>coord_value h n\<rfloor> = int h" by (rule coord_value_floor [OF assms])
  have f01: "0 \<le> f" "f \<le> 1" using floor_bounds [of "coord_value h n"] by (simp_all add: f_def)
  have f: "\<bar>f - of_nat n / 60000\<bar> \<le> 1066 / 4503599627370496"
    using coord_value_close [of h n] assms by (simp add: f_def fl algebra_simps)
  define p where "p = rnd (f * 60)"
  have "\<bar>p - f * 60\<bar> \<le> 60 / 4503599627370496" unfolding p_def using f01 by (intro rnd_close) simp_all
  with f have "\<bar>p * 1000 - of_nat n\<bar> < 1/4" by linarith
  then have "of_int (int n) \<le> p * 1000 + 1/2" "p * 1000 + 1/2 < of_int (int n) + 1"
    unfolding of_int_of_nat_eq by linarith+
  then have "\<lfloor>p * 1000 + 1/2\<rfloor> = int n" by (rule floor_unique)
  then show ?thesis by (simp add: thousandths_def p_def f_def [symmetric])
qed

subsection \<open>The contract of a position text\<close>

text \<open>
  Latitude and longitude are written by two functions and read by two others. Both pairs
  keep the same contract: what is printed is the text of the degrees and thousandths of a
  minute of the value, and such a text is read as the number it stands for.
\<close>

locale coordinate_text =
  fixes fmt :: "jsnum \<Rightarrow> string option"
    and prs :: "string \<Rightarrow> js_error + jsnum"
    and w :: nat
    and pos neg :: char
  assumes width: "w \<le> 3"
    and hemispheres: "pos \<noteq> neg"
    and fmt_text: "wf_num x \<Longrightarrow> is_finite x \<Longrightarrow> \<bar>valQ x\<bar> < 10 ^ w \<Longrightarrow>
      fmt x = Some (coord_text w (nat \<lfloor>\<bar>valQ x\<bar>\<rfloor>) (thousandths \<bar>valQ x\<bar>) (if valQ x < 0 then neg else pos))"
    and prs_text: "h < 10 ^ w \<Longrightarrow> n \<le> 60000 \<Longrightarrow> c = pos \<or> c = neg \<Longrightarrow>
      \<exists>y. prs (coord_text w h n c) = Inr y \<and> wf_num y \<and> is_finite y \<and>
          valQ y = (if c = neg then - coord_value h n else coord_value h n)"
begin

lemma degrees_bound: "h < 10 ^ w \<Longrightarrow> h < 1000" for h :: nat
  using width power_increasing [of w 3 "10 :: nat"] by simp

lemma print_then_parse:
  assumes "wf_num x" "is_finite x" "\<bar>valQ x\<bar> < 10 ^ w"
  shows "\<exists>s y. fmt x = Some s \<and> prs s = Inr y \<and> is_finite y \<and> \<bar>valQ y - valQ x\<bar> \<le> 1 / 119999"
proof -
  define a where "a = \<bar>valQ x\<bar>"
  define h where "h = nat \<lfloor>a\<rfloor>"
  define n where "n = thousandths a"
  have a: "0 \<le> a" "a < 10 ^ w" using assms(3) by (simp_all add: a_def)
  then have f0: "0 \<le> \<lfloor>a\<rfloor>" by simp
  then have fl: "(of_int \<lfloor>a\<rfloor> :: rat) = of_nat h" by (simp add: h_def)
  have "of_nat h < (10 :: rat) ^ w" using floor_bounds [of a] a(2) unfolding fl by linarith
  then have "(of_nat h :: rat) < of_nat (10 ^ w)" by (simp only: of_nat_power of_nat_numeral)
  then have h: "h < 10 ^ w" by (simp only: of_nat_less_iff)
  have n: "n \<le> 60000" unfolding n_def by (rule thousandths_close(2) [OF a(1)])
  define c where "c = (if valQ x < 0 then neg else pos)"
  then have "c = pos \<or> c = neg" by simp
  then obtain y where y: "prs (coord_text w h n c) = Inr y" "is_finite y"
      "valQ y = (if c = neg then - coord_value h n else coord_value h n)"
    using prs_text [OF h n, of c] by blast
  have f: "fmt x = Some (coord_text w h n c)"
    using fmt_text [OF assms] by (simp only: a_def h_def n_def c_def)
  define t where "t = (of_nat n :: rat) / 60000"
  have "\<bar>of_nat n / 1000 - (a - of_nat h) * 60\<bar> \<le> 1/2000 + 60 / 4503599627370496"
    using thousandths_close(1) [OF a(1)] unfolding fl n_def .
  then have "\<bar>t - (a - of_nat h)\<bar> \<le> 1/120000 + 1 / 4503599627370496"
    unfolding t_def by (simp only: abs_le_iff) (auto simp: field_simps)
  moreover have "\<bar>coord_value h n - (of_nat h + t)\<bar> \<le> 1066 / 4503599627370496"
    unfolding t_def by (rule coord_value_close [OF degrees_bound [OF h] n])
  ultimately have "\<bar>coord_value h n - a\<bar> \<le> 1 / 119999" by linarith
  moreover have "\<bar>valQ y - valQ x\<bar> = \<bar>coord_value h n - a\<bar>"
    using hemispheres by (auto simp: y(3) a_def c_def)
  ultimately show ?thesis using f y by auto
qed

lemma parse_then_print:
  assumes "h < 10 ^ w" "n < 60000" "c = pos \<or> c = neg \<and> (0 < h \<or> 0 < n)"
  shows "\<exists>y. prs (coord_text w h n c) = Inr y \<and> fmt y = Some (coord_text w h n c)"
proof -
  let ?v = "coord_value h n"
  note h = degrees_bound [OF assms(1)]
  have fl: "\<lfloor>?v\<rfloor> = int h" by (rule coord_value_floor [OF h assms(2)])
  then have v0: "of_nat h \<le> ?v" "?v < of_nat h + 1" using floor_bounds [of ?v] by simp_all
  have "(of_nat (h + 1) :: rat) \<le> of_nat (10 ^ w)" using assms(1) by (simp only: of_nat_le_iff)
  then have vw: "\<bar>?v\<bar> < 10 ^ w" using v0 by simp
  have pos_v: "0 < ?v" if "0 < h \<or> 0 < n"
  proof (cases "0 < h")
    case True
    then have "(1 :: rat) \<le> of_nat h" by simp
    with v0 show ?thesis by linarith
  next
    case False
    with that have "(1 :: rat) \<le> of_nat n" by simp
    then show ?thesis
      using coord_value_close [OF h less_imp_le [OF assms(2)]] False
      unfolding not_gr_zero by (simp only: of_nat_0)
  qed
  obtain y where y: "prs (coord_text w h n c) = Inr y" "wf_num y" "is_finite y"
      "valQ y = (if c = neg then - ?v else ?v)"
    using prs_text [OF assms(1), of n c] assms(2,3) by auto
  have av: "\<bar>valQ y\<bar> = ?v" using v0 y(4) by simp
  have c: "(if valQ y < 0 then neg else pos) = c"
    using y(4) v0 pos_v assms(3) hemispheres by auto
  have "fmt y = Some (coord_text w h n c)"
    using fmt_text [OF y(2,3)] vw unfolding av c fl
    by (simp add: thousandths_coord_value [OF h assms(2)] abs_of_nonneg order_trans [OF _ v0(1)])
  with y show ?thesis by blast
qed

lemma printed_length: "wf_num x \<Longrightarrow> is_finite x \<Longrightarrow> \<bar>valQ x\<bar> < 10 ^ w \<Longrightarrow> map_option length (fmt x) = Some (w + 8)"
  by (simp add: fmt_text coord_text_def)

end

subsection \<open>The two instances\<close>

lemma negate:
  assumes "wf_num x" "is_finite x"
  shows "is_finite (num_mul x (Fin (- 1)))" "valQ (num_mul x (Fin (- 1))) = - valQ x"
    "wf_num (num_mul x (Fin (- 1)))"
proof -
  have r: "rnd (valQ x) = valQ x" using assms by (cases x) simp_all
  have "wf_num (Fin (- 1))" using pow_less_overflow [of 0] representable_of_int [of "- 1"] by (simp add: wf_Fin del: wf_num.simps)
  then show "wf_num (num_mul x (Fin (- 1)))" using assms by simp
  have "num_mul x (Fin (- 1)) = fround (\<not> is_neg x) (- valQ x)"
    using finite_not_special [OF assms(2)] by (simp add: num_mul_def Let_def)
  moreover have "- overflow < - valQ x" "- valQ x < overflow"
    using assms by (cases x; simp add: abs_less_iff)+
  ultimately show "is_finite (num_mul x (Fin (- 1)))" "valQ (num_mul x (Fin (- 1))) = - valQ x"
    by (auto simp: fround_def r Let_def zero_of_def split: if_splits)
qed

lemma thousand_small: "h < 1000 \<Longrightarrow> \<bar>of_nat h\<bar> \<le> (1000 :: rat)"
  by (simp add: of_nat_le_iff [of h 1000, where 'a = rat, simplified])

lemma small_pow: "q \<le> 1000000 \<Longrightarrow> q \<le> (2 :: rat) ^ 1023"
  using power_increasing [of 20 1023 "2 :: rat"] by simp

text \<open>The degrees: \<open>toFixed\<close> of the quotient, without its integer part and point.\<close>

lemma degrees_text:
  assumes "is_finite d" "valQ d = of_nat h" "h < 10 ^ w" "0 < w" "w \<le> 3"
  shows "drop 2 (to_fixed w (num_div d (Fin (10 ^ w)))) = zpad w h"
proof -
  define t where "t = (10 :: rat) ^ w"
  have t: "1 \<le> t" "t \<le> 1000" unfolding t_def using assms(5) power_increasing [of w 3 "10 :: rat"] by simp_all
  have "(of_nat h :: rat) < of_nat (10 ^ w)" using assms(3) by (simp only: of_nat_less_iff)
  then have ht: "of_nat h < t" by (simp add: t_def)
  then have q: "\<bar>of_nat h / t\<bar> \<le> 1" using t by simp
  have fin: "is_finite (num_div d (Fin t))" "valQ (num_div d (Fin t)) = rnd (of_nat h / t)"
    using num_div_finite [of d "Fin t"] assms(1,2) t q order_trans [OF q small_pow [of 1]] by simp_all
  define r where "r = rnd (of_nat h / t)"
  have "\<bar>r - of_nat h / t\<bar> \<le> 1 / 4503599627370496"
    unfolding r_def using rnd_close [OF q] by simp
  then have "\<bar>r - of_nat h / t\<bar> * t \<le> 1 / 4503599627370496 * t" using t(1) by (intro mult_right_mono) simp_all
  then have "\<bar>(r - of_nat h / t) * t\<bar> \<le> 1 / 4503599627370496 * t" using t(1) by (simp add: abs_mult)
  moreover have "(r - of_nat h / t) * t = r * t - of_nat h" using t(1) by (simp add: left_diff_distrib)
  ultimately have "\<bar>r * t - of_nat h\<bar> \<le> 1/4" using t(2) by linarith
  then have "of_int (int h) \<le> r * t + 1/2" "r * t + 1/2 < of_int (int h) + 1"
    unfolding of_int_of_nat_eq by linarith+
  then have n: "nat \<lfloor>r * t + 1/2\<rfloor> = h" by (metis floor_unique nat_int)
  have r0: "0 \<le> r" "r \<le> 1" unfolding r_def
    using q t representable_of_int [of 1] by (auto intro: b64.rd_ge b64.rd_le)
  then have "r < 10 ^ 21" by simp
  then have "to_fixed w (num_div d (Fin t)) = dec (h div 10 ^ w) @ ''.'' @ zpad w h"
    using to_fixed_finite [OF fin(1), of w] r0 assms(4) n unfolding fin(2) r_def [symmetric] t_def [symmetric] by simp
  then show ?thesis using assms(3) by (simp add: t_def dec_small)
qed

text \<open>The minutes of a nonnegative value, padded to two digits before the point.\<close>

lemma minutes_text:
  assumes "wf_num l" "is_finite l" "0 \<le> valQ l"
  shows "pad_point (to_fixed 3 (num_mul (num_sub l (math_floor l)) (Fin 60))) =
    Some (zpad 2 (thousandths (valQ l) div 1000) @ ''.'' @ zpad 3 (thousandths (valQ l)))"
proof -
  define a where "a = valQ l"
  define f where "f = a - of_int \<lfloor>a\<rfloor>"
  have f: "0 \<le> f" "f < 1" using floor_bounds [of a] by (simp_all add: f_def)
  have "representable a" using assms(1,2) by (cases l) (simp_all add: a_def rnd_fixed_iff)
  then have rf: "rnd f = f" using representable_frac [of a] assms(3) by (simp add: rnd_fixed_iff f_def a_def)
  define s where "s = num_sub l (math_floor l)"
  have s: "is_finite s" "valQ s = f"
    using num_sub_finite [of l "math_floor l"] assms(2) f rf small_pow [of f]
    by (simp_all add: s_def f_def a_def)
  define m where "m = num_mul s (Fin 60)"
  define p where "p = rnd (f * 60)"
  have m: "is_finite m" "valQ m = p"
    using num_mul_finite [of s "Fin 60"] s f small_pow [of "f * 60"] by (simp_all add: m_def p_def)
  have "representable 60" using representable_of_int [of 60] by simp
  then have p: "0 \<le> p" "p \<le> 60" unfolding p_def using f b64.rd_le [of "f * 60" 60] b64.rd_ge [of 0 "f * 60"]
    by simp_all
  define n where "n = thousandths a"
  have t: "n = nat \<lfloor>p * 10 ^ 3 + 1/2\<rfloor>" by (simp add: n_def thousandths_def p_def f_def)
  have "n \<le> 60000" unfolding n_def using assms(3) by (intro thousandths_close(2)) (simp add: a_def)
  then have n: "n div 1000 < 10 ^ 2" by simp
  have "to_fixed 3 m = dec (n div 1000) @ ''.'' @ zpad 3 n"
    using to_fixed_finite [OF m(1), of 3] p unfolding m(2) t by simp
  moreover have "CHR ''.'' \<notin> set (dec (n div 1000))"
    using dec_digits digit_not_special by blast
  ultimately have "pad_point (to_fixed 3 m) =
      Some (replicate (2 - length (dec (n div 1000))) (CHR ''0'') @ dec (n div 1000) @ ''.'' @ zpad 3 n)"
    by (simp add: pad_point_returns)
  also have "\<dots> = Some (zpad 2 (n div 1000) @ ''.'' @ zpad 3 n)"
    using zpad_dec [OF n] by (metis append_assoc zero_less_numeral)
  finally show ?thesis by (simp only: m_def s_def n_def a_def)
qed

lemma last_coord_text: "last (coord_text w h n c) = c" "coord_text w h n c \<noteq> []"
  by (simp_all add: coord_text_def)

lemma hd_zpad: "0 < w \<Longrightarrow> is_digit (hd (zpad w h @ s))"
proof -
  assume "0 < w"
  then have "zpad w h \<noteq> []" using length_zpad [of w h] by (metis length_0_conv less_irrefl)
  then show ?thesis using zpad_digits [of "hd (zpad w h)" w h] by simp
qed

lemma space_not_zpad [simp]: "CHR '' '' \<notin> set (zpad k m)"
  using zpad_digits [of "CHR '' ''"] by (auto simp: is_digit_def)

lemma plain_number_coord_text:
  assumes "0 < w" "\<not> is_ws c"
  shows "plain_number (coord_text w h n c) = None"
proof -
  have "\<not> is_ws (hd (coord_text w h n c))"
    using hd_zpad [OF assms(1)] by (auto simp: coord_text_def)
  then have "trim (coord_text w h n c) = coord_text w h n c"
    using assms(2) by (intro trim_id) (simp_all add: last_coord_text)
  then show ?thesis
    using index_of_append [of "CHR '' ''" "zpad w h"] by (simp add: plain_number_def coord_text_def)
qed

lemma split_coord_text:
  assumes "0 < w"
  shows "splitFormattedPos (coord_text w h n c) =
    Inr (zpad w h, zpad 2 (n div 1000) @ ''.'' @ zpad 3 n, [c])"
proof -
  let ?m = "zpad 2 (n div 1000) @ ''.'' @ zpad 3 n"
  let ?t = "zpad w h @ CHR '' '' # ?m"
  have parts: "take (length (coord_text w h n c) - 1) (coord_text w h n c) = ?t"
    "drop (length (coord_text w h n c) - 1) (coord_text w h n c) = [c]"
    by (simp_all add: coord_text_def)
  have "is_digit (hd ?t)" using hd_zpad [OF assms] .
  moreover have "is_digit (last ?t)"
    using zpad_digits [of "last (zpad 3 n)" 3 n] by (simp add: numeral_3_eq_3)
  ultimately have "trim ?t = ?t" by (intro trim_id) auto
  then have "split_on (CHR '' '') (trim ?t) = [zpad w h, ?m]"
    by (simp add: split_on_append split_on_no_sep)
  then show ?thesis unfolding splitFormattedPos_def parts Let_def by simp
qed

lemma coord_number:
  assumes "h < 10 ^ w" "0 < w" "w \<le> 3" "n \<le> 60000"
    and y: "y = num_add (parse_int10 (zpad w h)) (num_div (parse_float (zpad 2 (n div 1000) @ ''.'' @ zpad 3 n)) (Fin 60))"
  shows "is_finite y" and "valQ y = coord_value h n" and "wf_num y"
proof -
  have h: "h < 1000" using assms(1,3) power_increasing [of w 3 "10 :: nat"] by simp
  then have hr: "(of_nat h :: rat) \<le> 1000" using of_nat_mono [of h 1000, where 'a = rat] by simp
  have nr: "(of_nat n :: rat) \<le> 60000" using assms(4) of_nat_mono [of n 60000, where 'a = rat] by simp
  have ne: "zpad k m \<noteq> []" if "0 < k" for k m using length_zpad [of k m] that by force
  have i: "parse_int10 (zpad w h) = Fin (of_nat h)"
    using parse_int10_digits [of "zpad w h"] assms(1) ne [OF assms(2), of h] h zpad_digits [of _ w h] by simp
  have "n div 1000 < 100" using assms(4) by simp
  then have u: "undec (zpad 2 (n div 1000) @ zpad 3 n) = n"
    by (simp add: undec_append)
  define v where "v = rnd (of_nat n / 1000)"
  have f: "parse_float (zpad 2 (n div 1000) @ ''.'' @ zpad 3 n) = Fin v"
    using parse_float_fixed [of "zpad 2 (n div 1000)" "zpad 3 n"] ne [of 2] zpad_digits nr
      small_pow [of "(of_nat n :: rat) / 1000"] unfolding u by (simp add: v_def)
  have v: "0 \<le> v" "v \<le> 60"
    using nr representable_of_int [of 60] unfolding v_def by (auto intro!: b64.rd_ge b64.rd_le)
  define d where "d = num_div (Fin v) (Fin 60)"
  have d: "is_finite d" "valQ d = rnd (v / 60)" "wf_num d"
    using num_div_finite [of "Fin v" "Fin 60"] v small_pow [of "v / 60"]
    by (simp_all add: d_def num_div_def Let_def)
  have q: "0 \<le> rnd (v / 60)" "rnd (v / 60) \<le> 1"
    using v representable_of_int [of 1] by (auto intro!: b64.rd_ge b64.rd_le)
  have y': "y = num_add (Fin (of_nat h)) d" by (simp only: y i f d_def)
  have b: "\<bar>of_nat h + rnd (v / 60)\<bar> \<le> 2 ^ 1023"
    using q hr small_pow [of "of_nat h + rnd (v / 60)"] by simp
  show "is_finite y" "valQ y = coord_value h n"
    using num_add_finite [of "Fin (of_nat h)" d] b d(1,2) unfolding y' by (simp_all add: coord_value_def v_def)
  show "wf_num y" unfolding y' using finite_not_special [OF d(1)] by (simp add: num_add_def)
qed

subsection \<open>Latitude and longitude\<close>

lemma degrees_floor:
  fixes a :: rat
  assumes "0 \<le> a" "a < 10 ^ w"
  shows "of_int \<lfloor>a\<rfloor> = (of_nat (nat \<lfloor>a\<rfloor>) :: rat)" "nat \<lfloor>a\<rfloor> < 10 ^ w"
proof -
  show fl: "of_int \<lfloor>a\<rfloor> = (of_nat (nat \<lfloor>a\<rfloor>) :: rat)" using assms(1) by simp
  have "(of_nat (nat \<lfloor>a\<rfloor>) :: rat) < 10 ^ w" using floor_bounds [of a] assms(2) unfolding fl [symmetric] by linarith
  then have "(of_nat (nat \<lfloor>a\<rfloor>) :: rat) < of_nat (10 ^ w)" by (simp only: of_nat_power of_nat_numeral)
  then show "nat \<lfloor>a\<rfloor> < 10 ^ w" by (simp only: of_nat_less_iff)
qed

text \<open>The body the two formatting functions share, for the magnitude \<open>l\<close> of the value.\<close>

lemma coord_body:
  assumes "wf_num l" "is_finite l" "0 \<le> valQ l" "valQ l < 10 ^ w" "0 < w" "w \<le> 3"
  shows "do {
      m \<leftarrow> pad_point (to_fixed 3 (num_mul (num_sub l (math_floor l)) (Fin 60)));
      Some (drop 2 (to_fixed w (num_div (math_floor l) (Fin (10 ^ w)))) @ '' '' @ m @ [c])
    } = Some (coord_text w (nat \<lfloor>valQ l\<rfloor>) (thousandths (valQ l)) c)"
proof -
  note m = minutes_text [OF assms(1-3)]
  note fl = degrees_floor [OF assms(3,4)]
  have "drop 2 (to_fixed w (num_div (math_floor l) (Fin (10 ^ w)))) = zpad w (nat \<lfloor>valQ l\<rfloor>)"
    using assms(2,5,6) fl by (intro degrees_text) simp_all
  then show ?thesis by (simp add: m coord_text_def)
qed

interpretation latitude_text: coordinate_text formatLatitude parseLatitude 2 "CHR ''N''" "CHR ''S''"
proof
  fix x
  assume x: "wf_num x" "is_finite x" "\<bar>valQ x\<bar> < 10 ^ 2"
  show "formatLatitude x = Some (coord_text 2 (nat \<lfloor>\<bar>valQ x\<bar>\<rfloor>) (thousandths \<bar>valQ x\<bar>)
      (if valQ x < 0 then CHR ''S'' else CHR ''N''))"
    using coord_body [of x 2 "CHR ''N''"] coord_body [of "num_mul x (Fin (- 1))" 2 "CHR ''S''"] x negate [OF x(1,2)]
    by (auto simp: formatLatitude_def num_lt_finite Let_def)
next
  fix h n :: nat and c
  assume "h < 10 ^ 2" "n \<le> 60000" and c: "c = CHR ''N'' \<or> c = CHR ''S''"
  then have b: "h < 10 ^ 2" "n \<le> 60000" by simp_all
  note y = coord_number [OF b(1) _ _ b(2) refl, simplified]
  have ws: "\<not> is_ws c" using c by (auto simp: is_ws_def)
  have u: "parseString [c] = Some [c]" "to_upper [c] = [c]"
    using c by (auto simp: parseString_def trim_def trim_start_def is_ws_def to_upper_def upper_char_def)
  show "\<exists>y. parseLatitude (coord_text 2 h n c) = Inr y \<and> wf_num y \<and> is_finite y \<and>
      valQ y = (if c = CHR ''S'' then - coord_value h n else coord_value h n)"
    using c y negate [OF y(3,1)]
    by (auto simp: parseLatitude_def plain_number_coord_text ws split_coord_text parseLat_def u Let_def)
qed simp_all

interpretation longitude_text: coordinate_text formatLongitude parseLongitude 3 "CHR ''E''" "CHR ''W''"
proof
  fix x
  assume x: "wf_num x" "is_finite x" "\<bar>valQ x\<bar> < 10 ^ 3"
  show "formatLongitude x = Some (coord_text 3 (nat \<lfloor>\<bar>valQ x\<bar>\<rfloor>) (thousandths \<bar>valQ x\<bar>)
      (if valQ x < 0 then CHR ''W'' else CHR ''E''))"
    using coord_body [of x 3 "CHR ''E''"] coord_body [of "num_mul x (Fin (- 1))" 3 "CHR ''W''"] x negate [OF x(1,2)]
    by (auto simp: formatLongitude_def num_lt_finite Let_def)
next
  fix h n :: nat and c
  assume "h < 10 ^ 3" "n \<le> 60000" and c: "c = CHR ''E'' \<or> c = CHR ''W''"
  then have b: "h < 10 ^ 3" "n \<le> 60000" by simp_all
  note y = coord_number [OF b(1) _ _ b(2) refl, simplified]
  have ws: "\<not> is_ws c" using c by (auto simp: is_ws_def)
  have u: "parseString [c] = Some [c]" "to_upper [c] = [c]"
    using c by (auto simp: parseString_def trim_def trim_start_def is_ws_def to_upper_def upper_char_def)
  show "\<exists>y. parseLongitude (coord_text 3 h n c) = Inr y \<and> wf_num y \<and> is_finite y \<and>
      valQ y = (if c = CHR ''W'' then - coord_value h n else coord_value h n)"
    using c y negate [OF y(3,1)]
    by (auto simp: parseLongitude_def plain_number_coord_text ws split_coord_text parseLon_def u Let_def)
qed simp_all

subsection \<open>Theorems\<close>

text \<open>
  C9. A latitude or longitude that is written and read again comes back within
  1/119999 of a degree (half of the last printed digit, and the rounding).
\<close>

theorem position_print_then_parse:
  assumes "wf_num x" "is_finite x" "\<bar>valQ x\<bar> \<le> 180"
  shows "(\<exists>s y. formatLongitude x = Some s \<and> parseLongitude s = Inr y \<and> is_finite y \<and>
      \<bar>valQ y - valQ x\<bar> \<le> 1 / 119999) \<and>
    (\<bar>valQ x\<bar> \<le> 90 \<longrightarrow> (\<exists>s y. formatLatitude x = Some s \<and> parseLatitude s = Inr y \<and>
      is_finite y \<and> \<bar>valQ y - valQ x\<bar> \<le> 1 / 119999))"
  using longitude_text.print_then_parse [OF assms(1,2)] latitude_text.print_then_parse [OF assms(1,2)] assms(3)
  by simp

lemma wf_small_int: "\<bar>k\<bar> \<le> 1000 \<Longrightarrow> wf_num (Fin (of_int k))"
  using pow_less_overflow [of 10] representable_of_int [of k] by (simp add: wf_Fin del: wf_num.simps)

lemma position_print_then_parse_witness:
  "\<exists>s y. formatLatitude (Fin 55) = Some s \<and> parseLatitude s = Inr y \<and> is_finite y \<and> \<bar>valQ y - 55\<bar> \<le> 1 / 119999"
  using position_print_then_parse [of "Fin 55"] wf_small_int [of 55] by simp

text \<open>
  C10. A well-formed position text (degrees, minutes below 60 with three decimals, a
  hemisphere letter, not minus zero) that is read and written again comes back unchanged.
\<close>

theorem position_parse_then_print:
  assumes "n < 60000"
  shows "(h < 100 \<and> (c = CHR ''N'' \<or> c = CHR ''S'' \<and> (0 < h \<or> 0 < n)) \<longrightarrow>
      (\<exists>y. parseLatitude (coord_text 2 h n c) = Inr y \<and> formatLatitude y = Some (coord_text 2 h n c))) \<and>
    (h < 1000 \<and> (c = CHR ''E'' \<or> c = CHR ''W'' \<and> (0 < h \<or> 0 < n)) \<longrightarrow>
      (\<exists>y. parseLongitude (coord_text 3 h n c) = Inr y \<and> formatLongitude y = Some (coord_text 3 h n c)))"
  using assms latitude_text.parse_then_print [of h n c] longitude_text.parse_then_print [of h n c]
  by simp

lemma position_parse_then_print_witness:
  "\<exists>y. parseLatitude ''55 40.125N'' = Inr y \<and> formatLatitude y = Some ''55 40.125N''"
proof -
  have "coord_text 2 55 40125 (CHR ''N'') = ''55 40.125N''" by code_simp
  then show ?thesis using position_parse_then_print [of 40125 55 "CHR ''N''"] by simp
qed

lemma formatters_special:
  "\<not> is_finite x \<Longrightarrow> formatLatitude x = None \<and> formatLongitude x = None"
  by (cases x)
    (auto simp: formatLatitude_def formatLongitude_def Let_def num_mul_def num_sub_def num_add_def inf_of_def pad_point_no_point)

lemma formatters_return:
  assumes "wf_num x"
  shows "formatLatitude x \<noteq> None \<longleftrightarrow> is_finite x" "formatLongitude x \<noteq> None \<longleftrightarrow> is_finite x"
proof -
  have m: "\<exists>m. pad_point (to_fixed 3 (num_mul (num_sub l (math_floor l)) (Fin 60))) = Some m"
    if "wf_num l" "is_finite l" "0 \<le> valQ l" for l
    using minutes_text [OF that] by blast
  have "formatLatitude x \<noteq> None \<and> formatLongitude x \<noteq> None" if f: "is_finite x"
    using m [OF assms f] m [of "num_mul x (Fin (- 1))"] negate [OF assms f] num_lt_finite [OF f, of "Fin 0"]
    by (cases "valQ x < 0") (auto simp: formatLatitude_def formatLongitude_def Let_def)
  then show "formatLatitude x \<noteq> None \<longleftrightarrow> is_finite x" "formatLongitude x \<noteq> None \<longleftrightarrow> is_finite x"
    using formatters_special [of x] by (cases "is_finite x"; simp)+
qed

text \<open>
  C32. The formatting functions return exactly for the finite numbers: for \<open>NaN\<close> and the
  infinities \<open>toFixed\<close> gives a text without a point and the padding loop never ends.
\<close>

theorem formatters_return_iff_finite:
  assumes "wf_num x"
  shows "(formatLatitude x \<noteq> None \<longleftrightarrow> is_finite x) \<and> (formatLongitude x \<noteq> None \<longleftrightarrow> is_finite x)"
  using formatters_return [OF assms] by simp

lemma formatters_return_iff_finite_witness: "formatLatitude PInf = None \<and> formatLatitude (Fin 7) \<noteq> None"
  using formatters_return_iff_finite [of PInf] formatters_return_iff_finite [of "Fin 7"] wf_small_int [of 7]
  by simp

lemma upper_char_iff:
  assumes "65 \<le> (of_char d :: nat)" "(of_char d :: nat) \<le> 90"
  shows "upper_char c = [d] \<longleftrightarrow> (of_char c :: nat) = of_char d \<or> (of_char c :: nat) = of_char d + 32"
proof -
  let ?n = "of_char c :: nat"
  have n: "?n < 256" by (rule nat_of_char_less_256)
  then have "(?n - 32) mod 256 = ?n - 32" by (simp add: less_imp_diff_less)
  then have "char_of (?n - 32) = d \<longleftrightarrow> ?n - 32 = of_char d"
    by (simp add: char_of_eq_iff take_bit_eq_mod)
  moreover have "c = d \<longleftrightarrow> ?n = of_char d" by simp
  ultimately show ?thesis using assms by (auto simp: upper_char_def Let_def simp del: of_char_eq_iff)
qed

lemma parseString_singleton: "parseString [c] = (if is_ws c then None else Some [c])"
  by (simp add: parseString_def trim_def trim_start_def Let_def)

lemma to_upper_hemisphere:
  "to_upper [c] = ''N'' \<longleftrightarrow> c \<in> set ''Nn''" "to_upper [c] = ''S'' \<longleftrightarrow> c \<in> set ''Ss''"
  "to_upper [c] = ''E'' \<longleftrightarrow> c \<in> set ''Ee''" "to_upper [c] = ''W'' \<longleftrightarrow> c \<in> set ''Ww''"
  using upper_char_iff [of "CHR ''N''" c] upper_char_iff [of "CHR ''S''" c]
    upper_char_iff [of "CHR ''E''" c] upper_char_iff [of "CHR ''W''" c]
    of_char_eq_iff [of c "CHR ''n''", where 'a = nat] of_char_eq_iff [of c "CHR ''N''", where 'a = nat]
    of_char_eq_iff [of c "CHR ''s''", where 'a = nat] of_char_eq_iff [of c "CHR ''S''", where 'a = nat]
    of_char_eq_iff [of c "CHR ''e''", where 'a = nat] of_char_eq_iff [of c "CHR ''E''", where 'a = nat]
    of_char_eq_iff [of c "CHR ''w''", where 'a = nat] of_char_eq_iff [of c "CHR ''W''", where 'a = nat]
  by (simp_all add: to_upper_def del: of_char_eq_iff)

lemma split_on_length: "length (split_on c s) = Suc (count_list s c)"
  by (induction s) (auto split: list.splits)
lemma take_drop_last: "s \<noteq> [] \<Longrightarrow> drop (length s - 1) s = [last s] \<and> take (length s - 1) s = butlast s"
  by (induction s rule: rev_induct) simp_all

lemma parseLat_refuses:
  "parseLat h m [c] = Inl FormatException \<longleftrightarrow> c \<notin> set ''NnSs''"
  "parseLon h m [c] = Inl FormatException \<longleftrightarrow> c \<notin> set ''EeWw''"
  by (auto simp: parseLat_def parseLon_def parseString_singleton to_upper_hemisphere is_ws_def Let_def)

lemma splitFormattedPos_cases:
  "splitFormattedPos s =
    (if count_list (trim (butlast s)) (CHR '' '') \<noteq> 1 then Inl FormatException
     else Inr (split_on (CHR '' '') (trim (butlast s)) ! 0, split_on (CHR '' '') (trim (butlast s)) ! 1, [last s]))"
proof (cases "s = []")
  case True
  then show ?thesis by (simp add: splitFormattedPos_def trim_def trim_start_def)
next
  case False
  from take_drop_last [OF this] show ?thesis
    unfolding splitFormattedPos_def by (simp add: Let_def split_on_length)
qed

text \<open>
  C35. A text that is not a plain number is refused with the format exception exactly when
  its part before the last character, trimmed, does not have one space, or its last
  character is not a hemisphere letter of either case. Nothing else is checked: neither
  the numbers' ranges nor that they are numbers.
\<close>

theorem parsers_refuse_iff:
  "(parseLatitude s = Inl FormatException \<longleftrightarrow> plain_number s = None \<and>
     (count_list (trim (butlast s)) (CHR '' '') \<noteq> 1 \<or> last s \<notin> set ''NnSs'')) \<and>
   (parseLongitude s = Inl FormatException \<longleftrightarrow> plain_number s = None \<and>
     (count_list (trim (butlast s)) (CHR '' '') \<noteq> 1 \<or> last s \<notin> set ''EeWw''))"
  by (auto simp: parseLatitude_def parseLongitude_def splitFormattedPos_cases parseLat_refuses split: option.splits)

lemma parsers_refuse_iff_witness:
  "parseLatitude ''12 30.000X'' = Inl FormatException \<and> parseLatitude ''12  30.000N'' = Inl FormatException"
proof -
  have "plain_number ''12 30.000X'' = None" "plain_number ''12  30.000N'' = None"
    "count_list (trim (butlast ''12  30.000N'')) (CHR '' '') = 2" "last ''12 30.000X'' \<notin> set ''NnSs''"
    by code_simp+
  then show ?thesis using parsers_refuse_iff [of "''12 30.000X''"] parsers_refuse_iff [of "''12  30.000N''"] by simp
qed

text \<open>
  Degrees that do not start with a digit or a sign are not refused: the text is read
  as \<open>NaN\<close>, and writing that value back never ends.
\<close>

theorem unreadable_degrees_accepted:
  assumes "d \<noteq> []" "\<forall>c\<in>set d. \<not> is_ws c" "\<not> is_digit (hd d)" "hd d \<notin> set ''+-''"
    and "m \<noteq> []" "\<forall>c\<in>set m. \<not> is_ws c"
  shows "parseLatitude (d @ '' '' @ m @ ''N'') = Inr NaN \<and> formatLatitude NaN = None"
proof -
  let ?s = "d @ '' '' @ m @ ''N''"
  have sp: "CHR '' '' \<notin> set d" "CHR '' '' \<notin> set m" using assms(2,6) by (auto simp: is_ws_def)
  have "trim ?s = ?s" using assms(1,2) by (intro trim_id) (simp_all add: is_ws_def)
  then have p: "plain_number ?s = None"
    using sp by (simp add: plain_number_def index_of_neg_iff)
  have "trim (d @ '' '' @ m) = d @ '' '' @ m" using assms(1,2,5,6) by (intro trim_id) simp_all
  then have "splitFormattedPos ?s = Inr (d, m, ''N'')"
    using sp by (simp add: splitFormattedPos_def Let_def split_on_append split_on_no_sep)
  moreover have "parse_int10 d = NaN"
    using assms(1-4) by (cases d) (auto simp: parse_int10_def trim_start_def scan_sign_def Let_def)
  ultimately have "parseLatitude ?s = Inr NaN"
    unfolding parseLatitude_def p
    by (simp add: parseLat_def parseString_singleton is_ws_def to_upper_def upper_char_def num_add_def Let_def)
  moreover have "formatLatitude NaN = None" using formatters_special [of NaN] by simp
  ultimately show ?thesis by blast
qed

lemma unreadable_degrees_accepted_witness: "parseLatitude ''xx 10.000N'' = Inr NaN \<and> formatLatitude NaN = None"
  using unreadable_degrees_accepted [of "''xx''" "''10.000''"] by (simp add: is_ws_def is_digit_def)

lemma math_round_nat:
  assumes "is_finite x" "of_nat k - 1/2 \<le> valQ x" "valQ x < of_nat k + 1/2" "0 < k"
  shows "math_round x = Fin (of_nat k)"
proof -
  have "of_int (int k) \<le> valQ x + 1/2" "valQ x + 1/2 < of_int (int k) + 1"
    using assms(2,3) unfolding of_int_of_nat_eq by linarith+
  then have "\<lfloor>valQ x + 1/2\<rfloor> = int k" by (rule floor_unique)
  moreover have "(1 :: rat) \<le> of_nat k" using assms(4) by simp
  then have "valQ x \<noteq> 0" using assms(2) by linarith
  ultimately show ?thesis using finite_cases [OF assms(1)] assms(4) by auto
qed

text \<open>Scaling by the ratio of two small whole numbers, with the two roundings.\<close>

lemma scale_close:
  assumes "is_finite x" "0 \<le> valQ x" "valQ x \<le> 2000000" "0 \<le> p" "p \<le> 2000" "1000 \<le> q" "q \<le> 2000"
  shows "is_finite (num_div (num_mul x (Fin p)) (Fin q)) \<and>
    \<bar>valQ (num_div (num_mul x (Fin p)) (Fin q)) - valQ x * p / q\<bar> < 1/1000"
proof -
  let ?v = "valQ x"
  have v: "0 \<le> ?v * p" "?v * p \<le> 2000000 * 2000"
    using assms(2-5) mult_mono [of ?v 2000000 p 2000] by simp_all
  have pow: "(2 :: rat) ^ 40 \<le> 2 ^ 1023" by (rule power_increasing) simp_all
  have "?v * p \<le> 2 ^ 40" using v by simp
  then have a: "is_finite (num_mul x (Fin p))" "valQ (num_mul x (Fin p)) = rnd (?v * p)"
    using num_mul_finite [of x "Fin p"] v pow assms(1) by simp_all
  define r where "r = rnd (?v * p)"
  have r: "\<bar>r - ?v * p\<bar> \<le> 4000000000 / 4503599627370496"
    unfolding r_def using v by (intro rnd_close) simp_all
  have "\<bar>r\<bar> \<le> 4000000001" using r v by linarith
  then have rq: "\<bar>r / q\<bar> \<le> 4000001"
    using assms(6) by (simp add: abs_divide divide_le_eq)
  have "(4000001 :: rat) \<le> 2 ^ 40" by simp
  then have b: "is_finite (num_div (num_mul x (Fin p)) (Fin q))"
      "valQ (num_div (num_mul x (Fin p)) (Fin q)) = rnd (r / q)"
    using num_div_finite [of "num_mul x (Fin p)" "Fin q"] rq pow assms(6) a unfolding r_def by simp_all
  have e: "\<bar>rnd (r / q) - r / q\<bar> \<le> 4000001 / 4503599627370496"
    by (intro rnd_close rq) simp
  have "r / q - ?v * p / q = (r - ?v * p) / q" by (simp add: diff_divide_distrib)
  moreover have "\<bar>(r - ?v * p) / q\<bar> \<le> \<bar>r - ?v * p\<bar>"
    using assms(6) by (simp add: abs_divide divide_le_eq mult_le_cancel_left1)
  ultimately have "\<bar>rnd (r / q) - ?v * p / q\<bar> < 1/1000" using e r by linarith
  with b show ?thesis by simp
qed

text \<open>
  A whole number of nautical miles survives the conversion to kilometres (rounded to a
  whole number) and back; zero becomes \<open>undefined\<close> on the way.
\<close>

theorem km2nm_nm2km:
  assumes "n \<le> 1000000"
  shows "km2nm (nm2km (Some (Fin (of_nat n)))) = (if n = 0 then None else Some (Fin (of_nat n)))"
proof (cases "n = 0")
  case True
  then show ?thesis by (simp add: nm2km_def km2nm_def num_truthy_def)
next
  case False
  then have n: "(1 :: rat) \<le> of_nat n" "(of_nat n :: rat) \<le> 1000000"
    using assms of_nat_mono [of n 1000000, where 'a = rat] by simp_all
  define y where "y = num_div (num_mul (Fin (of_nat n)) (Fin 1852)) (Fin 1000)"
  have y: "is_finite y" "\<bar>valQ y - of_nat n * 1852 / 1000\<bar> < 1/1000"
    using scale_close [of "Fin (of_nat n)" 1852 1000] n by (simp_all add: y_def)
  define k where "k = nat \<lfloor>valQ y + 1/2\<rfloor>"
  have "1 \<le> valQ y" using n y(2) by linarith
  then have f: "0 < \<lfloor>valQ y + 1/2\<rfloor>" by simp
  then have k: "of_nat k - 1/2 \<le> valQ y" "valQ y < of_nat k + 1/2" "0 < k"
    using floor_bounds [of "valQ y + 1/2"] by (simp_all add: k_def, linarith+)
  have ky: "math_round y = Fin (of_nat k)" by (rule math_round_nat [OF y(1) k])
  have k0: "(1 :: rat) \<le> of_nat k" using k(3) by simp
  have kb: "(of_nat k :: rat) \<le> 2000000" using n y(2) k by linarith
  define z where "z = num_div (num_mul (Fin (of_nat k)) (Fin 1000)) (Fin 1852)"
  have z: "is_finite z" "\<bar>valQ z - of_nat k * 1000 / 1852\<bar> < 1/1000"
    using scale_close [of "Fin (of_nat k)" 1000 1852] kb unfolding z_def by simp_all
  have "\<bar>valQ z - of_nat n\<bar> < 1/2" using z(2) y(2) k by linarith
  then have "math_round z = Fin (of_nat n)"
    using False by (intro math_round_nat [OF z(1)]) linarith+
  with ky k0 n show ?thesis
    by (simp add: nm2km_def km2nm_def num_truthy_def flip: y_def z_def)
qed

lemma km2nm_nm2km_witness: "km2nm (nm2km (Some (Fin 25))) = Some (Fin 25)"
  using km2nm_nm2km [of 25] by simp

lemma thousandths_carry:
  assumes "0 \<le> a" "149999 / 2500 \<le> (a - of_int \<lfloor>a\<rfloor>) * 60"
  shows "thousandths a = 60000"
proof -
  have "\<bar>of_nat (thousandths a) / 1000 - (a - of_int \<lfloor>a\<rfloor>) * 60\<bar> \<le> 1/2000 + 60 / 4503599627370496"
    by (rule thousandths_close(1) [OF assms(1)])
  then have "(59999 :: rat) < of_nat (thousandths a)" using assms(2) by linarith
  then have "(of_nat 59999 :: rat) < of_nat (thousandths a)" by (simp only: of_nat_numeral)
  then have "59999 < thousandths a" by (simp only: of_nat_less_iff)
  with thousandths_close(2) [OF assms(1)] show ?thesis by simp
qed

text \<open>
  Just below a whole degree the minutes are printed as 60.000 under the lower degree:
  \<open>toFixed\<close> rounds after \<open>floor\<close> has split the value, and nothing carries.
\<close>

theorem sixty_minutes_printed:
  assumes "wf_num x" "is_finite x" "0 \<le> valQ x" "valQ x < 100" "149999 / 2500 \<le> (valQ x - of_int \<lfloor>valQ x\<rfloor>) * 60"
  shows "formatLatitude x = Some (zpad 2 (nat \<lfloor>valQ x\<rfloor>) @ '' 60.000N'')"
proof -
  have "zpad 2 60 @ ''.'' @ zpad 3 60000 = ''60.000''" by code_simp
  then show ?thesis
    using latitude_text.fmt_text [OF assms(1,2)] assms(3,4) thousandths_carry [OF assms(3,5)]
    by (simp add: coord_text_def)
qed

lemma sixty_minutes_printed_witness: "formatLatitude (Fin (58720255 / 1048576)) = Some ''55 60.000N''"
proof -
  have "representable (58720255 / 1048576)"
    unfolding representable_def by (rule exI [of _ 58720255], rule exI [of _ "- 20"]) (simp add: power_int_minus)
  then have w: "wf_num (Fin (58720255 / 1048576))"
    using pow_less_overflow [of 10] unfolding wf_Fin by simp
  have f: "\<lfloor>58720255 / 1048576 :: rat\<rfloor> = 55" by (rule floor_unique) simp_all
  have "zpad 2 55 = ''55''" by code_simp
  then show ?thesis using sixty_minutes_printed [OF w] by (simp add: f)
qed
end
