(* ===== verification/PositionField.thy ===== *)
theory PositionField
  imports Position
begin

text \<open>
  \<open>js/app-directives.js\<close>, \<open>positionDirective\<close> and its two uses \<open>latitude\<close> and \<open>longitude\<close>: an
  input field whose model is a number and whose text is a position. The directive adds a
  formatter and a parser to the field and rewrites the text when the field is left. The
  formatting function may not return; then the operation that calls it is \<open>None\<close>.
\<close>

subsection \<open>The directive\<close>

text \<open>\<open>None\<close> is \<open>null\<close> or \<open>undefined\<close>, as a number and as a text.\<close>

record field =
  model_value :: "jsnum option"
  view_value :: "string option"
  valid :: bool

definition field_formatter :: "(jsnum \<Rightarrow> string option) \<Rightarrow> jsnum option \<Rightarrow> string option option" where
  "field_formatter formatter1 value =
     (case value of
        None \<Rightarrow> Some None
      | Some v \<Rightarrow> if num_truthy v \<or> num_eq v (Fin 0) then map_option Some (formatter1 v) else Some None)"

definition model_to_view :: "(jsnum \<Rightarrow> string option) \<Rightarrow> jsnum option \<Rightarrow> string option option" where
  "model_to_view formatter1 modelValue =
     (if \<not> truthy modelValue then Some None else field_formatter formatter1 modelValue)"

definition view_to_model :: "(string \<Rightarrow> js_error + jsnum) \<Rightarrow> string \<Rightarrow> bool \<times> jsnum option" where
  "view_to_model parser valueFromInput =
     (case parser valueFromInput of Inr val \<Rightarrow> (True, Some val) | Inl e \<Rightarrow> (False, None))"

definition change_event :: "(jsnum \<Rightarrow> string option) \<Rightarrow> field \<Rightarrow> field option" where
  "change_event formatter1 ctrl =
     (let ctrl = (if \<not> truthy (model_value ctrl) then ctrl\<lparr>view_value := None\<rparr> else ctrl)
      in case field_formatter formatter1 (model_value ctrl) of
           None \<Rightarrow> None
         | Some w \<Rightarrow> Some (ctrl\<lparr>view_value := w\<rparr>))"

text \<open>
  What the form library does with them: a typed text is parsed, a model that the program
  changes is formatted. Leaving the field after typing is both a parse and a change event.
\<close>

definition type_text :: "(string \<Rightarrow> js_error + jsnum) \<Rightarrow> string \<Rightarrow> field \<Rightarrow> field" where
  "type_text parser t ctrl =
     (let (ok, m) = view_to_model parser t
      in ctrl\<lparr>model_value := m, view_value := Some t, valid := ok\<rparr>)"

definition set_model :: "(jsnum \<Rightarrow> string option) \<Rightarrow> jsnum option \<Rightarrow> field \<Rightarrow> field option" where
  "set_model formatter1 m ctrl =
     (case model_to_view formatter1 m of
        None \<Rightarrow> None
      | Some w \<Rightarrow> Some (ctrl\<lparr>model_value := m, view_value := w\<rparr>))"

definition commit :: "(jsnum \<Rightarrow> string option) \<Rightarrow> (string \<Rightarrow> js_error + jsnum) \<Rightarrow> string \<Rightarrow> field \<Rightarrow> field option" where
  "commit formatter1 parser t ctrl = change_event formatter1 (type_text parser t ctrl)"

subsection \<open>The values the parsers return\<close>

lemma wf_const [simp]: "wf_num (Fin (- 1))" "wf_num (Fin 60)"
  using wf_small_int [of "- 1"] wf_small_int [of 60] by simp_all

lemma parse_float_wf [simp]: "wf_num (parse_float s)"
proof -
  have "wf_num v" if "scan_number t = Some (v, r)" for t v r
    using that by (auto simp: scan_number_def Let_def split: prod.splits if_splits option.splits)
  then show ?thesis by (auto simp: parse_float_def split: option.split)
qed

lemma parse_int10_wf [simp]: "wf_num (parse_int10 s)"
  by (simp add: parse_int10_def Let_def split: prod.split)

lemma parse_lat_lon_wf:
  "parseLat h m c = Inr v \<Longrightarrow> wf_num v" "parseLon h m c = Inr v \<Longrightarrow> wf_num v"
  by (auto simp: parseLat_def parseLon_def Let_def simp del: wf_num.simps split: option.splits if_splits)

lemma parsers_wf: "parseLatitude t = Inr v \<Longrightarrow> wf_num v" "parseLongitude t = Inr v \<Longrightarrow> wf_num v"
  by (auto simp: parseLatitude_def parseLongitude_def plain_number_def Let_def dest: parse_lat_lon_wf
      split: option.splits sum.splits if_splits)

subsection \<open>The contract of a position field\<close>

text \<open>
  Both fields are instances: a formatter that returns exactly for the finite numbers, and a
  parser that returns numbers.
\<close>

locale position_field = coordinate_text +
  assumes fmt_returns: "wf_num x \<Longrightarrow> fmt x \<noteq> None \<longleftrightarrow> is_finite x"
    and prs_wf: "prs t = Inr v \<Longrightarrow> wf_num v"
begin

lemma commit_eq:
  "commit fmt prs t c =
     (case prs t of Inl e \<Rightarrow> Some (c\<lparr>model_value := None, view_value := None, valid := False\<rparr>)
      | Inr v \<Rightarrow> if v = NaN then Some (c\<lparr>model_value := Some v, view_value := None, valid := True\<rparr>)
          else map_option (\<lambda>w. c\<lparr>model_value := Some v, view_value := Some w, valid := True\<rparr>) (fmt v))"
  by (cases "prs t"; cases "fmt (projr (prs t))")
    (auto simp: commit_def change_event_def type_text_def view_to_model_def field_formatter_def Let_def
      num_truthy_def num_eq_def split: option.splits)

lemma commit_returns: "commit fmt prs t c = None \<longleftrightarrow> (\<exists>v. prs t = Inr v \<and> is_inf v)"
proof (cases "prs t")
  case (Inr v)
  have "v = NaN \<or> is_inf v \<or> is_finite v" by (cases v) auto
  with Inr fmt_returns [OF prs_wf [OF Inr]] finite_not_special [of v] show ?thesis
    by (auto simp: commit_eq)
qed (simp add: commit_eq)

lemma commit_keeps_text:
  assumes "h < 10 ^ w" "n < 60000" "c = pos \<or> c = neg \<and> (0 < h \<or> 0 < n)"
  shows "\<exists>y. is_finite y \<and> commit fmt prs (coord_text w h n c) f =
     Some (f\<lparr>model_value := Some y, view_value := Some (coord_text w h n c), valid := True\<rparr>)"
proof -
  obtain y where y: "prs (coord_text w h n c) = Inr y" "fmt y = Some (coord_text w h n c)"
    using parse_then_print [OF assms] by blast
  then have "is_finite y" using fmt_returns [OF prs_wf [OF y(1)]] by simp
  with y finite_not_special [of y] show ?thesis by (auto simp: commit_eq)
qed

lemma zero_text: "z = Fin 0 \<or> z = NZero \<Longrightarrow> fmt z = Some (coord_text w 0 0 pos)"
  using fmt_text [of z] by (auto simp: thousandths_def)

end

interpretation latitude_field: position_field formatLatitude parseLatitude 2 "CHR ''N''" "CHR ''S''"
  by unfold_locales (rule formatters_return(1) parsers_wf(1), assumption)+

interpretation longitude_field: position_field formatLongitude parseLongitude 3 "CHR ''E''" "CHR ''W''"
  by unfold_locales (rule formatters_return(2) parsers_wf(2), assumption)+

subsection \<open>Theorems\<close>

text \<open>
  Leaving a position field after typing a text returns unless the text is read as an
  infinite number: then the page hangs in the formatter. Degrees or minutes that are no
  number do no harm, since the directive does not format \<open>NaN\<close>.
\<close>

theorem commit_returns_iff:
  "(commit formatLatitude parseLatitude t f = None \<longleftrightarrow> (\<exists>v. parseLatitude t = Inr v \<and> is_inf v)) \<and>
   (commit formatLongitude parseLongitude t f = None \<longleftrightarrow> (\<exists>v. parseLongitude t = Inr v \<and> is_inf v)) \<and>
   commit formatLatitude parseLatitude ''Infinity'' f = None"
proof -
  have "parseLatitude ''Infinity'' = Inr PInf" by code_simp
  then show ?thesis by (simp add: latitude_field.commit_returns longitude_field.commit_returns)
qed

text \<open>
  A text that the parser refuses is lost: after leaving the field the text is empty, the
  model has no value, and the field stays marked as invalid. An accepted text is marked as
  valid even when its value is \<open>NaN\<close>; then the text is erased all the same.
\<close>

theorem refused_text_is_erased:
  "(parseLatitude t = Inl e \<longrightarrow> commit formatLatitude parseLatitude t f =
      Some (f\<lparr>model_value := None, view_value := None, valid := False\<rparr>)) \<and>
   (parseLongitude t = Inl e \<longrightarrow> commit formatLongitude parseLongitude t f =
      Some (f\<lparr>model_value := None, view_value := None, valid := False\<rparr>)) \<and>
   commit formatLatitude parseLatitude ''x 10.000N'' f =
      Some (f\<lparr>model_value := Some NaN, view_value := None, valid := True\<rparr>)"
proof -
  have "parseLatitude ''x 10.000N'' = Inr NaN" by code_simp
  then show ?thesis by (simp add: latitude_field.commit_eq longitude_field.commit_eq)
qed

lemma refused_text_is_erased_witness:
  "commit formatLatitude parseLatitude ''55 40.125X'' \<lparr>model_value = Some (Fin 7), view_value = None, valid = True\<rparr> =
     Some \<lparr>model_value = None, view_value = None, valid = False\<rparr>"
proof -
  have "parseLatitude ''55 40.125X'' = Inl FormatException" by code_simp
  then show ?thesis using refused_text_is_erased [of "''55 40.125X''" FormatException] by simp
qed

text \<open>
  C30. A well-formed position that is typed into its field stays as it is when the field is
  left, is valid, and gives the model a finite number.
\<close>

theorem typed_position_stays:
  assumes "n < 60000"
  shows "(h < 100 \<and> (c = CHR ''N'' \<or> c = CHR ''S'' \<and> (0 < h \<or> 0 < n)) \<longrightarrow>
      (\<exists>y. is_finite y \<and> commit formatLatitude parseLatitude (coord_text 2 h n c) f =
        Some (f\<lparr>model_value := Some y, view_value := Some (coord_text 2 h n c), valid := True\<rparr>))) \<and>
    (h < 1000 \<and> (c = CHR ''E'' \<or> c = CHR ''W'' \<and> (0 < h \<or> 0 < n)) \<longrightarrow>
      (\<exists>y. is_finite y \<and> commit formatLongitude parseLongitude (coord_text 3 h n c) f =
        Some (f\<lparr>model_value := Some y, view_value := Some (coord_text 3 h n c), valid := True\<rparr>)))"
  using assms latitude_field.commit_keeps_text [of h n c f] longitude_field.commit_keeps_text [of h n c f] by simp

lemma typed_position_stays_witness:
  "\<exists>y. is_finite y \<and> commit formatLatitude parseLatitude ''55 40.125N'' \<lparr>model_value = None, view_value = None, valid = True\<rparr> =
     Some \<lparr>model_value = Some y, view_value = Some ''55 40.125N'', valid = True\<rparr>"
proof -
  have "coord_text 2 55 40125 (CHR ''N'') = ''55 40.125N''" by code_simp
  then show ?thesis using typed_position_stays [of 40125 55 "CHR ''N''" "\<lparr>model_value = None, view_value = None, valid = True\<rparr>"] by simp
qed

text \<open>
  A coordinate on the equator or the prime meridian is shown or not depending on how it
  got there: typed and left, the field shows it; set by the program (drawn on the map,
  restored from the storage), the field is empty. For every other number the two agree.
\<close>

theorem zero_shown_only_when_typed:
  "set_model formatLatitude (Some (Fin 0)) f = Some (f\<lparr>model_value := Some (Fin 0), view_value := None\<rparr>) \<and>
   change_event formatLatitude (f\<lparr>model_value := Some (Fin 0)\<rparr>) =
     Some (f\<lparr>model_value := Some (Fin 0), view_value := Some (coord_text 2 0 0 (CHR ''N''))\<rparr>) \<and>
   set_model formatLongitude (Some (Fin 0)) f = Some (f\<lparr>model_value := Some (Fin 0), view_value := None\<rparr>) \<and>
   change_event formatLongitude (f\<lparr>model_value := Some (Fin 0)\<rparr>) =
     Some (f\<lparr>model_value := Some (Fin 0), view_value := Some (coord_text 3 0 0 (CHR ''E''))\<rparr>) \<and>
   (\<not> is_zero v \<longrightarrow> set_model fmt (Some v) f = change_event fmt (f\<lparr>model_value := Some v\<rparr>))"
proof -
  have "is_zero (Fin 0)" by simp
  then have "set_model fmt (Some (Fin 0)) f = Some (f\<lparr>model_value := Some (Fin 0), view_value := None\<rparr>)" for fmt f
    by (simp add: set_model_def model_to_view_def truthy_def num_truthy_def)
  moreover have "change_event fmt (f\<lparr>model_value := Some (Fin 0)\<rparr>) =
      map_option (\<lambda>w. f\<lparr>model_value := Some (Fin 0), view_value := Some w\<rparr>) (fmt (Fin 0))" for fmt f
    by (cases "fmt (Fin 0)") (simp_all add: change_event_def field_formatter_def truthy_def num_truthy_def num_eq_def)
  moreover have "set_model fmt (Some v) f = change_event fmt (f\<lparr>model_value := Some v\<rparr>)" if "\<not> is_zero v"
    using that by (cases "v = NaN"; cases "fmt v")
      (simp_all add: set_model_def change_event_def model_to_view_def field_formatter_def truthy_def num_truthy_def num_eq_def)
  ultimately show ?thesis by (simp add: latitude_field.zero_text longitude_field.zero_text)
qed

lemma zero_shown_only_when_typed_witness:
  "set_model formatLatitude (Some (Fin 7)) \<lparr>model_value = None, view_value = None, valid = True\<rparr> =
     change_event formatLatitude \<lparr>model_value = Some (Fin 7), view_value = None, valid = True\<rparr>"
  using zero_shown_only_when_typed [of "\<lparr>model_value = None, view_value = None, valid = True\<rparr>" "Fin 7" formatLatitude] by simp

end
