(* ===== verification/FilterField.thy ===== *)
theory FilterField
  imports Service
begin

text \<open>
  \<open>js/app-directives.js\<close>, the directive \<open>filterValidate\<close>: each change of the text of the
  advanced filter schedules a validation by the server half a second later and withdraws
  the one scheduled before. Timers elapse in the order in which they were started; requests
  may be answered in any order, or fail. \<open>verdict\<close> is what the server says of a filter.
\<close>

subsection \<open>State and operations\<close>

text \<open>
  \<open>promise\<close> is the variable of the directive: the last timer it knows of. \<open>scheduled\<close> are
  the timers that run, with their texts, \<open>requests\<close> the texts sent and not yet answered.
  \<open>typed\<close> records the last text for the theorems.
\<close>

record validator =
  promise :: "nat option"
  scheduled :: "(nat \<times> string) list"
  requests :: "string list"
  filter_valid :: bool
  next_timer :: nat
  sent_urls :: "string list"
  typed :: "string option"

definition link_validator :: validator where
  "link_validator = \<lparr>promise = None, scheduled = [], requests = [], filter_valid = True, next_timer = 0,
     sent_urls = [], typed = None\<rparr>"

definition validateAsync :: "string \<Rightarrow> validator \<Rightarrow> validator" where
  "validateAsync txt_value s =
     (let s = (case promise s of
                 None \<Rightarrow> s
               | Some i \<Rightarrow> s\<lparr>scheduled := filter (\<lambda>t. fst t \<noteq> i) (scheduled s), promise := None\<rparr>)
      in s\<lparr>scheduled := scheduled s @ [(next_timer s, txt_value)], promise := Some (next_timer s),
           next_timer := next_timer s + 1\<rparr>)"

definition filter_parser :: "string \<Rightarrow> validator \<Rightarrow> string \<times> validator" where
  "filter_parser txt_value s = (txt_value, (validateAsync txt_value s)\<lparr>typed := Some txt_value\<rparr>)"

text \<open>The action of the timer, and the two handlers of the request it sends.\<close>

definition elapse :: "string \<Rightarrow> validator \<Rightarrow> validator" where
  "elapse txt_value s = s\<lparr>requests := requests s @ [txt_value], sent_urls := sent_urls s @ [validateFilter_url txt_value]\<rparr>"

definition on_verdict :: "bool \<Rightarrow> validator \<Rightarrow> validator" where
  "on_verdict ok s = s\<lparr>filter_valid := ok, promise := None\<rparr>"

definition on_failure :: "validator \<Rightarrow> validator" where
  "on_failure s = s\<lparr>promise := None\<rparr>"

definition drop_request :: "nat \<Rightarrow> validator \<Rightarrow> validator" where
  "drop_request k s = s\<lparr>requests := take k (requests s) @ drop (Suc k) (requests s)\<rparr>"

inductive filter_step :: "(string \<Rightarrow> bool) \<Rightarrow> validator \<Rightarrow> validator \<Rightarrow> bool" for verdict :: "string \<Rightarrow> bool" where
  typing: "filter_step verdict s (snd (filter_parser v s))"
| elapsing: "scheduled s = (i, v) # r \<Longrightarrow> filter_step verdict s (elapse v (s\<lparr>scheduled := r\<rparr>))"
| answering: "k < length (requests s) \<Longrightarrow> filter_step verdict s (on_verdict (verdict (requests s ! k)) (drop_request k s))"
| failing: "k < length (requests s) \<Longrightarrow> filter_step verdict s (on_failure (drop_request k s))"

text \<open>The runs in which every request is answered, in the order in which they were sent.\<close>

inductive orderly_step :: "(string \<Rightarrow> bool) \<Rightarrow> validator \<Rightarrow> validator \<Rightarrow> bool" for verdict :: "string \<Rightarrow> bool" where
  typing: "orderly_step verdict s (snd (filter_parser v s))"
| elapsing: "scheduled s = (i, v) # r \<Longrightarrow> orderly_step verdict s (elapse v (s\<lparr>scheduled := r\<rparr>))"
| answering: "requests s \<noteq> [] \<Longrightarrow> orderly_step verdict s (on_verdict (verdict (hd (requests s))) (drop_request 0 s))"

definition at_rest :: "validator \<Rightarrow> bool" where
  "at_rest s \<longleftrightarrow> scheduled s = [] \<and> requests s = []"

subsection \<open>One timer per pause\<close>

lemma orderly_is_step: "orderly_step verdict s t \<Longrightarrow> filter_step verdict s t"
proof (induction rule: orderly_step.cases)
  case (answering s)
  then show ?thesis using filter_step.answering [of 0 s verdict] by (simp add: hd_conv_nth)
qed (auto intro: filter_step.intros)

text \<open>The timers that run are known to the directive: what typing withdraws is all there is.\<close>

definition timer_known :: "validator \<Rightarrow> bool" where
  "timer_known s \<longleftrightarrow> (\<forall>t\<in>set (scheduled s). promise s = Some (fst t))"

lemma validateAsync_known:
  "timer_known s \<Longrightarrow> scheduled (validateAsync v s) = [(next_timer s, v)] \<and> timer_known (validateAsync v s)"
  by (cases "scheduled s"; cases "promise s") (auto simp: validateAsync_def timer_known_def Let_def filter_empty_conv)

text \<open>
  A burst of typing costs one request: however many times the text changes without an
  answer coming in between, one timer is left, and it carries the last text.
\<close>

theorem burst_schedules_once:
  assumes "timer_known s"
  shows "\<exists>i. scheduled (fold (\<lambda>v s. snd (filter_parser v s)) (vs @ [v]) s) = [(i, v)]"
proof -
  have "timer_known (fold (\<lambda>v s. snd (filter_parser v s)) vs s)"
    using assms validateAsync_known
    by (induction vs arbitrary: s) (simp_all add: filter_parser_def timer_known_def)
  then show ?thesis using validateAsync_known by (simp add: filter_parser_def)
qed

lemma burst_schedules_once_witness:
  "\<exists>i. scheduled (fold (\<lambda>v s. snd (filter_parser v s)) ([''t'', ''t.'', ''t.n''] @ [''t.na'']) link_validator) = [(i, ''t.na'')]"
  by (rule burst_schedules_once) (simp add: timer_known_def link_validator_def)

text \<open>The operations as functions of a state, to write runs down.\<close>

definition type_in :: "string \<Rightarrow> validator \<Rightarrow> validator" where
  "type_in v s = snd (filter_parser v s)"

definition let_elapse :: "validator \<Rightarrow> validator" where
  "let_elapse s = elapse (snd (hd (scheduled s))) (s\<lparr>scheduled := tl (scheduled s)\<rparr>)"

definition answer_nth :: "(string \<Rightarrow> bool) \<Rightarrow> nat \<Rightarrow> validator \<Rightarrow> validator" where
  "answer_nth verdict k s = on_verdict (verdict (requests s ! k)) (drop_request k s)"

lemma run_steps:
  "(filter_step verdict)\<^sup>*\<^sup>* s0 s \<Longrightarrow> (filter_step verdict)\<^sup>*\<^sup>* s0 (type_in v s)"
  "(filter_step verdict)\<^sup>*\<^sup>* s0 s \<Longrightarrow> scheduled s \<noteq> [] \<Longrightarrow> (filter_step verdict)\<^sup>*\<^sup>* s0 (let_elapse s)"
  "(filter_step verdict)\<^sup>*\<^sup>* s0 s \<Longrightarrow> k < length (requests s) \<Longrightarrow> (filter_step verdict)\<^sup>*\<^sup>* s0 (answer_nth verdict k s)"
proof -
  have 1: "filter_step verdict s (type_in v s)"
    unfolding type_in_def by (rule filter_step.typing)
  have 2: "scheduled s \<noteq> [] \<Longrightarrow> filter_step verdict s (let_elapse s)"
    using filter_step.elapsing [of s "fst (hd (scheduled s))" "snd (hd (scheduled s))" "tl (scheduled s)" verdict]
    by (simp add: let_elapse_def)
  have 3: "k < length (requests s) \<Longrightarrow> filter_step verdict s (answer_nth verdict k s)"
    unfolding answer_nth_def by (rule filter_step.answering)
  show "(filter_step verdict)\<^sup>*\<^sup>* s0 s \<Longrightarrow> (filter_step verdict)\<^sup>*\<^sup>* s0 (type_in v s)"
    "(filter_step verdict)\<^sup>*\<^sup>* s0 s \<Longrightarrow> scheduled s \<noteq> [] \<Longrightarrow> (filter_step verdict)\<^sup>*\<^sup>* s0 (let_elapse s)"
    "(filter_step verdict)\<^sup>*\<^sup>* s0 s \<Longrightarrow> k < length (requests s) \<Longrightarrow> (filter_step verdict)\<^sup>*\<^sup>* s0 (answer_nth verdict k s)"
    using 1 2 3 by (blast intro: rtranclp.rtrancl_into_rtrancl)+
qed

lemmas run_simps = type_in_def let_elapse_def answer_nth_def filter_parser_def validateAsync_def elapse_def
  on_verdict_def drop_request_def link_validator_def Let_def

text \<open>
  An answer that comes while a newer timer runs makes the directive forget that timer:
  the next change of the text cannot withdraw it. So two timers can run at once, for any
  two texts, and both texts will be sent.
\<close>

theorem answer_forgets_timer:
  "\<exists>s. (filter_step verdict)\<^sup>*\<^sup>* link_validator s \<and> map snd (scheduled s) = [v, w] \<and> typed s = Some w"
proof (intro exI conjI)
  let ?s = "type_in w (answer_nth verdict 0 (type_in v (let_elapse (type_in u link_validator))))"
  show "(filter_step verdict)\<^sup>*\<^sup>* link_validator ?s"
    by (intro run_steps rtranclp.rtrancl_refl) (simp_all add: run_simps)
  show "map snd (scheduled ?s) = [v, w]" "typed ?s = Some w"
    by (simp_all add: run_simps)
qed

subsection \<open>The verdict at rest\<close>

text \<open>The texts on their way to a verdict, oldest first.\<close>

definition under_way :: "validator \<Rightarrow> string list" where
  "under_way s = requests s @ map snd (scheduled s)"

definition verdict_inv :: "(string \<Rightarrow> bool) \<Rightarrow> validator \<Rightarrow> bool" where
  "verdict_inv verdict s \<longleftrightarrow>
     (case typed s of None \<Rightarrow> under_way s = []
      | Some v \<Rightarrow> if under_way s = [] then filter_valid s = verdict v else last (under_way s) = v)"

lemma under_way_simps [simp]:
  "under_way (on_verdict b s) = under_way s" "under_way (on_failure s) = under_way s"
  "scheduled s = (i, v) # r \<Longrightarrow> under_way (elapse v (s\<lparr>scheduled := r\<rparr>)) = under_way s"
  by (simp_all add: under_way_def on_verdict_def on_failure_def elapse_def)

lemma orderly_inv:
  assumes "orderly_step verdict s t" "verdict_inv verdict s"
  shows "verdict_inv verdict t"
  using assms(1)
proof cases
  case (typing v)
  then show ?thesis by (simp add: verdict_inv_def under_way_def filter_parser_def validateAsync_def Let_def)
next
  case (elapsing i v r)
  then have 1: "under_way t = under_way s" "typed t = typed s" "filter_valid t = filter_valid s"
    by (simp_all add: elapse_def under_way_def)
  show ?thesis using assms(2) unfolding verdict_inv_def 1 .
next
  case answering
  then obtain u us where u: "requests s = u # us" by (cases "requests s") simp_all
  then have "under_way s = u # under_way t" using answering by (simp add: under_way_def drop_request_def on_verdict_def)
  moreover have "typed t = typed s" "filter_valid t = verdict u"
    using answering u by (simp_all add: drop_request_def on_verdict_def)
  ultimately show ?thesis using assms(2) by (auto simp: verdict_inv_def split: option.splits if_splits)
qed

lemma orderly_reachable_inv: "(orderly_step verdict)\<^sup>*\<^sup>* link_validator s \<Longrightarrow> verdict_inv verdict s"
proof (induction rule: rtranclp_induct)
  case base
  show ?case by (simp add: verdict_inv_def link_validator_def under_way_def)
next
  case (step s t)
  then show ?case using orderly_inv by blast
qed

text \<open>
  C29. When every request is answered and the answers come in the order of the requests, the
  field tells the truth at rest: with no timer and no request left, the filter is marked as
  valid exactly if the server accepts the text typed last.
\<close>

theorem verdict_of_last_text:
  assumes "(orderly_step verdict)\<^sup>*\<^sup>* link_validator s" "at_rest s" "typed s = Some v"
  shows "filter_valid s = verdict v"
  using orderly_reachable_inv [OF assms(1)] assms(2,3) by (simp add: verdict_inv_def at_rest_def under_way_def)

lemma verdict_of_last_text_witness:
  "\<not> filter_valid (answer_nth (\<lambda>v. v = ''a'') 0 (let_elapse (type_in ''b'' link_validator)))"
proof -
  let ?f = "\<lambda>v. v = ''a''"
  let ?s = "type_in ''b'' link_validator"
  let ?t = "let_elapse ?s"
  have "orderly_step ?f link_validator ?s" unfolding type_in_def by (rule orderly_step.typing)
  moreover have "scheduled ?s = [(0, ''b'')]" by (simp add: run_simps)
  then have "orderly_step ?f ?s ?t" using orderly_step.elapsing [of ?s 0 "''b''" "[]" ?f] by (simp add: let_elapse_def)
  moreover have r: "requests ?t = [''b'']" by (simp add: run_simps)
  then have "orderly_step ?f ?t (answer_nth ?f 0 ?t)"
    using orderly_step.answering [of ?t ?f] by (simp add: answer_nth_def)
  ultimately have "(orderly_step ?f)\<^sup>*\<^sup>* link_validator (answer_nth ?f 0 ?t)"
    by (meson converse_rtranclp_into_rtranclp rtranclp.rtrancl_refl)
  moreover have "at_rest (answer_nth ?f 0 ?t)" "typed (answer_nth ?f 0 ?t) = Some ''b''"
    by (simp_all add: at_rest_def run_simps)
  ultimately show ?thesis using verdict_of_last_text by fastforce
qed

text \<open>
  When answers overtake each other the field can lie at rest: an older text of the other
  verdict may be answered last, and its verdict stays.
\<close>

theorem stale_verdict_stays:
  "\<exists>s. (filter_step verdict)\<^sup>*\<^sup>* link_validator s \<and> at_rest s \<and> typed s = Some v \<and> filter_valid s = verdict u"
proof (intro exI conjI)
  let ?s = "answer_nth verdict 0 (answer_nth verdict 1 (let_elapse (type_in v (let_elapse (type_in u link_validator)))))"
  show "(filter_step verdict)\<^sup>*\<^sup>* link_validator ?s"
    by (intro run_steps rtranclp.rtrancl_refl) (simp_all add: run_simps)
  show "at_rest ?s" "typed ?s = Some v" "filter_valid ?s = verdict u"
    by (simp_all add: at_rest_def run_simps)
qed

end
