(* ===== verification/DatePicker.thy ===== *)
theory DatePicker
  imports JsNumber
begin

text \<open>
  \<open>js/app-directives.js\<close>, the directive \<open>psDatetimePicker\<close>: an input field with a date picker,
  bound to a date of the model in milliseconds. The picker is a library, here its value and
  its documented behaviour: it returns \<open>null\<close> when it has no date, it raises \<open>dp.change\<close> at
  once when a call or the user changes its date, and it throws when it is given anything
  but a moment, a date, a text or \<open>null\<close>, so also for \<open>undefined\<close>. A moment of a number that
  is not finite is invalid; the picker ignores it. \<open>render\<close> is the formatting of a moment.
\<close>

record date_field =
  date_model :: "jsnum option"
  picker_date :: "jsnum option"
  input_text :: string

subsection \<open>The directive\<close>

text \<open>An operation returns the error it ends with, if any, and the state it leaves.\<close>

type_synonym outcome = "type_error option \<times> date_field"

text \<open>
  The handler of \<open>dp.change\<close>. Its condition is always true: \<open>picker.date\<close> is the accessor
  function and not the date, so it is truthy, and its value is never equal to a number;
  \<open>picker.unset\<close> is not a member of the picker.
\<close>

definition on_dp_change :: "date_field \<Rightarrow> outcome" where
  "on_dp_change s = (case picker_date s of None \<Rightarrow> (Some TypeError, s) | Some d \<Rightarrow> (None, s\<lparr>date_model := Some d\<rparr>))"

text \<open>The picker gets a date, from the user or a call (\<open>None\<close>: it is cleared).\<close>

definition picker_set :: "jsnum option \<Rightarrow> date_field \<Rightarrow> outcome" where
  "picker_set d s =
     (if d = picker_date s then (None, s) else on_dp_change (s\<lparr>picker_date := d\<rparr>))"

text \<open>The listener of the date.\<close>

definition date_listener :: "(jsnum \<Rightarrow> string) \<Rightarrow> date_field \<Rightarrow> outcome" where
  "date_listener render s =
     (if \<not> truthy (date_model s) then (Some TypeError, s)
      else let newValue = the (date_model s)
           in case (if is_finite newValue then picker_set (Some newValue) s else (None, s)) of
                (Some e, s) \<Rightarrow> (Some e, s)
              | (None, s) \<Rightarrow> (None, s\<lparr>input_text := render newValue\<rparr>))"

text \<open>The user picks a date or clears the field; when the date changes its listener runs.\<close>

definition user_picks :: "(jsnum \<Rightarrow> string) \<Rightarrow> jsnum option \<Rightarrow> date_field \<Rightarrow> outcome" where
  "user_picks render d s =
     (case picker_set d s of
        (Some e, t) \<Rightarrow> (Some e, t)
      | (None, t) \<Rightarrow> if date_model t = date_model s then (None, t) else date_listener render t)"

subsection \<open>Theorems\<close>

lemma date_listener_eq:
  "truthy (date_model s) \<Longrightarrow> is_finite (the (date_model s)) \<Longrightarrow>
    date_listener render s = (None, s\<lparr>picker_date := date_model s, input_text := render (the (date_model s))\<rparr>)"
  by (cases s; cases "date_model s")
    (auto simp: date_listener_def truthy_def picker_set_def on_dp_change_def Let_def)

text \<open>
  The date and its field agree: after the listener has run for a date, or after the user
  has picked one, the model, the picker and the text all show that date; the listener does
  not change the model, so it is not called again.
\<close>

theorem date_field_agrees:
  assumes "is_finite d" "num_truthy d"
  shows "date_listener render (s\<lparr>date_model := Some d\<rparr>) =
      (None, \<lparr>date_model = Some d, picker_date = Some d, input_text = render d\<rparr>) \<and>
    (date_model s = picker_date s \<and> picker_date s \<noteq> Some d \<longrightarrow>
      user_picks render (Some d) s = (None, \<lparr>date_model = Some d, picker_date = Some d, input_text = render d\<rparr>))"
  using assms date_listener_eq [of "s\<lparr>date_model := Some d\<rparr>" render] date_listener_eq [of "s\<lparr>date_model := Some d, picker_date := Some d\<rparr>" render]
  by (cases s) (simp add: truthy_def user_picks_def picker_set_def on_dp_change_def)

definition sample_field :: date_field where
  "sample_field = \<lparr>date_model = Some (Fin 5), picker_date = Some (Fin 5), input_text = []\<rparr>"

lemma date_field_agrees_witness:
  "user_picks (\<lambda>d. ''01-01-2015 00:00'') (Some (Fin 1420070400000)) sample_field =
     (None, \<lparr>date_model = Some (Fin 1420070400000), picker_date = Some (Fin 1420070400000), input_text = ''01-01-2015 00:00''\<rparr>)"
  using date_field_agrees [of "Fin 1420070400000" "\<lambda>d. ''01-01-2015 00:00''" sample_field]
  by (simp add: num_truthy_def sample_field_def)

text \<open>
  There is no way to have no date. Clearing a field that has one ends in a type error:
  the picker is empty and the old date is still in the model and in every query. The
  listener of a model without a date (or with one that is zero) ends in a type error too,
  before it has changed the picker or the text.
\<close>

theorem clearing_date_throws:
  "(picker_date s \<noteq> None \<longrightarrow> user_picks render None s = (Some TypeError, s\<lparr>picker_date := None\<rparr>)) \<and>
   (\<not> truthy (date_model s) \<longrightarrow> date_listener render s = (Some TypeError, s)) \<and>
   (date_model s \<noteq> None \<longrightarrow> date_model (snd (user_picks render d s)) \<noteq> None)"
  by (auto simp: user_picks_def picker_set_def on_dp_change_def date_listener_def Let_def truthy_def
      split: option.splits prod.splits if_splits)

lemma clearing_date_throws_witness:
  "user_picks (\<lambda>d. []) None sample_field = (Some TypeError, sample_field\<lparr>picker_date := None\<rparr>)"
  using clearing_date_throws [of sample_field "\<lambda>d. []" None] by (simp add: sample_field_def)

end
