(* ===== verification/ByteFilter.thy ===== *)
theory ByteFilter
  imports NumText Position
begin

text \<open>
  \<open>js/app-filter.js\<close>: the filter \<open>bytes\<close>, which prints the size of a result file with a unit.
  The logarithm and the power function of the language are only required to be close to the
  mathematical ones, so they are parameters; \<open>log_accurate\<close> and \<open>pow_exact\<close> say what is used of
  them.
\<close>

definition units :: "string list" where
  "units = [''bytes'', ''kB'', ''MB'', ''GB'', ''TB'', ''PB'']"

text \<open>An access to \<open>units\<close>; any other index gives \<open>undefined\<close>, printed as that word.\<close>

definition unit_text :: "jsnum \<Rightarrow> string" where
  "unit_text number =
     (if is_finite number \<and> valQ number = of_int \<lfloor>valQ number\<rfloor> \<and> 0 \<le> valQ number \<and> valQ number < 6
      then units ! nat \<lfloor>valQ number\<rfloor> else ''undefined'')"

text \<open>
  The precision is one that \<open>toFixed\<close> accepts (up to 20 or 100 digits, by the age of the browser); beyond it the code throws
  a RangeError, which is not modelled. The page gives none.
\<close>

definition bytes_text :: "(jsnum \<Rightarrow> jsnum) \<Rightarrow> (jsnum \<Rightarrow> jsnum \<Rightarrow> jsnum) \<Rightarrow> jsnum \<Rightarrow> nat option \<Rightarrow> string" where
  "bytes_text math_log math_pow bytes precision =
     (if num_eq bytes (Fin 0) then ''0 bytes''
      else if parse_float (num_to_string bytes) = NaN \<or> \<not> is_finite bytes then ''-''
      else let precision = (case precision of None \<Rightarrow> 1 | Some p \<Rightarrow> p);
               number = math_floor (num_div (math_log bytes) (math_log (Fin 1024)))
           in to_fixed precision (num_div bytes (math_pow (Fin 1024) (math_floor number))) @ '' '' @ unit_text number)"

definition log_accurate :: "(jsnum \<Rightarrow> jsnum) \<Rightarrow> bool" where
  "log_accurate math_log \<longleftrightarrow> (\<forall>x. is_finite x \<and> 1 \<le> valQ x \<and> valQ x \<le> 2 ^ 70 \<longrightarrow>
     is_finite (math_log x) \<and> 0 \<le> valQ (math_log x) \<and> \<bar>of_rat (valQ (math_log x)) - ln (of_rat (valQ x) :: real)\<bar> \<le> 1 / 2 ^ 40)"

definition pow_exact :: "(jsnum \<Rightarrow> jsnum \<Rightarrow> jsnum) \<Rightarrow> bool" where
  "pow_exact math_pow \<longleftrightarrow> (\<forall>e k. is_finite e \<and> valQ e = of_nat k \<and> k < 10 \<longrightarrow> math_pow (Fin 1024) e = Fin (1024 ^ k))"

subsection \<open>The index of the unit\<close>

lemma ln_1024: "ln (1024 :: real) = 10 * ln 2"
  using ln_realpow [of "2 :: real" 10] by simp

lemma quotient_close:
  fixes a b a' b' d :: real
  assumes "\<bar>a' - a\<bar> \<le> d" "\<bar>b' - b\<bar> \<le> d" "0 \<le> a" "a \<le> 10 * b" "5 \<le> b'" "5 \<le> b"
  shows "\<bar>a' / b' - a / b\<bar> \<le> 3 * d"
proof -
  have "(a' / b' - a / b) * b' = (a' - a) + (a / b) * (b - b')" using assms(5,6) by (simp add: field_simps)
  moreover have q: "0 \<le> a / b" "a / b \<le> 10" using assms(3,4,6) by (simp_all add: field_simps)
  then have "\<bar>(a / b) * (b - b')\<bar> \<le> 10 * d"
    using assms(2) unfolding abs_mult by (intro mult_mono) simp_all
  ultimately have "\<bar>(a' / b' - a / b) * b'\<bar> \<le> 11 * d" using assms(1) by linarith
  then have t: "\<bar>a' / b' - a / b\<bar> * b' \<le> 11 * d" using assms(5) by (simp add: abs_mult)
  define t where "t = \<bar>a' / b' - a / b\<bar>"
  have "t * 5 \<le> t * b'" using assms(5) by (intro mult_left_mono) (simp_all add: t_def)
  moreover have "0 \<le> d" using assms(1) by (rule order_trans [OF abs_ge_zero])
  ultimately have "t \<le> 3 * d" using t [folded t_def] by linarith
  then show ?thesis by (simp only: t_def)
qed

text \<open>
  The index computed for a size differs from the logarithm to the base 1024 by less than
  the errors of the two logarithms and of the division.
\<close>

lemma index_close:
  assumes "log_accurate math_log" "is_finite x" "2 ^ m \<le> valQ x" "valQ x \<le> 2 ^ n" "n \<le> 70"
  defines "r \<equiv> num_div (math_log x) (math_log (Fin 1024))"
  shows "is_finite r" "0 \<le> valQ r"
    and "\<bar>of_rat (valQ r) - ln (of_rat (valQ x)) / ln (1024 :: real)\<bar> \<le> 4 / 2 ^ 40"
    and "real m / 10 \<le> ln (of_rat (valQ x)) / ln (1024 :: real)"
    and "ln (of_rat (valQ x)) / ln (1024 :: real) \<le> real n / 10"
proof -
  define X where "X = (of_rat (valQ x) :: real)"
  define p where "p = valQ (math_log x)"
  define q where "q = valQ (math_log (Fin 1024))"
  have le70: "valQ x \<le> 2 ^ 70"
    using assms(4) power_increasing [OF assms(5), of "2 :: rat"] by (rule order_trans) simp
  have ge1: "1 \<le> valQ x" by (rule order_trans [OF _ assms(3)]) simp
  have lx: "is_finite (math_log x)" "0 \<le> p" "\<bar>of_rat p - ln X\<bar> \<le> 1 / 2 ^ 40"
    using assms(1,2) ge1 le70 unfolding log_accurate_def X_def p_def by blast+
  have lk: "is_finite (math_log (Fin 1024))" "0 \<le> q" "\<bar>of_rat q - ln (1024 :: real)\<bar> \<le> 1 / 2 ^ 40"
    using assms(1) [unfolded log_accurate_def, rule_format, of "Fin 1024"] by (simp_all add: q_def)
  have two: "3 / 5 \<le> ln (2 :: real)" "ln (2 :: real) \<le> 1"
  proof -
    have "exp (3 / 5) \<le> (2 :: real)" using exp_bound [of "3 / 5"] by (simp add: power2_eq_square)
    then show "3 / 5 \<le> ln (2 :: real)" by (simp only: ln_ge_iff zero_less_numeral)
    show "ln (2 :: real) \<le> 1" using ln_le_minus_one [of 2] by simp
  qed
  have "of_rat (2 ^ m) \<le> X" "X \<le> of_rat (2 ^ n)" unfolding X_def using assms(3,4) by (simp_all only: of_rat_less_eq)
  then have X: "2 ^ m \<le> X" "X \<le> 2 ^ n" by (simp_all add: of_rat_power)
  have X1: "1 \<le> X" by (rule order_trans [OF _ X(1)]) simp
  have ln2n: "ln (2 ^ j :: real) = real j * ln 2" for j by (rule ln_realpow)
  have "ln (2 ^ m) \<le> ln X" using X1 X by (subst ln_le_cancel_iff) simp_all
  moreover have "ln X \<le> ln (2 ^ n)" using X1 X by (subst ln_le_cancel_iff) simp_all
  ultimately have lX: "real m * ln 2 \<le> ln X" "ln X \<le> real n * ln 2" "0 \<le> ln X" unfolding ln2n using X1 by simp_all
  have n70: "real n * ln 2 \<le> 70 * ln 2" using assms(5) two(1) by (intro mult_right_mono) simp_all
  have l100: "ln X \<le> 10 * (10 * ln 2)" using lX(2) n70 two(1) by linarith
  have bq: "(5 :: real) \<le> of_rat q" 
  proof -
    have "(1 / 2 ^ 40 :: real) \<le> 1" by simp
    then show ?thesis using lk(3) two unfolding ln_1024 by linarith
  qed
  then have q6: "5 \<le> q" using of_rat_less_eq [of 5 q, where 'a = real] by simp
  have l2: "0 < ln (2 :: real)" using two(1) by linarith
  show "real m / 10 \<le> ln (of_rat (valQ x)) / ln (1024 :: real)" "ln (of_rat (valQ x)) / ln (1024 :: real) \<le> real n / 10"
    using lX(1,2) l2 unfolding ln_1024 X_def [symmetric] by (simp_all add: field_simps)
  have L: "ln X / ln 1024 \<le> 7" using order_trans [OF lX(2) n70] l2 unfolding ln_1024 by (simp add: field_simps)
  have close: "\<bar>of_rat p / of_rat q - ln X / ln (1024 :: real)\<bar> \<le> 3 * (1 / 2 ^ 40)"
    using lx(3) lk(3) lX(3) l100 bq two unfolding ln_1024 by (intro quotient_close) linarith+
  have "of_rat p / of_rat q \<le> (8 :: real)" 
  proof -
    have "(3 * (1 / 2 ^ 40) :: real) \<le> 1 / 10" by simp
    then show ?thesis using close L by linarith
  qed
  then have "of_rat (p / q) \<le> (of_rat 8 :: real)" by (simp add: of_rat_divide)
  then have pq: "0 \<le> p / q" "p / q \<le> 8" using lx(2) q6 by (simp_all only: of_rat_less_eq) simp
  then have b: "\<bar>p / q\<bar> \<le> 8" by simp
  have r: "is_finite r" "valQ r = rnd (p / q)"
    using num_div_finite [of "math_log x" "math_log (Fin 1024)"] lx(1) lk(1) q6 order_trans [OF b small_pow [of 8]]
    unfolding r_def p_def q_def by simp_all
  show "is_finite r" by (rule r(1))
  show "0 \<le> valQ r" unfolding r(2) using pq(1) by (intro b64.rd_ge) simp_all
  have "\<bar>rnd (p / q) - p / q\<bar> \<le> 8 / 4503599627370496" by (rule rnd_close [OF b]) simp
  then have "of_rat \<bar>rnd (p / q) - p / q\<bar> \<le> (of_rat (8 / 4503599627370496) :: real)" by (simp only: of_rat_less_eq)
  then have "\<bar>of_rat (rnd (p / q)) - of_rat (p / q)\<bar> \<le> (8 / 4503599627370496 :: real)"
    by (simp add: of_rat_diff of_rat_divide flip: abs_of_rat)
  moreover have "(3 * (1 / 2 ^ 40) + 8 / 4503599627370496 :: real) \<le> 4 / 2 ^ 40" by simp
  ultimately show "\<bar>of_rat (valQ r) - ln (of_rat (valQ x)) / ln (1024 :: real)\<bar> \<le> 4 / 2 ^ 40"
    using close unfolding r(2) X_def [symmetric] of_rat_divide by linarith
qed

lemma power_1024: "exp (real k * ln 1024) = 1024 ^ k"
  by (simp add: exp_of_nat_mult)

lemma from_index:
  fixes X :: real
  assumes "1 \<le> X" "real k - 4 / 2 ^ 40 \<le> ln X / ln 1024" "ln X / ln 1024 \<le> real k + 1 + 4 / 2 ^ 40"
  shows "1024 ^ k * (1 - 1 / 10 ^ 10) \<le> X" "X \<le> 1024 ^ (k + 1) * (1 + 1 / 10 ^ 10)"
proof -
  define B where "B = ln (1024 :: real)"
  have B: "0 < B" "B \<le> 10" using ln_le_minus_one [of 2] by (simp_all add: B_def ln_1024)
  define e where "e = (4 / 2 ^ 40 :: real)"
  define u where "u = e * B"
  have u: "0 \<le> u" "u \<le> 40 / 2 ^ 40" using B by (simp_all add: u_def e_def)
  have "(real k - e) * B \<le> ln X" "ln X \<le> (real k + 1 + e) * B"
    using assms(2,3) B(1) unfolding B_def [symmetric] e_def [symmetric] by (simp_all add: pos_le_divide_eq pos_divide_le_eq)
  then have l: "real k * B - u \<le> ln X" "ln X \<le> real (k + 1) * B + u"
    by (simp_all add: u_def algebra_simps)
  have X: "exp (ln X) = X" using assms(1) by simp
  have "1 - u \<le> exp (- u)" using exp_ge_add_one_self [of "- u"] by simp
  moreover have "1 - 1 / 10 ^ 10 \<le> 1 - u" using u(2) by simp
  ultimately have "1024 ^ k * (1 - 1 / 10 ^ 10) \<le> 1024 ^ k * exp (- u)" by (intro mult_left_mono) simp_all
  also have "\<dots> = exp (real k * B - u)" unfolding B_def exp_diff power_1024 exp_minus by (simp add: field_simps)
  also have "\<dots> \<le> X" using l(1) X by (metis exp_le_cancel_iff)
  finally show "1024 ^ k * (1 - 1 / 10 ^ 10) \<le> X" .
  have "u \<le> 1" using u(2) by simp
  then have "exp u \<le> 1 + u + u\<^sup>2" using exp_bound u(1) by blast
  moreover have "u\<^sup>2 \<le> u" using u(1) \<open>u \<le> 1\<close> by (simp add: power2_eq_square mult_left_le)
  ultimately have "exp u \<le> 1 + 1 / 10 ^ 10" using u(2) by simp
  have "X \<le> exp (real (k + 1) * B + u)" using l(2) X by (metis exp_le_cancel_iff)
  also have "\<dots> = 1024 ^ (k + 1) * exp u" unfolding B_def exp_add power_1024 by simp
  also have "\<dots> \<le> 1024 ^ (k + 1) * (1 + 1 / 10 ^ 10)" using \<open>exp u \<le> 1 + 1 / 10 ^ 10\<close> by (intro mult_left_mono) simp_all
  finally show "X \<le> 1024 ^ (k + 1) * (1 + 1 / 10 ^ 10)" .
qed

subsection \<open>Theorems\<close>

lemma size_is_number: "0 < q \<Longrightarrow> wf_num (Fin q) \<Longrightarrow> parse_float (num_to_string (Fin q)) = Fin q"
proof -
  assume q: "0 < q" "wf_num (Fin q)"
  then have r: "representable q" by (simp add: wf_Fin del: wf_num.simps)
  have "number_end []" by (simp add: number_end_def)
  note p = pos_to_string_scan [OF r q(1) this] and sc = scan_number_to_string [OF q(2) _ this]
  have "trim_start (num_to_string (Fin q)) = num_to_string (Fin q)"
    using p(2,3) q(1) by (simp add: trim_start_id)
  then show ?thesis using sc by (simp add: parse_float_def unsigned_zero_def)
qed

definition log_sample :: "jsnum \<Rightarrow> jsnum" where
  "log_sample x = Fin (of_int \<lfloor>ln (of_rat (valQ x) :: real) * 2 ^ 40\<rfloor> / 2 ^ 40)"

lemma log_sample_accurate: "log_accurate log_sample"
proof -
  have "0 \<le> valQ (log_sample x) \<and> \<bar>of_rat (valQ (log_sample x)) - ln (of_rat (valQ x) :: real)\<bar> \<le> 1 / 2 ^ 40"
    if "1 \<le> valQ x" for x
  proof -
    define l where "l = ln (of_rat (valQ x) :: real)"
    have "0 \<le> l" using that of_rat_less_eq [of 1 "valQ x", where 'a = real] by (simp add: l_def)
    then have "0 \<le> \<lfloor>l * 2 ^ 40\<rfloor>" by simp
    moreover have "of_int \<lfloor>l * 2 ^ 40\<rfloor> \<le> l * 2 ^ 40" "l * 2 ^ 40 < of_int \<lfloor>l * 2 ^ 40\<rfloor> + 1" by simp_all
    then have "\<bar>of_int \<lfloor>l * 2 ^ 40\<rfloor> / 2 ^ 40 - l\<bar> \<le> 1 / 2 ^ 40" by (simp add: abs_le_iff field_simps)
    ultimately show ?thesis by (simp add: log_sample_def l_def [symmetric] of_rat_divide of_rat_power)
  qed
  then show ?thesis by (auto simp: log_accurate_def log_sample_def)
qed

definition pow_sample :: "jsnum \<Rightarrow> jsnum \<Rightarrow> jsnum" where
  "pow_sample b e = Fin (valQ b ^ nat \<lfloor>valQ e\<rfloor>)"

lemma pow_sample_exact: "pow_exact pow_sample"
  by (simp add: pow_exact_def pow_sample_def)

text \<open>The index: which power of 1024 it is, and what that says of the size.\<close>

lemma size_index:
  assumes "log_accurate math_log" "is_finite x" "1 \<le> valQ x" "valQ x \<le> 2 ^ 59"
  defines "r \<equiv> num_div (math_log x) (math_log (Fin 1024))"
  obtains k where "k < 6" "is_finite r" "of_int \<lfloor>valQ r\<rfloor> = (of_nat k :: rat)"
    "1024 ^ k * (1 - 1 / 10 ^ 10) \<le> valQ x" "valQ x \<le> 1024 ^ (k + 1) * (1 + 1 / 10 ^ 10)"
proof -
  define L where "L = ln (of_rat (valQ x)) / ln (1024 :: real)"
  have "(2 :: rat) ^ 0 \<le> valQ x" using assms(3) by simp
  note i = index_close [OF assms(1,2) this assms(4), folded r_def L_def]
  define k where "k = nat \<lfloor>valQ r\<rfloor>"
  have R: "0 \<le> valQ r" "\<bar>of_rat (valQ r) - L\<bar> \<le> 4 / 2 ^ 40" "L \<le> 59 / 10" and r: "is_finite r"
    using i by simp_all
  have k: "of_int \<lfloor>valQ r\<rfloor> = (of_nat k :: rat)" using R(1) by (simp add: k_def)
  have "of_nat k \<le> valQ r" "valQ r < of_nat k + 1" using floor_bounds [of "valQ r"] unfolding k by simp_all
  then have "of_rat (of_nat k) \<le> (of_rat (valQ r) :: real)" "of_rat (valQ r) < (of_rat (of_nat k + 1) :: real)"
    by (simp_all only: of_rat_less_eq of_rat_less)
  then have kR: "real k \<le> of_rat (valQ r)" "of_rat (valQ r) < real k + 1" by (simp_all add: of_rat_add)
  have "(4 / 2 ^ 40 :: real) < 1 / 10" by simp
  then have "real k < 6" using kR(1) R(2,3) by linarith
  then have k6: "k < 6" by simp
  define X where "X = (of_rat (valQ x) :: real)"
  have X: "1 \<le> X" using assms(3) of_rat_less_eq [of 1 "valQ x", where 'a = real] by (simp add: X_def)
  have "1024 ^ k * (1 - 1 / 10 ^ 10) \<le> X" "X \<le> 1024 ^ (k + 1) * (1 + 1 / 10 ^ 10)"
    using from_index [OF X, of k] R(2) kR unfolding L_def X_def [symmetric] by linarith+
  then have "of_rat (1024 ^ k * (1 - 1 / 10 ^ 10)) \<le> X" "X \<le> of_rat (1024 ^ (k + 1) * (1 + 1 / 10 ^ 10))"
    by (simp_all add: of_rat_mult of_rat_power of_rat_diff of_rat_add of_rat_divide)
  then have "1024 ^ k * (1 - 1 / 10 ^ 10) \<le> valQ x" "valQ x \<le> 1024 ^ (k + 1) * (1 + 1 / 10 ^ 10)"
    by (simp_all only: X_def of_rat_less_eq)
  with that k6 r k show thesis by blast
qed

text \<open>
  C34. The size of a file is printed with the right unit: for every size from one byte to half
  an exabyte the text is the size divided by a power of 1024 and the unit of that power, and
  the quotient lies between 1 and 1024, up to the accuracy of the logarithm. From two
  exabytes on there is no unit, and the text ends with the word \<open>undefined\<close>.
\<close>

theorem bytes_unit:
  assumes "log_accurate math_log" "pow_exact math_pow" "wf_num x" "is_finite x" "1 \<le> valQ x"
  shows "(valQ x \<le> 2 ^ 59 \<longrightarrow> (\<exists>k < length units.
      bytes_text math_log math_pow x (Some f) = to_fixed f (num_div x (Fin (1024 ^ k))) @ '' '' @ units ! k \<and>
      1024 ^ k * (1 - 1 / 10 ^ 10) \<le> valQ x \<and> valQ x \<le> 1024 ^ (k + 1) * (1 + 1 / 10 ^ 10))) \<and>
    (2 ^ 61 \<le> valQ x \<and> valQ x \<le> 2 ^ 70 \<longrightarrow>
      (\<exists>s. bytes_text math_log math_pow x (Some f) = s @ '' undefined''))"
proof (intro conjI impI)
  obtain q where x: "x = Fin q" "1 \<le> q" using assms(4,5) by (cases x) simp_all
  have num: "parse_float (num_to_string x) \<noteq> NaN" "\<not> num_eq x (Fin 0)"
    using size_is_number [of q] assms(3) x by (simp_all add: num_eq_def)
  define r where "r = num_div (math_log x) (math_log (Fin 1024))"
  have out: "bytes_text math_log math_pow x (Some f) =
      to_fixed f (num_div x (math_pow (Fin 1024) (math_floor (math_floor r)))) @ '' '' @ unit_text (math_floor r)"
    using num assms(4) by (simp add: bytes_text_def r_def Let_def)
  show "\<exists>k < length units. bytes_text math_log math_pow x (Some f) = to_fixed f (num_div x (Fin (1024 ^ k))) @ '' '' @ units ! k \<and>
      1024 ^ k * (1 - 1 / 10 ^ 10) \<le> valQ x \<and> valQ x \<le> 1024 ^ (k + 1) * (1 + 1 / 10 ^ 10)" if small: "valQ x \<le> 2 ^ 59"
  proof -
    obtain k where k: "k < 6" "is_finite r" "of_int \<lfloor>valQ r\<rfloor> = (of_nat k :: rat)"
        "1024 ^ k * (1 - 1 / 10 ^ 10) \<le> valQ x" "valQ x \<le> 1024 ^ (k + 1) * (1 + 1 / 10 ^ 10)"
      using size_index [OF assms(1,4,5) small] unfolding r_def by blast
    have "unit_text (math_floor r) = units ! k" using k(1-3) by (simp add: unit_text_def)
    moreover have "math_pow (Fin 1024) (math_floor (math_floor r)) = Fin (1024 ^ k)"
      using assms(2) k(1-3) by (simp add: pow_exact_def)
    ultimately show ?thesis using k(1,4,5) unfolding out by (intro exI [of _ k]) (simp add: units_def)
  qed
  show "\<exists>s. bytes_text math_log math_pow x (Some f) = s @ '' undefined''" if "2 ^ 61 \<le> valQ x \<and> valQ x \<le> 2 ^ 70"
  proof -
    note i = index_close [OF assms(1,4) conjunct1 [OF that] conjunct2 [OF that], folded r_def]
    have "(4 / 2 ^ 40 :: real) < 1 / 10" by simp
    then have "(6 :: real) \<le> of_rat (valQ r)" using i(3,4) by linarith
    then have "6 \<le> valQ r" using of_rat_less_eq [of 6 "valQ r", where 'a = real] by simp
    then have "\<not> of_int \<lfloor>valQ r\<rfloor> < (6 :: rat)" by (simp add: le_floor_iff not_less)
    then have "unit_text (math_floor r) = ''undefined''" using i(1) by (simp add: unit_text_def)
    then show ?thesis unfolding out by simp
  qed
qed

lemma bytes_unit_witness:
  "\<exists>k < length units. bytes_text log_sample pow_sample (Fin 500) (Some 1) = to_fixed 1 (num_div (Fin 500) (Fin (1024 ^ k))) @ '' '' @ units ! k \<and>
     1024 ^ k * (1 - 1 / 10 ^ 10) \<le> (500 :: rat) \<and> (500 :: rat) \<le> 1024 ^ (k + 1) * (1 + 1 / 10 ^ 10)"
  using bytes_unit [OF log_sample_accurate pow_sample_exact, of "Fin 500" 1] wf_small_int [of 500]
  by (simp del: wf_num.simps)

end
