(* ===== verification/Repository.thy ===== *)
theory Repository
  imports Service "HOL-Library.Sublist" "HOL-Library.Option_ord" "HOL-Library.Multiset"
begin

text \<open>
  The other side of the requests: \<open>QueryService.java\<close> and \<open>RepoFile.java\<close>, the service that
  runs the queries of the page and keeps the result files of each client in a folder of its
  own. A client id and a file name are one path component each. Downloads run in a pool of
  threads; the service is a step relation over their beginnings and ends, the requests of
  the clients and the hourly clean-up. The data of a file is its time and size.
\<close>

subsection \<open>State\<close>

record stored_file =
  folder :: string
  file_name :: string
  updated_at :: int
  file_size :: int

record job =
  job_client :: string
  job_file :: string
  job_url :: string
  started :: bool

record repository =
  folders :: "string set"
  repo_files :: "stored_file list"
  jobs :: "job list"

definition download_suffix :: string where
  "download_suffix = ''.download''"

definition file_expiry_ms :: int where
  "file_expiry_ms = 1000 * 60 * 60 * 4"

definition has_file :: "string \<Rightarrow> string \<Rightarrow> repository \<Rightarrow> bool" where
  "has_file c n s \<longleftrightarrow> (\<exists>f\<in>set (repo_files s). folder f = c \<and> file_name f = n)"

definition drop_file :: "string \<Rightarrow> string \<Rightarrow> repository \<Rightarrow> repository" where
  "drop_file c n s = s\<lparr>repo_files := filter (\<lambda>f. \<not> (folder f = c \<and> file_name f = n)) (repo_files s)\<rparr>"

definition put_file :: "stored_file \<Rightarrow> repository \<Rightarrow> repository" where
  "put_file f s = s\<lparr>repo_files := repo_files (drop_file (folder f) (file_name f) s) @ [f]\<rparr>"

text \<open>\<open>streamFile\<close> finds a file to be sent; \<open>None\<close> is the status 404.\<close>

definition streamFile :: "string \<Rightarrow> string \<Rightarrow> repository \<Rightarrow> stored_file option" where
  "streamFile c n s = List.find (\<lambda>f. folder f = c \<and> file_name f = n) (repo_files s)"

subsection \<open>The entry of a file (\<open>RepoFile\<close>)\<close>

record repo_info =
  info_name :: string
  info_path :: string
  info_updated :: "int option"
  info_size :: "int option"
  info_complete :: bool

text \<open>The order of entries: by time, those without a time first.\<close>

definition compareTo :: "('a repo_info_scheme) \<Rightarrow> ('a repo_info_scheme) \<Rightarrow> int" where
  "compareTo a b =
     (if info_updated a = None \<and> info_updated b = None then 0
      else if info_updated a = None then - 1
      else if info_updated b = None then 1
      else sgn (the (info_updated a) - the (info_updated b)))"

instantiation repo_info_ext :: (type) preorder
begin

definition less_eq_repo_info_ext :: "'a repo_info_ext \<Rightarrow> 'a repo_info_ext \<Rightarrow> bool" where
  "less_eq_repo_info_ext a b \<longleftrightarrow> compareTo a b \<le> 0"

definition less_repo_info_ext :: "'a repo_info_ext \<Rightarrow> 'a repo_info_ext \<Rightarrow> bool" where
  "less_repo_info_ext a b \<longleftrightarrow> compareTo a b < 0"

instance
  by standard (auto simp: less_eq_repo_info_ext_def less_repo_info_ext_def compareTo_def sgn_if split: if_splits)

end

lemma info_le_iff: "a \<le> b \<longleftrightarrow> info_updated a \<le> info_updated b" for a b :: "'a repo_info_scheme"
  by (cases "info_updated a"; cases "info_updated b") (auto simp: less_eq_repo_info_ext_def compareTo_def sgn_if)

subsection \<open>Requests\<close>

text \<open>What \<open>contains\<close> finds in the address decides the type of the result.\<close>

definition fileType :: "string \<Rightarrow> string" where
  "fileType url =
     (if sublist ''OUTPUT_TO_KML'' url then ''.kml''
      else if sublist ''OUTPUT_TO_HTML'' url then ''.html''
      else if sublist ''table'' url then ''.csv''
      else if sublist ''json'' url then ''.json''
      else ''.txt'')"

text \<open>
  \<open>executeQuery\<close> makes the folder and an empty file whose name is the date \<open>stamp\<close>, a number
  \<open>num\<close> that the library chooses so that the file is new, the type and the suffix, and
  queues the download. The entry it returns never says that the file is complete; the
  synchronous form, \<open>sync_answer\<close> below, waits for the end of the job before it returns.
\<close>

definition executeQuery :: "string \<Rightarrow> int \<Rightarrow> string \<Rightarrow> string \<Rightarrow> string \<Rightarrow> string \<Rightarrow> repository \<Rightarrow> repo_info \<times> repository" where
  "executeQuery view_url now stamp num client_id params s =
     (let url = view_url @ params;
          s = s\<lparr>folders := insert client_id (folders s)\<rparr>;
          n = stamp @ num @ fileType url @ download_suffix;
          s = put_file \<lparr>folder = client_id, file_name = n, updated_at = now, file_size = 0\<rparr> s;
          s = s\<lparr>jobs := jobs s @ [\<lparr>job_client = client_id, job_file = n, job_url = url, started = False\<rparr>]\<rparr>
      in (\<lparr>info_name = n, info_path = client_id @ ''/'' @ n, info_updated = Some now, info_size = Some 0, info_complete = False\<rparr>, s))"

text \<open>The name without the suffix, and the name of the file that reports an error.\<close>

definition result_name :: "string \<Rightarrow> string" where
  "result_name n = take (length n - length download_suffix) n"

definition error_name :: "string \<Rightarrow> string" where
  "error_name n = result_name n @ ''.err.txt''"

text \<open>
  The file that a job returns at its end, and the answer to a synchronous query, which names
  that file; \<open>None\<close> is an exception while waiting.
\<close>

definition job_result :: "bool \<Rightarrow> string \<Rightarrow> string" where
  "job_result ok n = (if ok then result_name n else error_name n)"

definition sync_answer :: "string \<Rightarrow> string option \<Rightarrow> repo_info \<Rightarrow> repo_info" where
  "sync_answer client_id result vo =
     (case result of
        None \<Rightarrow> vo
      | Some m \<Rightarrow> vo\<lparr>info_name := m, info_path := client_id @ ''/'' @ m\<rparr>)"

text \<open>
  \<open>asyncLoadFile\<close>: a thread takes the job and opens the file for writing, which makes or
  empties it if its folder is there; then it writes what comes. The end of a good download
  moves the file to its name without suffix, if it is still there and that name is free;
  otherwise the error is logged. The end of a bad one, at whatever point, deletes it and
  writes a report, if the folder is there. \<open>j\<close> is the position of the job.
\<close>

definition remove_job :: "nat \<Rightarrow> repository \<Rightarrow> repository" where
  "remove_job j s = s\<lparr>jobs := take j (jobs s) @ drop (Suc j) (jobs s)\<rparr>"

definition fail_job :: "int \<Rightarrow> int \<Rightarrow> nat \<Rightarrow> repository \<Rightarrow> repository" where
  "fail_job now sz j s =
     (let c = job_client (jobs s ! j); n = job_file (jobs s ! j);
          s = drop_file c n (remove_job j s)
      in if c \<in> folders s then put_file \<lparr>folder = c, file_name = error_name n, updated_at = now, file_size = sz\<rparr> s else s)"

definition start_job :: "int \<Rightarrow> nat \<Rightarrow> repository \<Rightarrow> repository" where
  "start_job now j s =
     (let c = job_client (jobs s ! j); n = job_file (jobs s ! j)
      in if c \<in> folders s
         then put_file \<lparr>folder = c, file_name = n, updated_at = now, file_size = 0\<rparr> (s\<lparr>jobs := (jobs s)[j := (jobs s ! j)\<lparr>started := True\<rparr>]\<rparr>)
         else fail_job now 0 j s)"

definition progress_job :: "int \<Rightarrow> int \<Rightarrow> nat \<Rightarrow> repository \<Rightarrow> repository" where
  "progress_job now sz j s =
     (let c = job_client (jobs s ! j); n = job_file (jobs s ! j)
      in if has_file c n s then put_file \<lparr>folder = c, file_name = n, updated_at = now, file_size = sz\<rparr> s else s)"

definition move_file :: "string \<Rightarrow> string \<Rightarrow> string \<Rightarrow> repository \<Rightarrow> repository" where
  "move_file c n m s =
     (case streamFile c n s of
        None \<Rightarrow> s
      | Some f \<Rightarrow> if has_file c m s then s else put_file (f\<lparr>folder := c, file_name := m\<rparr>) (drop_file c n s))"

definition finish_job :: "nat \<Rightarrow> repository \<Rightarrow> repository" where
  "finish_job j s =
     (let c = job_client (jobs s ! j); n = job_file (jobs s ! j)
      in move_file c n (result_name n) (remove_job j s))"

text \<open>Deleting; \<open>None\<close> is the status 404.\<close>

definition delete_file :: "string \<Rightarrow> string \<Rightarrow> repository \<Rightarrow> repository option" where
  "delete_file c n s = (if has_file c n s then Some (drop_file c n s) else None)"

definition delete_files :: "string \<Rightarrow> repository \<Rightarrow> repository option" where
  "delete_files c s = (if c \<notin> folders s then None else Some (s\<lparr>repo_files := filter (\<lambda>f. folder f \<noteq> c) (repo_files s)\<rparr>))"

definition file_info :: "stored_file \<Rightarrow> repo_info" where
  "file_info f = \<lparr>info_name = file_name f, info_path = folder f @ ''/'' @ file_name f, info_updated = Some (updated_at f),
     info_size = Some (file_size f), info_complete = \<not> suffix download_suffix (file_name f)\<rparr>"

definition list_files :: "string \<Rightarrow> repository \<Rightarrow> repo_info list" where
  "list_files c s =
     (if c \<in> folders s
      then sort_key info_updated (map file_info (filter (\<lambda>f. folder f = c \<and> \<not> prefix ''.'' (file_name f)) (repo_files s)))
      else [])"

text \<open>\<open>validateFilter\<close>: \<open>accepts\<close> is the parser of the filter library.\<close>

definition validate_filter :: "(string \<Rightarrow> bool) \<Rightarrow> string \<Rightarrow> bool" where
  "validate_filter accepts flt = (if flt = [] then True else accepts flt)"

text \<open>The hourly clean-up: old files go, then folders without a file.\<close>

definition cleanUpRepoFolder :: "int \<Rightarrow> repository \<Rightarrow> repository" where
  "cleanUpRepoFolder now s =
     (let expired = now - file_expiry_ms;
          fs = filter (\<lambda>f. \<not> updated_at f < expired) (repo_files s)
      in s\<lparr>repo_files := fs, folders := {c \<in> folders s. c \<in> folder ` set fs}\<rparr>)"

subsection \<open>Steps\<close>

text \<open>The number in a new name is new: no file and no job of the client has it.\<close>

definition fresh_name :: "string \<Rightarrow> string \<Rightarrow> repository \<Rightarrow> bool" where
  "fresh_name c n s \<longleftrightarrow> \<not> has_file c n s \<and> \<not> has_file c (result_name n) s \<and>
     (\<forall>j\<in>set (jobs s). \<not> (job_client j = c \<and> job_file j = n))"

definition number_text :: "string \<Rightarrow> bool" where
  "number_text r \<longleftrightarrow> r \<noteq> [] \<and> (\<forall>c\<in>set r. is_digit c)"

inductive repo_step :: "string \<Rightarrow> repository \<Rightarrow> repository \<Rightarrow> bool" for view_url :: string where
  execute: "number_text num \<Longrightarrow> fresh_name c (stamp @ num @ fileType (view_url @ ps) @ download_suffix) s \<Longrightarrow>
    repo_step view_url s (snd (executeQuery view_url now stamp num c ps s))"
| start: "j < length (jobs s) \<Longrightarrow> \<not> started (jobs s ! j) \<Longrightarrow> repo_step view_url s (start_job now j s)"
| progress: "j < length (jobs s) \<Longrightarrow> started (jobs s ! j) \<Longrightarrow> repo_step view_url s (progress_job now sz j s)"
| finish: "j < length (jobs s) \<Longrightarrow> started (jobs s ! j) \<Longrightarrow> repo_step view_url s (finish_job j s)"
| fail: "j < length (jobs s) \<Longrightarrow> repo_step view_url s (fail_job now sz j s)"
| delete: "delete_file c n s = Some t \<Longrightarrow> repo_step view_url s t"
| delete_all: "delete_files c s = Some t \<Longrightarrow> repo_step view_url s t"
| clean_up: "repo_step view_url s (cleanUpRepoFolder now s)"

inductive_cases repo_stepE: "repo_step view_url s t"

text \<open>
  \<open>init\<close>: the service makes its root folder if it is not there, and keeps what is in it if it
  is: \<open>disk\<close> has the folders of the clients and their files, as an earlier run of the service
  left them, its unfinished downloads included. No job outlives its service.
\<close>

definition init_service :: "(string set \<times> stored_file list) option \<Rightarrow> repository" where
  "init_service disk =
     (case disk of
        None \<Rightarrow> \<lparr>folders = {}, repo_files = [], jobs = []\<rparr>
      | Some (dirs, fs) \<Rightarrow> \<lparr>folders = dirs, repo_files = fs, jobs = []\<rparr>)"

text \<open>A file lies in a folder.\<close>

definition disk_ok :: "(string set \<times> stored_file list) option \<Rightarrow> bool" where
  "disk_ok disk = (case disk of None \<Rightarrow> True | Some (dirs, fs) \<Rightarrow> \<forall>f\<in>set fs. folder f \<in> dirs)"

text \<open>The first start, with no root folder.\<close>

definition empty_repository :: repository where
  "empty_repository = init_service None"

lemma empty_repository_simp: "empty_repository = \<lparr>folders = {}, repo_files = [], jobs = []\<rparr>"
  by (simp add: empty_repository_def init_service_def)

subsection \<open>Files\<close>

definition key :: "stored_file \<Rightarrow> string \<times> string" where
  "key f = (folder f, file_name f)"

definition file_keys :: "repository \<Rightarrow> (string \<times> string) set" where
  "file_keys s = key ` set (repo_files s)"

definition job_keys :: "repository \<Rightarrow> (string \<times> string) set" where
  "job_keys s = (\<lambda>j. (job_client j, job_file j)) ` set (jobs s)"

lemma has_file_key: "has_file c n s \<longleftrightarrow> (c, n) \<in> file_keys s"
  by (force simp: has_file_def file_keys_def key_def)

lemma streamFile_none: "streamFile c n s = None \<longleftrightarrow> (c, n) \<notin> file_keys s"
  by (auto simp: streamFile_def find_None_iff simp flip: has_file_key) (auto simp: has_file_def)

lemma file_keys_ops [simp]:
  "file_keys (drop_file c n s) = file_keys s - {(c, n)}"
  "file_keys (put_file f s) = insert (key f) (file_keys s)"
  "file_keys (remove_job j s) = file_keys s" "file_keys (jobs_update g s) = file_keys s"
  "file_keys (folders_update h s) = file_keys s"
  by (auto simp: file_keys_def drop_file_def put_file_def key_def remove_job_def)

lemma job_ops [simp]:
  "jobs (drop_file c n s) = jobs s" "jobs (put_file f s) = jobs s" "job_keys (drop_file c n s) = job_keys s"
  "job_keys (put_file f s) = job_keys s" "folders (drop_file c n s) = folders s" "folders (put_file f s) = folders s"
  "folders (remove_job j s) = folders s" "job_keys (folders_update h s) = job_keys s"
  by (simp_all add: drop_file_def put_file_def job_keys_def remove_job_def)

text \<open>The files of the other clients.\<close>

definition others :: "string \<Rightarrow> repository \<Rightarrow> stored_file list" where
  "others c s = filter (\<lambda>f. folder f \<noteq> c) (repo_files s)"

lemma others_ops [simp]:
  "others c (drop_file c n s) = others c s" "folder f = c \<Longrightarrow> others c (put_file f s) = others c s"
  "others c (remove_job j s) = others c s" "others c (jobs_update g s) = others c s" "others c (folders_update h s) = others c s"
  by (auto simp: others_def drop_file_def put_file_def remove_job_def intro: filter_cong)

text \<open>
  C40. Clients do not touch each other's files: whatever a client asks for, and whatever
  becomes of its downloads, the files in the folders of all other clients stay as they are,
  in time, size and order; and a client lists only files of its own folder.
\<close>

theorem clients_isolated:
  "others c (snd (executeQuery view_url now stamp num c ps s)) = others c s \<and>
   (job_client (jobs s ! j) = c \<longrightarrow>
      others c (start_job now j s) = others c s \<and> others c (progress_job now sz j s) = others c s \<and> others c (finish_job j s) = others c s \<and>
      others c (fail_job now sz j s) = others c s) \<and>
   (delete_file c n s = Some t \<longrightarrow> others c t = others c s) \<and>
   (delete_files c s = Some t \<longrightarrow> others c t = others c s) \<and>
   set (list_files c s) \<subseteq> file_info ` {f \<in> set (repo_files s). folder f = c}"
proof -
  have "others c (fail_job now sz j s) = others c s" if "job_client (jobs s ! j) = c" for now sz
    using that by (simp add: fail_job_def Let_def)
  moreover have "others c t = others c s" if "delete_files c s = Some t"
    using that by (auto simp: delete_files_def others_def split: if_splits)
  ultimately show ?thesis
    by (auto simp: executeQuery_def start_job_def progress_job_def finish_job_def move_file_def delete_file_def list_files_def Let_def split: if_splits option.split)
qed

lemma clients_isolated_witness:
  "others ''a'' (the (delete_files ''a'' \<lparr>folders = {''a''}, repo_files = [\<lparr>folder = ''b'', file_name = ''f'', updated_at = 1, file_size = 2\<rparr>], jobs = []\<rparr>)) =
     [\<lparr>folder = ''b'', file_name = ''f'', updated_at = 1, file_size = 2\<rparr>]"
proof -
  let ?s = "\<lparr>folders = {''a''}, repo_files = [\<lparr>folder = ''b'', file_name = ''f'', updated_at = 1, file_size = 2\<rparr>], jobs = []\<rparr>"
  have "delete_files ''a'' ?s = Some (the (delete_files ''a'' ?s))" by (simp add: delete_files_def)
  then have "others ''a'' (the (delete_files ''a'' ?s)) = others ''a'' ?s"
    using clients_isolated [of "''a''" "[]" 0 "[]" "[]" "[]" ?s] by blast
  then show ?thesis by (simp add: others_def)
qed

subsection \<open>Names\<close>

definition file_types :: "string list" where
  "file_types = [''.kml'', ''.html'', ''.csv'', ''.json'', ''.txt'']"

lemma fileType_types: "fileType url \<in> set file_types"
  by (simp add: fileType_def file_types_def)

text \<open>The name of a job: something that ends in a digit, a type, and the suffix.\<close>

definition job_shape :: "string \<Rightarrow> bool" where
  "job_shape n \<longleftrightarrow> (\<exists>b d t. n = (b @ [d] @ t) @ download_suffix \<and> is_digit d \<and> t \<in> set file_types)"

lemma result_name_append [simp]: "result_name (x @ download_suffix) = x"
  by (simp add: result_name_def)

lemma last_suffix: "suffix download_suffix n \<Longrightarrow> last n = CHR ''d''"
  by (auto simp: suffix_def download_suffix_def)

lemma last_type: "t \<in> set file_types \<Longrightarrow> last (b @ [d] @ t) \<noteq> CHR ''d'' \<and> (last (b @ [d] @ t) = CHR ''t'' \<longrightarrow> t = ''.txt'')"
  by (auto simp: file_types_def)

lemma job_shape_facts:
  assumes "job_shape n"
  shows "n = result_name n @ download_suffix" "\<not> suffix download_suffix (result_name n)"
    "\<not> suffix download_suffix (error_name m)" "result_name n \<noteq> error_name m"
proof -
  obtain b d t where n: "n = (b @ [d] @ t) @ download_suffix" "is_digit d" "t \<in> set file_types"
    using assms by (auto simp only: job_shape_def)
  have r: "result_name n = b @ [d] @ t" unfolding n(1) by (rule result_name_append)
  show "n = result_name n @ download_suffix" unfolding r by (rule n(1))
  show "\<not> suffix download_suffix (result_name n)" unfolding r using last_type [OF n(3)] last_suffix by blast
  show "\<not> suffix download_suffix (error_name m)" using last_suffix [of "error_name m"] by (auto simp: error_name_def)
  show "result_name n \<noteq> error_name m"
  proof
    assume e: "result_name n = error_name m"
    then have "last (b @ [d] @ t) = CHR ''t''" unfolding r by (simp add: error_name_def)
    then have "t = ''.txt''" using last_type [OF n(3)] by blast
    then have "(b @ [d]) @ ''.txt'' = (result_name m @ ''.err'') @ ''.txt''" using e unfolding r by (simp add: error_name_def)
    then have "b @ [d] = result_name m @ ''.err''" by (simp only: append_same_eq)
    then have "last (b @ [d]) = last (result_name m @ ''.err'')" by (simp only:)
    then have "d = CHR ''r''" by simp
    with n(2) show False by (simp add: is_digit_def)
  qed
qed

subsection \<open>An incomplete file is being loaded, or was left by an earlier run\<close>

definition jkey :: "job \<Rightarrow> string \<times> string" where
  "jkey j = (job_client j, job_file j)"

definition repo_inv :: "(string \<times> string) set \<Rightarrow> repository \<Rightarrow> bool" where
  "repo_inv L s \<longleftrightarrow> (\<forall>j\<in>set (jobs s). job_shape (job_file j)) \<and> distinct (map jkey (jobs s)) \<and>
     (\<forall>k\<in>file_keys s. suffix download_suffix (snd k) \<longrightarrow> k \<in> L \<or> k \<in> jkey ` set (jobs s)) \<and>
     (\<forall>j\<in>set (jobs s). (job_client j, result_name (job_file j)) \<notin> file_keys s)"

lemma jobs_remove:
  assumes "j < length (jobs s)"
  shows "jobs s = take j (jobs s) @ jobs s ! j # drop (Suc j) (jobs s)"
    and "jobs (remove_job j s) = take j (jobs s) @ drop (Suc j) (jobs s)"
  using assms by (simp_all add: remove_job_def id_take_nth_drop)

text \<open>A job ends: it goes, its file goes, and at most one file with another name comes.\<close>

lemma job_ends:
  assumes inv: "repo_inv L s" and j: "j < length (jobs s)"
    and t: "jobs t = jobs (remove_job j s)" "file_keys t \<subseteq> insert (c, m) (file_keys s - {jkey (jobs s ! j)})"
    and m: "\<not> suffix download_suffix m"
    and free: "\<And>i. i \<in> set (jobs (remove_job j s)) \<Longrightarrow> (job_client i, result_name (job_file i)) \<noteq> (c, m)"
  shows "repo_inv L t"
proof -
  let ?k = "jkey (jobs s ! j)" and ?js = "take j (jobs s) @ drop (Suc j) (jobs s)"
  have js: "jobs t = ?js" using t(1) jobs_remove(2) [OF j] by simp
  have "distinct (map jkey (take j (jobs s) @ jobs s ! j # drop (Suc j) (jobs s)))"
    using inv jobs_remove(1) [OF j] by (simp add: repo_inv_def)
  then have d: "distinct (map jkey ?js)" by simp
  have sub: "set (jobs s) = insert (jobs s ! j) (set ?js)"
    by (subst jobs_remove(1) [OF j]) auto
  have "k \<in> L \<or> k \<in> jkey ` set ?js" if "k \<in> file_keys t" "suffix download_suffix (snd k)" for k
  proof -
    have "k \<in> file_keys s" "k \<noteq> ?k" using that t(2) m by auto
    then have "k \<in> L \<or> k \<in> jkey ` set (jobs s)" using inv that(2) by (simp add: repo_inv_def)
    with \<open>k \<noteq> ?k\<close> show ?thesis unfolding sub by auto
  qed
  moreover have "(job_client i, result_name (job_file i)) \<notin> file_keys t" if "i \<in> set ?js" for i
    using that free [of i] t(2) inv sub jobs_remove(2) [OF j] by (auto simp: repo_inv_def)
  moreover have "\<forall>i\<in>set ?js. job_shape (job_file i)" using inv sub by (auto simp: repo_inv_def)
  ultimately show ?thesis using d unfolding repo_inv_def js by blast
qed

lemma fail_inv: "repo_inv L s \<Longrightarrow> j < length (jobs s) \<Longrightarrow> repo_inv L (fail_job now sz j s)"
proof -
  assume inv: "repo_inv L s" and j: "j < length (jobs s)"
  let ?c = "job_client (jobs s ! j)" and ?n = "job_file (jobs s ! j)"
  have sh: "job_shape (job_file i)" if "i \<in> set (jobs (remove_job j s))" for i
  proof -
    have "i \<in> set (jobs s)" using that jobs_remove(2) [OF j] by (auto dest: in_set_takeD in_set_dropD)
    with inv show ?thesis by (simp add: repo_inv_def)
  qed
  have n: "job_shape ?n" using inv j by (simp add: repo_inv_def)
  show ?thesis
    by (rule job_ends [OF inv j, of _ ?c "error_name ?n"])
      (use job_shape_facts(3) [OF n] job_shape_facts(4) [OF sh] in \<open>auto simp: fail_job_def Let_def key_def jkey_def\<close>)
qed

lemma finish_inv: "repo_inv L s \<Longrightarrow> j < length (jobs s) \<Longrightarrow> repo_inv L (finish_job j s)"
proof -
  assume inv: "repo_inv L s" and j: "j < length (jobs s)"
  let ?c = "job_client (jobs s ! j)" and ?n = "job_file (jobs s ! j)"
  have n: "job_shape ?n" using inv j by (simp add: repo_inv_def)
  have free: "\<not> has_file ?c (result_name ?n) (remove_job j s)" using inv j by (simp add: repo_inv_def has_file_key)
  have "(job_client i, result_name (job_file i)) \<noteq> (?c, result_name ?n)" if i: "i \<in> set (jobs (remove_job j s))" for i
  proof
    assume e: "(job_client i, result_name (job_file i)) = (?c, result_name ?n)"
    have "i \<in> set (jobs s)" using i jobs_remove(2) [OF j] by (auto dest: in_set_takeD in_set_dropD)
    then have "job_shape (job_file i)" using inv by (simp add: repo_inv_def)
    with e n have "jkey i = jkey (jobs s ! j)" using job_shape_facts(1) [of ?n] job_shape_facts(1) [of "job_file i"]
      by (simp add: jkey_def)
    moreover have "distinct (map jkey (take j (jobs s) @ jobs s ! j # drop (Suc j) (jobs s)))"
      using inv jobs_remove(1) [OF j] by (simp add: repo_inv_def)
    ultimately show False using i jobs_remove(2) [OF j] by (auto simp: image_iff)
  qed
  then show ?thesis
    by (intro job_ends [OF inv j, of _ ?c "result_name ?n"])
      (use free job_shape_facts(2) [OF n] streamFile_none [of ?c ?n "remove_job j s"] in
        \<open>auto simp: finish_job_def move_file_def Let_def key_def jkey_def has_file_key split: option.splits\<close>)
qed

lemma start_inv:
  assumes inv: "repo_inv L s" and j: "j < length (jobs s)"
  shows "repo_inv L (start_job now j s)"
proof (cases "job_client (jobs s ! j) \<in> folders s")
  case True
  let ?js = "(jobs s)[j := (jobs s ! j)\<lparr>started := True\<rparr>]"
  have k: "map g ?js = map g (jobs s)" if "\<And>i b. g (i\<lparr>started := b\<rparr>) = g i" for g :: "job \<Rightarrow> string \<times> string"
    using that j by (simp add: map_update list_update_same_conv)
  have "map jkey ?js = map jkey (jobs s)" by (rule k) (simp add: jkey_def)
  moreover from this have "jkey ` set ?js = jkey ` set (jobs s)" by (metis set_map)
  moreover have "(job_client i, job_file i) \<in> jkey ` set (jobs s)" if "i \<in> set ?js" for i
    using that \<open>jkey ` set ?js = jkey ` set (jobs s)\<close> by (auto simp: jkey_def)
  then have "\<exists>i'\<in>set (jobs s). job_client i' = job_client i \<and> job_file i' = job_file i" if "i \<in> set ?js" for i
    using that by (force simp: jkey_def)
  moreover have "jkey (jobs s ! j) \<in> jkey ` set (jobs s)" using j by simp
  moreover have "(job_client i, result_name (job_file i)) \<noteq> jkey (jobs s ! j)" if "i \<in> set (jobs s)" for i
  proof
    assume e: "(job_client i, result_name (job_file i)) = jkey (jobs s ! j)"
    have "job_shape (job_file i)" "job_shape (job_file (jobs s ! j))" using inv that j by (simp_all add: repo_inv_def)
    with e show False using job_shape_facts(1) [of "job_file (jobs s ! j)"] job_shape_facts(2) [of "job_file i"]
      by (metis jkey_def prod.inject suffix_def)
  qed
  ultimately show ?thesis
    using inv True unfolding repo_inv_def start_job_def Let_def
    by (simp add: key_def jkey_def [symmetric]) (metis (no_types, lifting) jkey_def)
next
  case False
  then show ?thesis using fail_inv [OF inv j] by (simp add: start_job_def Let_def)
qed

lemma fewer_inv: "repo_inv L s \<Longrightarrow> file_keys t \<subseteq> file_keys s \<Longrightarrow> jobs t = jobs s \<Longrightarrow> repo_inv L t"
  by (auto simp: repo_inv_def)

lemma job_name_shape:
  assumes "number_text num"
  shows "job_shape (stamp @ num @ fileType url @ download_suffix)"
proof -
  have "num = butlast num @ [last num]" "is_digit (last num)" using assms by (simp_all add: number_text_def)
  then have "stamp @ num @ fileType url @ download_suffix = ((stamp @ butlast num) @ [last num] @ fileType url) @ download_suffix"
    by (metis append_assoc)
  with \<open>is_digit (last num)\<close> fileType_types [of url] show ?thesis unfolding job_shape_def by blast
qed

lemma execute_inv:
  assumes inv: "repo_inv L s" and num: "number_text num"
    and fresh: "fresh_name c (stamp @ num @ fileType (view_url @ ps) @ download_suffix) s"
  shows "repo_inv L (snd (executeQuery view_url now stamp num c ps s))"
proof -
  define n where "n = stamp @ num @ fileType (view_url @ ps) @ download_suffix"
  define t where "t = snd (executeQuery view_url now stamp num c ps s)"
  have t: "file_keys t = insert (c, n) (file_keys s)"
    "jobs t = jobs s @ [\<lparr>job_client = c, job_file = n, job_url = view_url @ ps, started = False\<rparr>]"
    by (simp_all add: t_def n_def executeQuery_def Let_def key_def)
  have n: "job_shape n" unfolding n_def by (rule job_name_shape [OF num])
  have f: "(c, n) \<notin> file_keys s" "(c, result_name n) \<notin> file_keys s" "(c, n) \<notin> jkey ` set (jobs s)"
    using fresh by (auto simp: fresh_name_def has_file_key jkey_def simp flip: n_def)
  have r: "result_name m \<noteq> n" if "job_shape m" for m
    using job_shape_facts(1) [OF n] job_shape_facts(2) [OF that] by (metis suffix_def)
  show ?thesis
    using inv f n r unfolding t_def [symmetric] repo_inv_def t by (auto simp: jkey_def)
qed

lemma progress_inv: "repo_inv L s \<Longrightarrow> repo_inv L (progress_job now sz j s)"
  by (auto simp: progress_job_def Let_def has_file_key key_def intro: fewer_inv)

lemma repo_step_inv: "repo_step view_url s t \<Longrightarrow> repo_inv L s \<Longrightarrow> repo_inv L t"
proof (erule repo_stepE)
  fix c n assume "repo_inv L s" "delete_file c n s = Some t"
  then show "repo_inv L t" by (auto simp: delete_file_def intro: fewer_inv split: if_splits)
next
  fix c assume "repo_inv L s" "delete_files c s = Some t"
  then show "repo_inv L t" by (auto simp: delete_files_def file_keys_def intro!: fewer_inv [where s = s] split: if_splits)
next
  fix now assume "repo_inv L s" "t = cleanUpRepoFolder now s"
  then show "repo_inv L t" by (auto simp: cleanUpRepoFolder_def file_keys_def Let_def intro!: fewer_inv [where s = s])
qed (simp_all add: execute_inv start_inv progress_inv fail_inv finish_inv)

text \<open>The unfinished downloads that the service found when it started.\<close>

definition leftovers :: "(string set \<times> stored_file list) option \<Rightarrow> (string \<times> string) set" where
  "leftovers disk = {k \<in> file_keys (init_service disk). suffix download_suffix (snd k)}"

lemma init_jobs [simp]: "jobs (init_service disk) = []"
  by (simp add: init_service_def split: option.split)

lemma no_leftovers [simp]: "leftovers None = {}"
  by (simp add: leftovers_def init_service_def file_keys_def)

lemma repo_reachable_inv: "(repo_step view_url)\<^sup>*\<^sup>* (init_service disk) s \<Longrightarrow> repo_inv (leftovers disk) s"
proof (induction rule: rtranclp_induct)
  case base
  show ?case by (simp add: repo_inv_def leftovers_def)
next
  case (step s t)
  then show ?case using repo_step_inv by blast
qed

subsection \<open>What a client sees\<close>

lemma list_files_set: "c \<in> folders s \<Longrightarrow> set (list_files c s) = file_info ` {f \<in> set (repo_files s). folder f = c \<and> \<not> prefix ''.'' (file_name f)}"
  by (auto simp: list_files_def)

lemma listed_file:
  assumes "i \<in> set (list_files c s)"
  obtains f where "f \<in> set (repo_files s)" "folder f = c" "i = file_info f" "\<not> prefix ''.'' (file_name f)" "c \<in> folders s"
  using assms by (auto simp: list_files_def split: if_splits)

lemma incomplete_has_job:
  assumes "repo_inv L s" "i \<in> set (list_files c s)" "\<not> info_complete i"
  shows "(c, info_name i) \<in> L \<or> (c, info_name i) \<in> jkey ` set (jobs s)"
proof -
  obtain f where f: "f \<in> set (repo_files s)" "folder f = c" "i = file_info f" using listed_file [OF assms(2)] by blast
  then have "(c, info_name i) \<in> file_keys s" "suffix download_suffix (info_name i)"
    using assms(3) by (auto simp: file_info_def file_keys_def key_def)
  then show ?thesis using assms(1) by (auto simp: repo_inv_def)
qed

text \<open>
  C39. Whatever the service found in its root folder when it started, the list of a client is in
  the order of the times of its files and has every visible file of its folder exactly as often
  as it is there; and a file it shows as incomplete is being loaded, that is there is a job of
  this client for it, or it was already there unfinished when the service started: a
  download that an earlier run of the service did not end. On a root folder that was not there
  before there are none of these.
\<close>

theorem listing_in_order_and_live:
  assumes "(repo_step view_url)\<^sup>*\<^sup>* (init_service disk) s"
  shows "sorted_wrt (\<le>) (list_files c s) \<and>
    (c \<in> folders s \<longrightarrow> mset (list_files c s) =
       image_mset file_info (mset (filter (\<lambda>f. folder f = c \<and> \<not> prefix ''.'' (file_name f)) (repo_files s)))) \<and>
    (\<forall>i\<in>set (list_files c s). \<not> info_complete i \<longrightarrow>
      (\<exists>j\<in>set (jobs s). job_client j = c \<and> job_file j = info_name i) \<or> (c, info_name i) \<in> leftovers disk) \<and>
    (disk = None \<longrightarrow> leftovers disk = {})"
proof (intro conjI impI ballI)
  have "sorted (map info_updated (list_files c s))" by (simp add: list_files_def)
  then have "sorted_wrt (\<lambda>x y. info_updated x \<le> info_updated y) (list_files c s)" by (simp add: sorted_wrt_map)
  moreover have "(\<lambda>x y :: repo_info. info_updated x \<le> info_updated y) = (\<le>)" by (intro ext) (simp add: info_le_iff)
  ultimately show "sorted_wrt (\<le>) (list_files c s)" by simp
next
  fix i assume "i \<in> set (list_files c s)" "\<not> info_complete i"
  from incomplete_has_job [OF repo_reachable_inv [OF assms] this]
  show "(\<exists>j\<in>set (jobs s). job_client j = c \<and> job_file j = info_name i) \<or> (c, info_name i) \<in> leftovers disk"
    by (auto simp: jkey_def)
qed (simp_all add: list_files_def)

definition one_job :: repository where
  "one_job = snd (executeQuery ''u?'' 0 ''d '' ''7'' ''a'' ''output=table'' empty_repository)"

lemma one_job_reachable: "(repo_step ''u?'')\<^sup>*\<^sup>* empty_repository one_job"
proof -
  have "repo_step ''u?'' empty_repository one_job" unfolding one_job_def
    by (rule repo_step.execute) (simp_all add: number_text_def is_digit_def fresh_name_def has_file_def empty_repository_simp)
  then show ?thesis by blast
qed

lemma listing_in_order_and_live_witness:
  "\<exists>j\<in>set (jobs one_job). job_client j = ''a'' \<and> job_file j = ''d 7.csv.download''"
proof -
  have "list_files ''a'' one_job = [\<lparr>info_name = ''d 7.csv.download'', info_path = ''a/d 7.csv.download'', info_updated = Some 0,
      info_size = Some 0, info_complete = False\<rparr>]"
    by code_simp
  then show ?thesis using listing_in_order_and_live [OF one_job_reachable [unfolded empty_repository_def], of "''a''"] by simp
qed

subsection \<open>The way of a download\<close>

lemma streamFile_put: "key f = (c, n) \<Longrightarrow> streamFile c n (put_file f s) = Some f"
proof -
  assume k: "key f = (c, n)"
  have "List.find (\<lambda>f. folder f = c \<and> file_name f = n) (filter (\<lambda>f. \<not> (folder f = c \<and> file_name f = n)) fs @ [f]) = Some f" for fs
    using k by (induction fs) (auto simp: key_def)
  then show ?thesis using k by (simp add: streamFile_def put_file_def drop_file_def key_def)
qed

lemma put_file_set: "f \<in> set (repo_files (put_file f s))"
  by (simp add: put_file_def)

text \<open>The request and the start of the download: an empty file and a job.\<close>

lemma download_starts:
  fixes s :: repository and c :: string and ta tb :: int
  assumes "n = stamp @ num @ fileType (view_url @ ps) @ download_suffix"
  defines "s2 \<equiv> start_job tb (length (jobs s)) (snd (executeQuery view_url ta stamp num c ps s))"
  shows "jobs s2 = jobs s @ [\<lparr>job_client = c, job_file = n, job_url = view_url @ ps, started = True\<rparr>]"
    "file_keys s2 = insert (c, n) (file_keys s)" "c \<in> folders s2" "others c s2 = others c s"
proof -
  define s1 where "s1 = snd (executeQuery view_url ta stamp num c ps s)"
  let ?J = "\<lparr>job_client = c, job_file = n, job_url = view_url @ ps, started = False\<rparr>"
  have s1: "jobs s1 = jobs s @ [?J]" "file_keys s1 = insert (c, n) (file_keys s)" "c \<in> folders s1" "others c s1 = others c s"
    by (simp_all add: s1_def executeQuery_def Let_def key_def assms(1))
  then have "jobs s1 ! length (jobs s) = ?J" by simp
  with s1 show "jobs s2 = jobs s @ [\<lparr>job_client = c, job_file = n, job_url = view_url @ ps, started = True\<rparr>]"
    "file_keys s2 = insert (c, n) (file_keys s)" "c \<in> folders s2" "others c s2 = others c s"
    unfolding s2_def s1_def [symmetric] by (auto simp: start_job_def Let_def key_def)
qed

text \<open>A good end takes the job and the unfinished file away and puts the finished file.\<close>

lemma download_ends:
  assumes "number_text num" "fresh_name c n s" "n = stamp @ num @ fileType (view_url @ ps) @ download_suffix"
  obtains s0 where "finish_job (length (jobs s)) (progress_job t3 sz (length (jobs s))
      (start_job t2 (length (jobs s)) (snd (executeQuery view_url t1 stamp num c ps s)))) =
        put_file \<lparr>folder = c, file_name = result_name n, updated_at = t3, file_size = sz\<rparr> s0"
    "jobs s0 = jobs s" "others c s0 = others c s" "c \<in> folders s0" "(c, n) \<notin> file_keys s0" "result_name n \<noteq> n"
proof -
  define s2 where "s2 = start_job t2 (length (jobs s)) (snd (executeQuery view_url t1 stamp num c ps s))"
  note s2 = download_starts [OF assms(3), where s = s and c = c and ta = t1 and tb = t2, folded s2_def]
  define g where "g = \<lparr>folder = c, file_name = n, updated_at = t3, file_size = sz\<rparr>"
  define s3 where "s3 = progress_job t3 sz (length (jobs s)) s2"
  have ne: "result_name n \<noteq> n"
    using job_shape_facts(1) [OF job_name_shape [OF assms(1)]] unfolding assms(3) by (metis append_self_conv download_suffix_def list.distinct(1))
  have "s3 = put_file g s2" using s2(1,2) by (simp add: s3_def progress_job_def Let_def has_file_key g_def)
  then have s3: "jobs s3 = jobs s2" "file_keys s3 = file_keys s2" "c \<in> folders s3" "others c s3 = others c s" "streamFile c n s3 = Some g"
    using s2 streamFile_put [of g c n] by (auto simp: key_def g_def)
  have free: "(c, result_name n) \<notin> file_keys s3" using assms(2) ne s2(2) s3(2) by (simp add: fresh_name_def has_file_key)
  have job: "job_client (jobs s3 ! length (jobs s)) = c" "job_file (jobs s3 ! length (jobs s)) = n"
    using s3(1) s2(1) by simp_all
  have "streamFile c n (remove_job (length (jobs s)) s3) = Some g" using s3(5) by (simp add: streamFile_def remove_job_def)
  then have "finish_job (length (jobs s)) s3 = put_file \<lparr>folder = c, file_name = result_name n, updated_at = t3, file_size = sz\<rparr>
      (drop_file c n (remove_job (length (jobs s)) s3))"
    using free by (simp add: finish_job_def move_file_def Let_def has_file_key job g_def)
  moreover have "jobs (remove_job (length (jobs s)) s3) = jobs s" using s2(1) s3(1) by (simp add: remove_job_def)
  ultimately show thesis
    using that [of "drop_file c n (remove_job (length (jobs s)) s3)"] s3(3,4) ne unfolding s3_def s2_def by simp
qed

text \<open>A bad end puts the report.\<close>

lemma download_fails:
  assumes "n = stamp @ num @ fileType (view_url @ ps) @ download_suffix"
  shows "streamFile c (error_name n) (fail_job t3 sz (length (jobs s))
      (start_job t2 (length (jobs s)) (snd (executeQuery view_url t1 stamp num c ps s)))) =
        Some \<lparr>folder = c, file_name = error_name n, updated_at = t3, file_size = sz\<rparr>"
  using download_starts [OF assms, where s = s and c = c and ta = t1 and tb = t2]
  by (simp add: fail_job_def Let_def) (rule streamFile_put, simp add: key_def)

text \<open>
  C36. A query leads to a file: after its request, the start, the writing and the good end of its
  download, with nothing else in between, the folder of the client has the finished file under the
  name without suffix, with its size and time; the client can load it, sees it as complete
  in its list, the unfinished file is gone, and the job is done. If the download fails, a
  report takes the place of the file.
\<close>

theorem download_completes:
  assumes "number_text num" "fresh_name c n s" "n = stamp @ num @ fileType (view_url @ ps) @ download_suffix"
    "stamp \<noteq> []" "\<not> prefix ''.'' stamp"
  shows "let s1 = snd (executeQuery view_url t1 stamp num c ps s); j = length (jobs s); s2 = start_job t2 j s1;
             s3 = finish_job j (progress_job t3 sz j s2); f = \<lparr>folder = c, file_name = result_name n, updated_at = t3, file_size = sz\<rparr>
         in streamFile c (result_name n) s3 = Some f \<and> file_info f \<in> set (list_files c s3) \<and> info_complete (file_info f) \<and>
            \<not> has_file c n s3 \<and> jobs s3 = jobs s \<and> others c s3 = others c s \<and>
            has_file c (error_name n) (fail_job t3 sz j s2)"
proof -
  define f where "f = \<lparr>folder = c, file_name = result_name n, updated_at = t3, file_size = sz\<rparr>"
  obtain s0 where s0: "finish_job (length (jobs s)) (progress_job t3 sz (length (jobs s))
      (start_job t2 (length (jobs s)) (snd (executeQuery view_url t1 stamp num c ps s)))) = put_file f s0"
      "jobs s0 = jobs s" "others c s0 = others c s" "c \<in> folders s0" "(c, n) \<notin> file_keys s0" "result_name n \<noteq> n"
    using download_ends [OF assms(1-3)] unfolding f_def by metis
  have "result_name n = stamp @ num @ fileType (view_url @ ps)"
    using result_name_append [of "stamp @ num @ fileType (view_url @ ps)"] by (simp add: assms(3))
  then have dot: "\<not> prefix ''.'' (result_name n)" using assms(4,5) by (cases stamp) simp_all
  have "\<not> suffix download_suffix (result_name n)"
    unfolding assms(3) by (rule job_shape_facts(2) [OF job_name_shape [OF assms(1)]])
  moreover have "file_info f \<in> set (list_files c (put_file f s0))"
    using s0(4) dot put_file_set [of f s0] by (subst list_files_set) (auto simp: f_def)
  moreover have "streamFile c (result_name n) (put_file f s0) = Some f" by (rule streamFile_put) (simp add: key_def f_def)
  moreover have "has_file c (error_name n) (fail_job t3 sz (length (jobs s))
      (start_job t2 (length (jobs s)) (snd (executeQuery view_url t1 stamp num c ps s))))"
    using download_fails [OF assms(3), of c t3 sz s t2 t1] streamFile_none by (metis has_file_key option.distinct(1))
  ultimately show ?thesis
    unfolding Let_def f_def [symmetric] s0(1) using s0 by (auto simp: has_file_key key_def f_def file_info_def)
qed

lemma download_completes_witness:
  "streamFile ''a'' ''d 7.csv'' (finish_job 0 (progress_job 2 99 0 (start_job 1 0 one_job))) =
     Some \<lparr>folder = ''a'', file_name = ''d 7.csv'', updated_at = 2, file_size = 99\<rparr>"
proof -
  have n: "''d '' @ ''7'' @ fileType (''u?'' @ ''output=table'') @ download_suffix = ''d 7.csv.download''"
    "result_name ''d 7.csv.download'' = ''d 7.csv''"
    by code_simp+
  have "number_text ''7''" "fresh_name ''a'' ''d 7.csv.download'' empty_repository"
    by (simp_all add: number_text_def is_digit_def fresh_name_def has_file_def empty_repository_simp)
  from download_completes [OF this n(1) [symmetric], of 0 1 2 99] show ?thesis
    by (simp add: Let_def n(2) one_job_def empty_repository_simp)
qed

subsection \<open>Requests for listed files\<close>

text \<open>A path of the form \<open>{clientId}/{file:.*}\<close> in a request.\<close>

definition route :: "string \<Rightarrow> string \<times> string" where
  "route p = (takeWhile (\<lambda>c. c \<noteq> CHR ''/'') p, drop 1 (dropWhile (\<lambda>c. c \<noteq> CHR ''/'') p))"

lemma route_path: "CHR ''/'' \<notin> set c \<Longrightarrow> route (c @ ''/'' @ n) = (c, n)"
proof -
  assume "CHR ''/'' \<notin> set c"
  then have s: "\<forall>x\<in>set c. x \<noteq> CHR ''/''" by auto
  have "takeWhile (\<lambda>x. x \<noteq> CHR ''/'') (c @ CHR ''/'' # n) = c" by (rule takeWhile_append_stop [OF s]) simp
  moreover have "dropWhile (\<lambda>x. x \<noteq> CHR ''/'') (c @ CHR ''/'' # n) = CHR ''/'' # n" by (rule dropWhile_append_stop [OF s]) simp
  ultimately show ?thesis by (simp add: route_def)
qed

lemma find_listed: "List.find (\<lambda>f. folder f = c \<and> file_name f = n) fs \<noteq> None \<longleftrightarrow> (\<exists>f\<in>set fs. folder f = c \<and> file_name f = n)"
  by (auto simp: find_None_iff)

text \<open>
  What a client sees it can have and delete: for every entry of its list the path in the
  request is routed to the client and the name of the entry, the service finds the file,
  and deleting it takes exactly the entries of that name out of the list.
\<close>

theorem listed_file_served:
  assumes "i \<in> set (list_files c s)" "CHR ''/'' \<notin> set c"
  shows "route (info_path i) = (c, info_name i) \<and>
    openFile (info_path i) = ''/downloader/query/file/'' @ c @ ''/'' @ info_name i \<and>
    deleteFile_url (info_path i) = ''/downloader/query/delete/'' @ c @ ''/'' @ info_name i \<and>
    streamFile c (info_name i) s \<noteq> None \<and>
    (\<exists>t. delete_file c (info_name i) s = Some t \<and>
         list_files c t = filter (\<lambda>k. info_name k \<noteq> info_name i) (list_files c s))"
proof -
  obtain f where f: "f \<in> set (repo_files s)" "folder f = c" "i = file_info f" "c \<in> folders s"
    using listed_file [OF assms(1)] by blast
  have p: "info_path i = c @ ''/'' @ info_name i" "info_name i = file_name f" using f(2,3) by (simp_all add: file_info_def)
  have "has_file c (info_name i) s" using f p(2) by (auto simp: has_file_def)
  then have d: "delete_file c (info_name i) s = Some (drop_file c (info_name i) s)" by (simp add: delete_file_def)
  have "filter (\<lambda>f. folder f = c \<and> \<not> prefix ''.'' (file_name f)) (repo_files (drop_file c n s)) =
      filter (\<lambda>f. file_name f \<noteq> n) (filter (\<lambda>f. folder f = c \<and> \<not> prefix ''.'' (file_name f)) (repo_files s))" for n
    by (simp add: drop_file_def) (intro filter_cong; auto)
  then have "list_files c (drop_file c n s) = filter (\<lambda>k. info_name k \<noteq> n) (list_files c s)" for n
    by (simp add: list_files_def filter_sort filter_map comp_def file_info_def)
  moreover have "streamFile c (info_name i) s \<noteq> None"
    unfolding streamFile_def find_listed p(2) using f(1,2) by blast
  ultimately show ?thesis
    using route_path [OF assms(2)] d unfolding p(1) by (simp add: openFile_def deleteFile_url_def)
qed

lemma listed_file_served_witness:
  "\<exists>t. delete_file ''a'' ''d 7.csv.download'' one_job = Some t \<and> list_files ''a'' t = []"
proof -
  have l: "list_files ''a'' one_job = [\<lparr>info_name = ''d 7.csv.download'', info_path = ''a/d 7.csv.download'', info_updated = Some 0,
      info_size = Some 0, info_complete = False\<rparr>]"
    by code_simp
  then show ?thesis using listed_file_served [of "\<lparr>info_name = ''d 7.csv.download'', info_path = ''a/d 7.csv.download'', info_updated = Some 0,
      info_size = Some 0, info_complete = False\<rparr>" "''a''" one_job] by simp
qed

end
