(* ===== verification/ResultsCtrl.thy ===== *)
theory ResultsCtrl
  imports Service "HOL-Library.Multiset"
begin

text \<open>
  \<open>js/app-ctrl.js\<close>, the controller \<open>AisResultsCtrl\<close>: the list of result files, its badge, and
  the requests that list and delete files. Answers arrive later and in any order; a request
  under way is an element of a multiset.
\<close>

subsection \<open>State and operations\<close>

record repo_file =
  path :: string
  complete :: bool

datatype color = Blue | Red

datatype request_kind = ListFiles | DeleteFile string | DeleteFiles

record results_scope =
  badgeColor :: color
  resultsContent :: string
  files :: "repo_file list"
  client :: string

record results =
  view :: results_scope
  local :: storage
  inflight :: "request_kind multiset"
  asked :: "string list"

text \<open>The success handler of the list request: the badge is red when a file is not complete.\<close>

definition show_files :: "repo_file list \<Rightarrow> results_scope \<Rightarrow> results_scope" where
  "show_files fs v =
     foldl (\<lambda>v f. if \<not> complete f then v\<lparr>badgeColor := Red\<rparr> else v) (v\<lparr>files := fs, badgeColor := Blue\<rparr>) fs"

definition updateFiles :: "rat list \<Rightarrow> results \<Rightarrow> results" where
  "updateFiles rs s =
     (let (url, st) = listFiles_url rs (local s)
      in s\<lparr>local := st, inflight := add_mset ListFiles (inflight s), asked := asked s @ [url]\<rparr>)"

definition open_result :: "repo_file \<Rightarrow> string" where
  "open_result f = openFile (path f)"

definition deleteFile :: "repo_file \<Rightarrow> results \<Rightarrow> results" where
  "deleteFile f s =
     s\<lparr>inflight := add_mset (DeleteFile (path f)) (inflight s), asked := asked s @ [deleteFile_url (path f)]\<rparr>"

definition deleteFiles :: "rat list \<Rightarrow> results \<Rightarrow> results" where
  "deleteFiles rs s =
     (let (url, st) = deleteFiles_url rs (local s)
      in s\<lparr>local := st, inflight := add_mset DeleteFiles (inflight s), asked := asked s @ [url]\<rparr>)"

text \<open>The controller starts with no file, the client id, and a first list request.\<close>

definition init_results :: "rat list \<Rightarrow> storage \<Rightarrow> results" where
  "init_results rs st =
     (let (cid, st) = clientId rs st
      in updateFiles rs \<lparr>view = \<lparr>badgeColor = Blue, resultsContent = [], files = [], client = cid\<rparr>,
           local = st, inflight = {#}, asked = []\<rparr>)"

text \<open>
  An answer to a list request replaces the files, a failed one changes nothing; an answer to
  a delete request, good or bad, asks for the files again. Every five seconds the timer asks
  as well.
\<close>

inductive results_step :: "results \<Rightarrow> results \<Rightarrow> bool" where
  tick: "results_step s (updateFiles rs s)"
| listed: "ListFiles \<in># inflight s \<Longrightarrow>
    results_step s (s\<lparr>view := show_files fs (view s), inflight := inflight s - {#ListFiles#}\<rparr>)"
| list_failed: "ListFiles \<in># inflight s \<Longrightarrow> results_step s (s\<lparr>inflight := inflight s - {#ListFiles#}\<rparr>)"
| delete: "f \<in> set (files (view s)) \<Longrightarrow> results_step s (deleteFile f s)"
| deleted: "DeleteFile p \<in># inflight s \<Longrightarrow>
    results_step s (updateFiles rs (s\<lparr>inflight := inflight s - {#DeleteFile p#}\<rparr>))"
| delete_all: "results_step s (deleteFiles rs s)"
| deleted_all: "DeleteFiles \<in># inflight s \<Longrightarrow>
    results_step s (updateFiles rs (s\<lparr>inflight := inflight s - {#DeleteFiles#}\<rparr>))"

inductive results_reachable :: "results \<Rightarrow> results \<Rightarrow> bool" for s0 :: results where
  start: "results_reachable s0 s0"
| step: "results_reachable s0 s \<Longrightarrow> results_step s s' \<Longrightarrow> results_reachable s0 s'"

subsection \<open>The badge\<close>

lemma show_files_fold:
  "foldl (\<lambda>v f. if \<not> complete f then v\<lparr>badgeColor := Red\<rparr> else v) v fs =
   v\<lparr>badgeColor := if \<exists>f\<in>set fs. \<not> complete f then Red else badgeColor v\<rparr>"
  by (induction fs arbitrary: v) auto

lemma show_files_eq:
  "show_files fs v = v\<lparr>files := fs, badgeColor := if \<exists>f\<in>set fs. \<not> complete f then Red else Blue\<rparr>"
  by (simp add: show_files_def show_files_fold)

definition badge_ok :: "results_scope \<Rightarrow> bool" where
  "badge_ok v \<longleftrightarrow> (badgeColor v = Red \<longleftrightarrow> (\<exists>f\<in>set (files v). \<not> complete f))"

lemma view_simps [simp]:
  "view (updateFiles rs s) = view s" "view (deleteFile f s) = view s" "view (deleteFiles rs s) = view s"
  by (simp_all add: updateFiles_def deleteFile_def deleteFiles_def split: prod.split)

lemma badge_step: "results_step s s' \<Longrightarrow> badge_ok (view s) \<Longrightarrow> badge_ok (view s')"
  by (erule results_step.cases) (simp_all add: badge_ok_def show_files_eq)

subsection \<open>The client of the requests\<close>

text \<open>The requests of the page name one client, and delete only files that the page has shown.\<close>

definition client_known :: "results \<Rightarrow> bool" where
  "client_known s \<longleftrightarrow> stored_clientId (local s) = Some (client (view s)) \<and> client (view s) \<noteq> []"

lemma clientId_stored: "stored_clientId st = Some c \<Longrightarrow> c \<noteq> [] \<Longrightarrow> clientId rs st = (c, st)"
  by (cases c) (simp_all add: clientId_def)

lemma client_ops [simp]:
  "client_known s \<Longrightarrow> client_known (updateFiles rs s)" "client_known s \<Longrightarrow> client_known (deleteFiles rs s)"
  "client_known s \<Longrightarrow> client_known (deleteFile f s)"
  by (simp_all add: client_known_def updateFiles_def deleteFiles_def deleteFile_def listFiles_url_def deleteFiles_url_def
      clientId_stored)

lemma show_files_client [simp]: "client (show_files fs v) = client v"
  by (simp add: show_files_eq)

lemma client_known_step: "results_step s s' \<Longrightarrow> client_known s \<Longrightarrow> client_known s'"
proof (erule results_step.cases, goal_cases)
  case (5 p s rs)
  then have "client_known (s\<lparr>inflight := inflight s - {#DeleteFile p#}\<rparr>)" by (simp add: client_known_def)
  with 5 show ?case by simp
next
  case (7 s rs)
  then have "client_known (s\<lparr>inflight := inflight s - {#DeleteFiles#}\<rparr>)" by (simp add: client_known_def)
  with 7 show ?case by simp
qed (simp_all, simp_all add: client_known_def)

lemma results_init:
  "client_known (init_results rs st)"
  "view (init_results rs st) = \<lparr>badgeColor = Blue, resultsContent = [], files = [], client = fst (clientId rs st)\<rparr>"
proof -
  obtain c st' where c: "clientId rs st = (c, st')" by (cases "clientId rs st")
  have i: "stored_clientId (snd (clientId rs st)) = Some (fst (clientId rs st))" "fst (clientId rs st) \<noteq> []"
    using uuid_fill_not_Nil by (rule_tac [!] clientId_cases [of st rs]) simp_all
  then have "clientId rs st' = (c, st')" by (intro clientId_stored) (simp_all add: c)
  with i show "client_known (init_results rs st)"
    by (simp add: init_results_def client_known_def updateFiles_def listFiles_url_def c)
  show "view (init_results rs st) = \<lparr>badgeColor = Blue, resultsContent = [], files = [], client = fst (clientId rs st)\<rparr>"
    by (simp add: init_results_def split: prod.split)
qed

lemma results_invariant:
  assumes "results_reachable s0 s" "P s0" "\<And>s s'. results_step s s' \<Longrightarrow> P s \<Longrightarrow> P s'"
  shows "P s"
  using assms(1) by induction (use assms(2,3) in auto)

text \<open>
  Whatever order the answers arrive in, the badge tells the truth about the files on the
  page: it is red exactly when one of them is not complete.
\<close>

theorem badge_matches_files:
  assumes "results_reachable (init_results rs st) s"
  shows "badgeColor (view s) = Red \<longleftrightarrow> (\<exists>f\<in>set (files (view s)). \<not> complete f)"
proof -
  have "badge_ok (view s)"
    by (rule results_invariant [OF assms, where P = "\<lambda>s. badge_ok (view s)"])
      (simp_all add: badge_step, simp add: results_init(2) badge_ok_def)
  then show ?thesis by (simp add: badge_ok_def)
qed

lemma badge_matches_files_witness:
  "\<exists>s. results_reachable (init_results [] \<lparr>stored_clientId = None, stored_params = None\<rparr>) s \<and>
     files (view s) = [\<lparr>path = ''c/a.csv.download'', complete = False\<rparr>] \<and> badgeColor (view s) = Red"
proof -
  let ?s0 = "init_results [] \<lparr>stored_clientId = None, stored_params = None\<rparr>"
  have "ListFiles \<in># inflight ?s0" by (simp add: init_results_def updateFiles_def split: prod.split)
  note st = results_step.listed [OF this, of "[\<lparr>path = ''c/a.csv.download'', complete = False\<rparr>]"]
  note r = results_reachable.step [OF results_reachable.start st]
  show ?thesis
  proof (rule exI, intro conjI)
    show "results_reachable ?s0 (?s0\<lparr>view := show_files [\<lparr>path = ''c/a.csv.download'', complete = False\<rparr>] (view ?s0),
        inflight := inflight ?s0 - {#ListFiles#}\<rparr>)" by (rule r)
  qed (use badge_matches_files [OF r] in \<open>simp_all add: show_files_eq\<close>)
qed

text \<open>
  The result page talks to the server as one client: in every reachable state the id on
  the page is the one in the storage, and it never changes while the page is open.
\<close>

theorem results_client_fixed:
  assumes "results_reachable (init_results rs st) s"
  shows "client (view s) = fst (clientId rs st) \<and> stored_clientId (local s) = Some (fst (clientId rs st))"
proof -
  have "client_known s \<and> client (view s) = fst (clientId rs st)"
    by (rule results_invariant [OF assms, where P = "\<lambda>s. client_known s \<and> client (view s) = fst (clientId rs st)"])
      (use client_known_step in \<open>auto simp: results_init elim: results_step.cases\<close>)
  then show ?thesis by (simp add: client_known_def)
qed

lemma results_client_fixed_witness:
  "client (view (init_results [] \<lparr>stored_clientId = Some ''c1'', stored_params = None\<rparr>)) = ''c1''"
  using results_client_fixed [OF results_reachable.start, of "[]" "\<lparr>stored_clientId = Some ''c1'', stored_params = None\<rparr>"]
  by (simp add: clientId_def)

end
