(* ===== verification/ClientServer.thy ===== *)
theory ClientServer
  imports Repository ResultsCtrl QueryCtrl
begin

text \<open>
  The page and the service together: what the badge of the result list says of the downloads
  of the service, and which type the result file of a query has.
\<close>

subsection \<open>The badge and the jobs\<close>

text \<open>An entry as the page receives it; it reads the path and whether the file is complete.\<close>

definition received :: "repo_info \<Rightarrow> repo_file" where
  "received i = \<lparr>path = info_path i, complete = info_complete i\<rparr>"

definition folders_ok :: "repository \<Rightarrow> bool" where
  "folders_ok s \<longleftrightarrow> (\<forall>f\<in>set (repo_files s). folder f \<in> folders s)"

lemma folders_ok_files [simp]:
  "folders_ok s \<Longrightarrow> folders_ok (drop_file c n s)" "folders_ok s \<Longrightarrow> folders_ok (remove_job j s)"
  "folders_ok (jobs_update g s) = folders_ok s"
  "folders_ok s \<Longrightarrow> folder f \<in> folders s \<Longrightarrow> folders_ok (put_file f s)"
  "folders_ok s \<Longrightarrow> folders_ok (s\<lparr>folders := insert c (folders s)\<rparr>)"
  by (auto simp: folders_ok_def drop_file_def put_file_def remove_job_def)

lemma folders_ok_fail: "folders_ok s \<Longrightarrow> folders_ok (fail_job now sz j s)"
  by (simp add: fail_job_def Let_def)

lemma folders_ok_start: "folders_ok s \<Longrightarrow> folders_ok (start_job now j s)"
  by (simp add: start_job_def Let_def folders_ok_fail)

lemma folders_ok_progress: "folders_ok s \<Longrightarrow> folders_ok (progress_job now sz j s)"
  by (auto simp: progress_job_def Let_def has_file_def intro!: folders_ok_files(4)) (auto simp: folders_ok_def)

lemma folders_ok_finish: "folders_ok s \<Longrightarrow> folders_ok (finish_job j s)"
proof -
  let ?c = "job_client (jobs s ! j)" and ?n = "job_file (jobs s ! j)"
  assume ok: "folders_ok s"
  have "?c \<in> folders s" if "streamFile ?c ?n (remove_job j s) \<noteq> None"
  proof -
    have "has_file ?c ?n s" using that streamFile_none [of ?c ?n "remove_job j s"] by (simp add: has_file_key)
    with ok show ?thesis by (auto simp: has_file_def folders_ok_def)
  qed
  with ok show ?thesis by (auto simp: finish_job_def move_file_def Let_def split: option.split)
qed

lemma folders_ok_step: "repo_step view_url s t \<Longrightarrow> folders_ok s \<Longrightarrow> folders_ok t"
proof (erule repo_stepE)
  fix c assume "folders_ok s" "delete_files c s = Some t"
  then show "folders_ok t" by (auto simp: delete_files_def folders_ok_def split: if_splits)
next
  fix now assume "folders_ok s" "t = cleanUpRepoFolder now s"
  then show "folders_ok t" by (auto simp: cleanUpRepoFolder_def folders_ok_def Let_def)
qed (auto simp: executeQuery_def delete_file_def Let_def folders_ok_start folders_ok_progress folders_ok_finish folders_ok_fail split: if_splits)

lemma folders_ok_reachable: "(repo_step view_url)\<^sup>*\<^sup>* (init_service disk) s \<Longrightarrow> disk_ok disk \<Longrightarrow> folders_ok s"
proof (induction rule: rtranclp_induct)
  case base
  then show ?case by (auto simp: folders_ok_def init_service_def disk_ok_def split: option.splits)
next
  case (step s t)
  then show ?case using folders_ok_step by blast
qed

text \<open>The visible files that are not complete make the badge red.\<close>

lemma badge_red:
  assumes "folders_ok s"
  shows "badgeColor (show_files (map received (list_files c s)) v) = Red \<longleftrightarrow>
    (\<exists>n. has_file c n s \<and> suffix download_suffix n \<and> \<not> prefix ''.'' n)"
proof -
  have "badgeColor (show_files (map received (list_files c s)) v) = Red \<longleftrightarrow> (\<exists>i\<in>set (list_files c s). \<not> info_complete i)"
    by (simp add: show_files_eq received_def)
  also have "\<dots> \<longleftrightarrow> (\<exists>f\<in>set (repo_files s). folder f = c \<and> \<not> prefix ''.'' (file_name f) \<and> suffix download_suffix (file_name f))"
  proof (cases "c \<in> folders s")
    case False
    then show ?thesis using assms by (auto simp: list_files_def folders_ok_def)
  next
    case True
    show ?thesis unfolding list_files_set [OF True] by (auto simp: file_info_def)
  qed
  finally show ?thesis by (auto simp: has_file_def)
qed

text \<open>
  C38. The red badge means that something is being loaded, or was never loaded to its end: whatever
  the service found in its root folder when it started, at the moment when the page has
  received the list of its client the badge is red exactly when the service has a job of that
  client whose (visible) file is still there, or when a visible file is still there that an
  earlier run of the service has left unfinished, which no job of this run needs to load.
\<close>

theorem badge_reflects_jobs:
  assumes "(repo_step view_url)\<^sup>*\<^sup>* (init_service disk) s" "disk_ok disk"
  shows "badgeColor (show_files (map received (list_files c s)) v) = Red \<longleftrightarrow>
    (\<exists>j\<in>set (jobs s). job_client j = c \<and> has_file c (job_file j) s \<and> \<not> prefix ''.'' (job_file j)) \<or>
    (\<exists>n. (c, n) \<in> leftovers disk \<and> has_file c n s \<and> \<not> prefix ''.'' n)"
proof -
  have inv: "repo_inv (leftovers disk) s" by (rule repo_reachable_inv [OF assms(1)])
  have left: "(c, n) \<in> leftovers disk \<or> (\<exists>j\<in>set (jobs s). job_client j = c \<and> job_file j = n)"
    if "has_file c n s" "suffix download_suffix n" for n
    using inv that by (force simp: repo_inv_def has_file_key jkey_def)
  have job: "suffix download_suffix (job_file j)" if "j \<in> set (jobs s)" for j
    using inv that job_shape_facts(1) [of "job_file j"] by (metis repo_inv_def suffix_def)
  have old: "suffix download_suffix n" if "(c, n) \<in> leftovers disk" for n
    using that by (simp add: leftovers_def)
  show ?thesis
    unfolding badge_red [OF folders_ok_reachable [OF assms]] using left job old by blast
qed

text \<open>A service that starts on a folder with an unfinished download: a red badge without a job.\<close>

lemma badge_reflects_jobs_witness:
  "let disk = Some ({''a''}, [\<lparr>folder = ''a'', file_name = ''d 7.csv.download'', updated_at = 0, file_size = 12\<rparr>]); s = init_service disk
   in badgeColor (show_files (map received (list_files ''a'' s)) \<lparr>badgeColor = Blue, resultsContent = [], files = [], client = ''a''\<rparr>) = Red \<and>
      jobs s = []"
proof -
  let ?f = "\<lparr>folder = ''a'', file_name = ''d 7.csv.download'', updated_at = 0, file_size = 12\<rparr>"
  let ?disk = "Some ({''a''}, [?f])"
  have "(repo_step ''u?'')\<^sup>*\<^sup>* (init_service ?disk) (init_service ?disk)" by simp
  moreover have "disk_ok ?disk" by (simp add: disk_ok_def)
  moreover have "suffix download_suffix ''d 7.csv.download''" "\<not> prefix ''.'' ''d 7.csv.download''" by code_simp+
  then have "(''a'', ''d 7.csv.download'') \<in> leftovers ?disk \<and> has_file ''a'' ''d 7.csv.download'' (init_service ?disk) \<and>
      \<not> prefix ''.'' ''d 7.csv.download''"
    by (simp add: leftovers_def init_service_def file_keys_def key_def has_file_def)
  ultimately show ?thesis using badge_reflects_jobs [of "''u?''" ?disk "init_service ?disk" "''a''"] unfolding Let_def by auto
qed

subsection \<open>A query that opens its result\<close>

text \<open>
  C37. A synchronous query opens what came of it: the answer to it names the file at the end of
  the job, so the address that the page opens is routed to the finished file, or to the
  report if the download failed. The entry of an asynchronous answer, which names the
  unfinished file, is then routed to a file that is gone.
\<close>

theorem sync_query_opens_result:
  assumes "number_text num" "fresh_name c n s" "n = stamp @ num @ fileType (view_url @ ps) @ download_suffix"
    "CHR ''/'' \<notin> set c"
  shows "let (vo, s1) = executeQuery view_url t1 stamp num c ps s; j = length (jobs s); s2 = start_job t2 j s1;
             ended = (\<lambda>ok. if ok then finish_job j (progress_job t3 sz j s2) else fail_job t3 sz j s2);
             answer = (\<lambda>ok. sync_answer c (Some (job_result ok n)) vo)
         in \<forall>ok. execute_success False (info_path (answer ok)) = [OpenWindow (''/downloader/query/file/'' @ c @ ''/'' @ info_name (answer ok))] \<and>
              route (info_path (answer ok)) = (c, job_result ok n) \<and>
              streamFile c (job_result ok n) (ended ok) =
                Some \<lparr>folder = c, file_name = job_result ok n, updated_at = t3, file_size = sz\<rparr> \<and>
              route (info_path vo) = (c, n) \<and> streamFile c n (ended True) = None"
proof -
  define s2 where "s2 = start_job t2 (length (jobs s)) (snd (executeQuery view_url t1 stamp num c ps s))"
  obtain vo s1 where e: "executeQuery view_url t1 stamp num c ps s = (vo, s1)" by fastforce
  then have vo: "info_path vo = c @ ''/'' @ n" by (auto simp: executeQuery_def Let_def assms(3))
  obtain s0 where s0: "finish_job (length (jobs s)) (progress_job t3 sz (length (jobs s)) s2) =
      put_file \<lparr>folder = c, file_name = result_name n, updated_at = t3, file_size = sz\<rparr> s0" "(c, n) \<notin> file_keys s0" "result_name n \<noteq> n"
    using download_ends [OF assms(1-3)] unfolding s2_def by metis
  then have "streamFile c n (finish_job (length (jobs s)) (progress_job t3 sz (length (jobs s)) s2)) = None"
    by (auto simp: streamFile_none key_def)
  moreover have "streamFile c (result_name n) (finish_job (length (jobs s)) (progress_job t3 sz (length (jobs s)) s2)) =
      Some \<lparr>folder = c, file_name = result_name n, updated_at = t3, file_size = sz\<rparr>"
    unfolding s0(1) by (rule streamFile_put) (simp add: key_def)
  moreover note download_fails [OF assms(3), of c t3 sz s t2 t1, folded s2_def]
  ultimately show ?thesis
    using route_path [OF assms(4)]
    by (simp add: e Let_def s2_def vo sync_answer_def job_result_def execute_success_def openFile_def split: if_split)
qed

lemma sync_query_opens_result_witness:
  "streamFile ''a'' ''d 7.csv'' (finish_job 0 (progress_job 2 99 0 (start_job 1 0 one_job))) \<noteq> None \<and>
   streamFile ''a'' ''d 7.csv.err.txt'' (fail_job 2 99 0 (start_job 1 0 one_job)) \<noteq> None"
proof -
  have n: "''d '' @ ''7'' @ fileType (''u?'' @ ''output=table'') @ download_suffix = ''d 7.csv.download''"
    "job_result True ''d 7.csv.download'' = ''d 7.csv''" "job_result False ''d 7.csv.download'' = ''d 7.csv.err.txt''"
    by code_simp+
  have "number_text ''7''" "fresh_name ''a'' ''d 7.csv.download'' empty_repository" "CHR ''/'' \<notin> set ''a''"
    by (simp_all add: number_text_def is_digit_def fresh_name_def has_file_def empty_repository_simp)
  note t = sync_query_opens_result [OF this(1,2) n(1) [symmetric] this(3), of 0 1 2 99]
  obtain vo where o: "executeQuery ''u?'' 0 ''d '' ''7'' ''a'' ''output=table'' empty_repository = (vo, one_job)"
    unfolding one_job_def by (metis prod.collapse)
  have l: "length (jobs empty_repository) = 0" by (simp add: empty_repository_simp)
  note t = t [unfolded o Let_def prod.case l]
  show ?thesis using t [THEN spec, of True] t [THEN spec, of False] by (simp only: n(2,3) if_True if_False) simp
qed

subsection \<open>The type of a result\<close>

lemma sublist_join: "s \<in> set ss \<Longrightarrow> sublist s (join sep ss)"
proof (induction sep ss rule: join.induct)
  case (3 sep t u ss)
  show ?case
  proof (cases "s = t")
    case False
    with 3 obtain a b where "join sep (u # ss) = a @ s @ b" by (auto simp: sublist_def)
    then have "join sep (t # u # ss) = (t @ sep @ a) @ s @ b" by simp
    then show ?thesis unfolding sublist_def by blast
  qed simp
qed simp_all

lemma request_sublist: "i \<in> set (request M p) \<Longrightarrow> sublist (item_text i) (view_url @ download_url M p)"
proof -
  assume "i \<in> set (request M p)"
  then have "sublist (item_text i) (download_url M p)" unfolding download_url_items by (intro sublist_join) simp
  then show ?thesis by (rule sublist_order.order.trans) simp
qed

lemma output_in_url:
  assumes "outputFormat p \<noteq> ''raw''"
  shows "sublist (outputFormat p) (view_url @ download_url M p)"
proof -
  have "(''output'', outputFormat p) \<in> set (request M p)" using assms by (simp add: request_def output_items_def)
  moreover have "item_text (''output'', outputFormat p) = ''output='' @ outputFormat p" by (simp add: item_text_def wire_def)
  ultimately have "sublist (''output='' @ outputFormat p) (view_url @ download_url M p)" using request_sublist by metis
  then show ?thesis by (rule sublist_order.order.trans [OF sublist_append_leftI])
qed

lemma encode_unreserved: "\<forall>c\<in>set t. unreserved c \<Longrightarrow> encodeURIComponent t = t"
  by (induction t) (simp_all add: encodeURIComponent_def encode_char_def)

lemma sublist_encode: "sublist t s \<Longrightarrow> \<forall>c\<in>set t. unreserved c \<Longrightarrow> sublist t (encodeURIComponent s)"
proof -
  assume "sublist t s" and t: "\<forall>c\<in>set t. unreserved c"
  then obtain a b where "s = a @ t @ b" by (auto simp: sublist_def)
  then have "encodeURIComponent s = encodeURIComponent a @ t @ encodeURIComponent b"
    using encode_unreserved [OF t] by (simp add: encodeURIComponent_def)
  then show ?thesis by simp
qed

text \<open>
  The service guesses the type of a result from the text of the query. For the output
  formats of the page the guess is right, unless the query mentions a format of higher
  priority: then a filter for the word \<open>table\<close>, say, makes a \<open>csv\<close> file of raw data.
\<close>

theorem result_type_of_output:
  "let u = view_url @ download_url M p; ending = fileType u in
    (outputFormat p = ''OUTPUT_TO_KML'' \<longrightarrow> ending = ''.kml'') \<and>
    (outputFormat p = ''OUTPUT_TO_HTML'' \<longrightarrow> ending = ''.html'' \<or> sublist ''OUTPUT_TO_KML'' u) \<and>
    (outputFormat p = ''table'' \<longrightarrow> ending = ''.csv'' \<or> sublist ''OUTPUT_TO_'' u) \<and>
    (outputFormat p = ''json'' \<longrightarrow> ending = ''.json'' \<or> sublist ''OUTPUT_TO_'' u \<or> sublist ''table'' u) \<and>
    (outputFormat p = ''raw'' \<and> \<not> simple (filterType p) \<and> advanced (filterType p) \<and> sublist ''table'' (advancedFilter p) \<longrightarrow>
       ending \<noteq> ''.txt'')"
proof -
  let ?u = "view_url @ download_url M p"
  have o: "sublist ''OUTPUT_TO_'' u" if "sublist ''OUTPUT_TO_KML'' u \<or> sublist ''OUTPUT_TO_HTML'' u" for u
    using that sublist_order.order.trans [of "''OUTPUT_TO_''" "''OUTPUT_TO_KML''" u] sublist_order.order.trans [of "''OUTPUT_TO_''" "''OUTPUT_TO_HTML''" u]
      sublist_appendI [of "''OUTPUT_TO_''" "[]" "''KML''"] sublist_appendI [of "''OUTPUT_TO_''" "[]" "''HTML''"] by auto
  have t: "sublist ''table'' ?u" if "\<not> simple (filterType p)" "advanced (filterType p)" "sublist ''table'' (advancedFilter p)"
  proof -
    have "advancedFilter p \<noteq> []" using that(3) by auto
    then have i: "(''filter'', advancedFilter p) \<in> set (request M p)" using that(1,2) by (simp add: request_def filter_items_def)
    have "list_all unreserved ''table''" by code_simp
    then have "sublist ''table'' (encodeURIComponent (advancedFilter p))" using that(3) by (intro sublist_encode) (simp_all only: list_all_iff)
    moreover have "item_text (''filter'', advancedFilter p) = ''filter='' @ encodeURIComponent (advancedFilter p)"
      by (simp add: item_text_def wire_def)
    ultimately have "sublist ''table'' (item_text (''filter'', advancedFilter p))"
      using sublist_order.order.trans [OF _ sublist_append_leftI] by metis
    also have "sublist \<dots> ?u" by (rule request_sublist [OF i])
    finally show ?thesis .
  qed
  have out: "sublist x ?u" if "outputFormat p = x" "x \<noteq> ''raw''" for x
    using output_in_url [of p view_url M] that by simp
  show ?thesis
    unfolding Let_def
  proof (intro conjI impI)
    show "fileType ?u = ''.kml''" if "outputFormat p = ''OUTPUT_TO_KML''"
      using out [OF that] by (simp add: fileType_def)
    show "fileType ?u = ''.html'' \<or> sublist ''OUTPUT_TO_KML'' ?u" if "outputFormat p = ''OUTPUT_TO_HTML''"
      using out [OF that] by (simp add: fileType_def)
    show "fileType ?u = ''.csv'' \<or> sublist ''OUTPUT_TO_'' ?u" if "outputFormat p = ''table''"
      using out [OF that] o [of ?u] by (simp add: fileType_def)
    show "fileType ?u = ''.json'' \<or> sublist ''OUTPUT_TO_'' ?u \<or> sublist ''table'' ?u" if "outputFormat p = ''json''"
      using out [OF that] o [of ?u] by (simp add: fileType_def)
    show "fileType ?u \<noteq> ''.txt''"
      if "outputFormat p = ''raw'' \<and> \<not> simple (filterType p) \<and> advanced (filterType p) \<and> sublist ''table'' (advancedFilter p)"
      using t that by (simp add: fileType_def)
  qed
qed

lemma result_type_of_output_witness:
  "fileType (''u?'' @ download_url sample_moment ((clearParams sample_moment (Fin 0) (Fin 0))\<lparr>outputFormat := ''OUTPUT_TO_KML''\<rparr>)) = ''.kml''"
  using result_type_of_output [of "''u?''" sample_moment "(clearParams sample_moment (Fin 0) (Fin 0))\<lparr>outputFormat := ''OUTPUT_TO_KML''\<rparr>"]
  by (simp add: Let_def)

end
