(* ===== verification/Spec2Isabelle.thy ===== *)
theory Spec2Isabelle
  imports SavedSearch SearchFocus SearchModes ClassNames JqEvents ModelEvents Collection Autocomplete UiPosition Underscore FilterText AreaMap PositionField FilterField DatePicker ByteFilter ClientServer
begin

text \<open>
  The AIS-Downloader, the web client of AisStore: a page on which a user describes a search
  in stored AIS data, sends it to a server as a query, and looks at the result files. The
  implementation is in \<open>src/ais-store-web/src/main/webapp/downloader/js/\<close>; this development
  models its own scripts function by function, with the search box library that the page
  rests on (\<open>ext/documentcloud-visualsearch/js/visualsearch.js\<close>), and states what makes them
  correct.

  \<^bold>\<open>How the parts interact.\<close> \<open>AisQueryService\<close> (\<open>app-service.js\<close>) keeps the client id and the
  parameters of the last search in the browser storage and builds the request URLs.
  \<open>AisQueryCtrl\<close> (\<open>app-ctrl.js\<close>) holds the parameters on its scope, brings them in step with
  the three filter boxes, the date fields and the area, turns them into the text of a query,
  and executes it. A filter box keeps facets and the texts typed between them; what it prints
  is what the page saves, and what the next page fills it with. \<open>AisResultsCtrl\<close> (\<open>app-ctrl.js\<close>) lists and deletes the result files. The
  directives (\<open>app-directives.js\<close>) bind input fields and a map to the parameters, with the
  number formatting of \<open>position.js\<close>; \<open>base-data.js\<close> has the tables of values offered, and
  \<open>app-filter.js\<close> prints file sizes.

  \<^bold>\<open>The language.\<close> \<open>Prelude\<close>, \<open>Rounding\<close>, \<open>JsNumber\<close>, \<open>JsText\<close>, \<open>NumText\<close>, \<open>JsUri\<close> and \<open>JsJson\<close>
  model what the scripts use of JavaScript: binary64 numbers as exact rationals with one
  rounding per operation (\<open>Rounding\<close> proves that it rounds to the nearest representable
  value), strings over Latin-1, \<open>toFixed\<close>, \<open>toString\<close>, \<open>parseFloat\<close>, \<open>parseInt\<close>, comparison with a
  string, URI encoding and decoding, and JSON writing and reading. Their main lemmas are the
  round trips (\<open>scan_number_to_string\<close>, \<open>decode_encode\<close>, \<open>json_parse_stringify\<close>). \<open>JsRegExp\<close> has
  the regular expressions: all ways to match in the order of backtracking, the first of which
  counts, with groups, edges of words and lookahead. A value that
  may be \<open>undefined\<close> or \<open>null\<close> is an option, a thrown error a sum or an error beside the state.

  \<^bold>\<open>The components.\<close>
  \<^item> \<open>Position\<close>: \<open>position.js\<close> complete. The locale \<open>coordinate_text\<close> is the contract that the
    latitude and the longitude functions share; both are interpretations. The padding loop
    is a partial function, so that it not returning is the value \<open>None\<close>.
  \<^item> \<open>Params\<close>, \<open>Service\<close>: \<open>app-service.js\<close>. The search parameters are a record with the members
    of the object in the source; \<open>storage\<close> is the browser storage, and \<open>fits\<close> says which texts
    it accepts. The random numbers of a new client id and the two readings of the clock are
    arguments.
  \<^item> \<open>DownloadUrl\<close>, \<open>QueryCtrl\<close>, \<open>Session\<close>: \<open>AisQueryCtrl\<close>. \<open>DownloadUrl\<close> is the text of a query, one
    definition per step of \<open>updateDownloadUrl\<close>, with the abstract request it should be read
    as. \<open>QueryCtrl\<close> is the scope and its operations; the locale \<open>facet_collector\<close> is the contract
    of the three loops over facets, \<open>running_extreme\<close> that of the four edges of an area.
    \<open>Session\<close> is a step relation: the operations, the listeners of the watches and the timers
    in any order; a watch is pending from a change of its value until its listener has run.
  \<^item> \<open>SearchParser\<close>, \<open>SearchText\<close>, \<open>SearchBox\<close>, \<open>SearchFocus\<close>: \<open>visualsearch.js\<close>. \<open>SearchParser\<close> is the
    parser of the text of a box (\<open>VS.app.SearchParser\<close>) and the printing of facets
    (\<open>VS.model.SearchFacet\<close>); \<open>SearchText\<close> shows which texts are read back, which are not, and
    which make the parser throw. \<open>SearchBox\<close> is the box (\<open>VS.ui.SearchBox\<close>, \<open>VS.ui.SearchFacet\<close>,
    \<open>VS.ui.SearchInput\<close>, \<open>VS.model.SearchQuery\<close>): its facets and the texts of its fields, every
    operation that changes them as \<open>box_step\<close>, those that end in an exception included, and what its
    menus offer; a removal returns the box that is left beside the exception, since the facet is
    gone by then. \<open>SearchFocus\<close> has the
    keys and the view that is edited next. The controller reads the boxes of this model.
  \<^item> \<open>SearchModes\<close>: the views of a box (\<open>VS.ui.SearchFacet\<close>, \<open>VS.ui.SearchInput\<close>) with their modes \<open>editing\<close> and
    \<open>selected\<close>, the focus, and the functions that they put off. \<open>view_step\<close> has the clicks, the keys, the focus
    going elsewhere and the timers in any order; a view that is no longer on the page is still a view.
  \<^item> \<open>ClassNames\<close>, \<open>JqEvents\<close>, \<open>ModelEvents\<close>: the parts of \<open>dependencies.js\<close> that carry the box. \<open>ClassNames\<close> is the class
    attribute as \<open>jQuery\<close> writes it (\<open>addClass\<close>, \<open>removeClass\<close>, \<open>hasClass\<close>, \<open>toggleClass\<close>) with the modes that are
    shown by it (\<open>setMode\<close>). \<open>JqEvents\<close> is \<open>jQuery.event\<close>: the tables of handlers with name spaces
    and selectors, and the way of an event up the document, with functions that may change the tables and the
    document while they are called; \<open>due\<close>, \<open>way_up\<close> and \<open>carried_out\<close> specify the calls apart from the code. \<open>ModelEvents\<close> is \<open>Backbone.Events\<close> and
    \<open>Model.set\<close>; a listener is a program that can bind, unbind, trigger and set again while it is called, and
    the locale \<open>kept_by_listeners\<close> is what a relation needs to survive that, with three interpretations.
    The depth of calls is an argument of \<open>run_action\<close> and \<open>unbind_word\<close>, and None is the error of a browser
    whose calls go too deep; \<open>set_events\<close> and \<open>unbinding_ends\<close> show that two are enough where nothing nests.
  \<^item> \<open>Collection\<close>, \<open>Autocomplete\<close>, \<open>UiPosition\<close>, \<open>Underscore\<close>: what the search box uses of the libraries in
    \<open>dependencies.js\<close> beside it. \<open>Collection\<close> is \<open>Backbone.Collection\<close> with the events of its
    models, and refines the list of facets that \<open>SearchBox\<close> works on; \<open>Autocomplete\<close> has the widgets
    \<open>ui.autocomplete\<close> and \<open>ui.menu\<close>, with answers to its requests in any order; \<open>UiPosition\<close> places
    a menu and flips it; \<open>Underscore\<close> sorts, searches and numbers.
  \<^item> \<open>SavedSearch\<close>: the controller, the storage and the boxes together: a search in a box and
    the query text (\<open>search_reaches_query\<close>), a query and the next visit of the page.
  \<^item> \<open>ResultsCtrl\<close>: \<open>AisResultsCtrl\<close>. Requests under way are a multiset, answers come in any
    order.
  \<^item> \<open>BaseData\<close>, \<open>FilterText\<close>: \<open>base-data.js\<close> entry by entry, and the filter text as a small
    language that a reader splits into the values picked from those tables.
  \<^item> \<open>AreaMap\<close>: the directive \<open>aisMap\<close>. A digest is a loop with the limit of ten rounds that the
    form library documents; \<open>digest_three\<close> shows that three are enough.
  \<^item> \<open>PositionField\<close>: \<open>positionDirective\<close> for \<open>latitude\<close> and \<open>longitude\<close>; the locale \<open>position_field\<close>
    extends \<open>coordinate_text\<close> and is interpreted for both.
  \<^item> \<open>FilterField\<close>: \<open>filterValidate\<close>, with its timers and the answers to its requests in any order.
  \<^item> \<open>DatePicker\<close>: the directive \<open>psDatetimePicker\<close>.
  \<^item> \<open>ByteFilter\<close>: \<open>app-filter.js\<close>.
  \<^item> \<open>Repository\<close>: the service that answers the requests, \<open>QueryService.java\<close> and \<open>RepoFile.java\<close> in
    \<open>src/ais-store-web/src/main/java/dk/dma/ais/downloader/\<close>: the folders and files of the clients
    and the downloads under way. \<open>repo_step\<close> has the requests, the beginnings, progress and ends
    of downloads and the clean-up, in any order; \<open>init_service\<close> is its start, on whatever an earlier
    run has left in the root folder. The order of the entries of a list is an
    instance of the preorder class.
  \<^item> \<open>ClientServer\<close>: the result list of the page together with that service.

  \<^bold>\<open>What is shown.\<close> A query that is executed is received as it was meant
  (\<open>execute_sends_query\<close>, \<open>download_url_received\<close>,
  \<open>picked_filter_received\<close>, and \<open>drawn_box_queried\<close> below, which spans
  the map, the controller and the query text). The state of the page is invariant under
  everything that can happen to it (\<open>session_interval\<close>,
  \<open>session_client\<close>, \<open>session_buttons\<close>, \<open>map_shows_area\<close>,
  \<open>badge_matches_files\<close>). On the side of the service the clients are isolated from
  each other, a download ends in a finished file or a report
  (\<open>download_completes\<close>), a synchronous query opens what came of it
  (\<open>sync_query_opens_result\<close>), and the red badge means that a download is under way
  or was left unfinished by an earlier run of the service (\<open>badge_reflects_jobs\<close>). What is written is read back: positions, parameters,
  filters, typed texts, and the facets of a box (\<open>search_text_roundtrip\<close>), so that a search
  survives the visit (\<open>search_survives_reload\<close>). The views of a box share one editing
  (\<open>one_view_active\<close>), their elements show their modes (\<open>modes_are_classes\<close>), events reach the
  handlers in order (\<open>events_bubble\<close>) and unbinding undoes binding (\<open>unbinding_undoes_binding\<close>),
  and a model tells its listeners the truth however their settings nest (\<open>set_tells_changes\<close>), and the last to a function
  that stays bound (\<open>last_change_is_seen\<close>). Listeners and digests end (\<open>date_listeners_terminate\<close>,
  \<open>map_digest_settles\<close>); the loop that does not is characterised
  (\<open>formatters_return_iff_finite\<close>). Some theorems state behaviour that the code
  hardly intends: a coordinate that is exactly zero counts as missing, the text
  \<open>Infinity\<close> hangs the page, an ampersand in the MMSI field starts a parameter of
  its own, a stale verdict on a filter stays, a saved text that the parser of a box refuses
  drops the filters of all boxes (\<open>refused_text_drops_filters\<close>), a click on a facet is lost when the one
  edited before commits its text (\<open>facet_click_moves_or_is_lost\<close>), a dot at the end of a type hangs
  \<open>off\<close> (\<open>unbinding_a_bare_dot\<close>), a facet is removed although the search that follows throws, and is still
  shown (\<open>box_invariant\<close>, \<open>removal_throws\<close>).

  \<^bold>\<open>Parameters.\<close> Libraries enter as arguments, with what is used of them as named hypotheses,
  each with a concrete instance in a witness: the date library (\<open>moment\<close>, \<open>moment_laws\<close>), the
  projections of the map, the verdict of the server on a
  filter, the logarithm and the power function (\<open>log_accurate\<close>, \<open>pow_exact\<close>).

  \<^bold>\<open>Not modelled.\<close> Characters beyond Latin-1; the layout of the page, the
  set-up of map layers and controls, notifications and log output, which have no state that the
  rest reads; \<open>app.js\<close>, which only names the module; of the search box the cursor in a text, its
  templates, and the lookups of \<open>SearchQuery\<close> that nothing calls; of \<open>dependencies.js\<close> what is not named
  above, such as the selectors, effects and requests of jQuery; the other vendored libraries under \<open>ext/\<close>. Of the service: the bytes and headers of its transfers, and I/O errors
  other than a missing folder or file; a client id and a file name are one path component each.
  The other Java modules (the store library, the command line tools, the REST interface) are not
  modelled.
\<close>

subsection \<open>The map and the query\<close>

text \<open>The four edges of the area, as the query prints them.\<close>

definition edges_text :: "area \<Rightarrow> string" where
  "edges_text a = join '','' (map (to_fixed 3 \<circ> the) [maxLat a, minLon a, minLat a, maxLon a])"

lemma area_recompute: "area (params (recomputeDownloadUrl M s)) = area (params s)"
proof -
  have "area (no_source p) = area p" "area (no_target p) = area p" "area (no_message p) = area p" for p
    by (simp_all add: no_source_def no_target_def no_message_def)
  then show ?thesis
    by (simp add: recomputeDownloadUrl_def updateDownloadUrl_def message_frame [of area]
        target_frame [of area] source_frame [of area])
qed

lemma query_box:
  assumes "moment_laws M" "raw_fields_plain (params s)"
  shows "(''box'', b) \<in> set (query_params (downloadUrl (recomputeDownloadUrl M s))) \<longleftrightarrow>
    areaDefined (params s) \<and> b = Some (edges_text (area (params s)))"
proof -
  define p where "p = params (recomputeDownloadUrl M s)"
  have qs: "query_params (downloadUrl (recomputeDownloadUrl M s)) = map (\<lambda>(k, v). (k, Some v)) (request M p)"
    using download_url_query [OF assms(1), of p] assms(2) raw_fields_recompute by (simp add: p_def)
  have "(''box'', b) \<in> set (map (\<lambda>(k, v). (k, Some v)) (request M p)) \<longleftrightarrow> (\<exists>v. b = Some v \<and> (''box'', v) \<in> set (request M p))"
    by force
  also have "\<dots> \<longleftrightarrow> areaDefined (params s) \<and> b = Some (edges_text (area (params s)))"
    unfolding box_item_iff by (auto simp: box_items_def areaDefined_def edges_text_def p_def area_recompute Let_def)
  finally show ?thesis unfolding qs .
qed

text \<open>
  C4. A box that is drawn on the empty map restricts the query to it: the area of the map,
  which is the area of the search, is the bounding box of the projected vertices, and the
  query text sent has the parameter \<open>box\<close> with its top, left, bottom and right edge, unless
  one of them is zero; then the query has no such parameter.
\<close>

theorem drawn_box_queried:
  assumes "moment_laws M" "raw_fields_plain (params s)"
    and "watches_ok tm m" "map_area m = no_area"
    and "vs \<noteq> []" "\<forall>v\<in>set vs. is_finite (fst (fm v)) \<and> is_finite (snd (fm v))"
  shows "\<exists>a. map_option map_area (draw tm fm vs m) = Some a \<and>
     (let t = Max ((\<lambda>v. valQ (snd (fm v))) ` set vs); r = Max ((\<lambda>v. valQ (fst (fm v))) ` set vs);
          b = Min ((\<lambda>v. valQ (snd (fm v))) ` set vs); l = Min ((\<lambda>v. valQ (fst (fm v))) ` set vs);
          qs = query_params (downloadUrl (recomputeDownloadUrl M (s\<lparr>params := (params s)\<lparr>area := a\<rparr>\<rparr>)))
      in edge (maxLat a) t \<and> edge (maxLon a) r \<and> edge (minLat a) b \<and> edge (minLon a) l \<and>
         (\<forall>x. (''box'', x) \<in> set qs \<longleftrightarrow> t \<noteq> 0 \<and> r \<noteq> 0 \<and> b \<noteq> 0 \<and> l \<noteq> 0 \<and> x = Some (edges_text a)))"
proof -
  define a where "a = foldl extend_area no_area (map fm vs)"
  let ?s = "s\<lparr>params := (params s)\<lparr>area := a\<rparr>\<rparr>"
  have d: "map_option map_area (draw tm fm vs m) = Some a"
    using assms(4) by (simp add: draw_eq [OF assms(3)] after_read_def a_def)
  have e: "edge (maxLat a) (Max ((\<lambda>v. valQ (snd (fm v))) ` set vs))" "edge (maxLon a) (Max ((\<lambda>v. valQ (fst (fm v))) ` set vs))"
    "edge (minLat a) (Min ((\<lambda>v. valQ (snd (fm v))) ` set vs))" "edge (minLon a) (Min ((\<lambda>v. valQ (fst (fm v))) ` set vs))"
    using assms(5,6) edge_max [of "map (snd \<circ> fm) vs"] edge_max [of "map (fst \<circ> fm) vs"]
      edge_min [of "map (snd \<circ> fm) vs"] edge_min [of "map (fst \<circ> fm) vs"]
    by (simp_all add: a_def foldl_extend_area no_area_def image_image)
  have "raw_fields_plain (params ?s)" using assms(2) by (simp add: raw_fields_plain_def)
  note q = query_box [OF assms(1) this]
  have "areaDefined (params ?s) \<longleftrightarrow> truthy (maxLat a) \<and> truthy (maxLon a) \<and> truthy (minLat a) \<and> truthy (minLon a)"
    by (simp add: areaDefined_def Let_def)
  then show ?thesis
    unfolding Let_def using d e q by (auto simp: truthy_edge [OF e(1)] truthy_edge [OF e(2)] truthy_edge [OF e(3)] truthy_edge [OF e(4)])
qed

lemma drawn_box_queried_witness:
  "\<exists>a. map_option map_area (draw (\<lambda>p. Some p) id [(Fin 10, Fin 55), (Fin 12, Fin 57)] (link_map no_area)) = Some a \<and>
     edge (maxLat a) 57 \<and>
     (''box'', Some (edges_text a)) \<in> set (query_params (downloadUrl (recomputeDownloadUrl sample_moment (sample_scope\<lparr>params := (params sample_scope)\<lparr>area := a\<rparr>\<rparr>))))"
proof -
  have "raw_fields_plain (params sample_scope)"
    by (simp add: sample_scope_def init_scope_def clearParams_def raw_fields_plain_def)
  moreover have "watches_ok (\<lambda>p. Some p) (link_map no_area)" "map_area (link_map no_area) = no_area"
    by (simp_all add: watches_ok_def link_map_def)
  ultimately show ?thesis
    using drawn_box_queried [OF moment_laws_sample, of sample_scope "\<lambda>p. Some p" "link_map no_area"
        "[(Fin 10, Fin 55), (Fin 12, Fin 57)]" id]
    by (auto simp: Let_def)
qed

end
